(* ===== verification/HTTPError.thy ===== *)
theory HTTPError
  imports Main
begin

text \<open>
  The exception that \<open>post\<close> throws for a response that is not 200 (src/src/HTTPError.h,
  src/src/HTTPError.cpp). Its base, \<open>Poco::ApplicationException\<close>, holds a message and perhaps a nested
  exception; copying one copies the other.
\<close>

datatype poco_base = PocoException string "poco_base option"

record http_error =
  he_base :: poco_base
  he_statusCode :: int

definition statusCode :: "http_error \<Rightarrow> int" where
  "statusCode exc = he_statusCode exc"

definition HTTPError_new :: "int \<Rightarrow> string \<Rightarrow> http_error" where
  "HTTPError_new status msg = \<lparr>he_base = PocoException msg None, he_statusCode = status\<rparr>"

definition HTTPError_nested :: "int \<Rightarrow> string \<Rightarrow> poco_base \<Rightarrow> http_error" where
  "HTTPError_nested status msg exc = \<lparr>he_base = PocoException msg (Some exc), he_statusCode = status\<rparr>"

definition HTTPError_copy :: "http_error \<Rightarrow> http_error" where
  "HTTPError_copy exc = \<lparr>he_base = he_base exc, he_statusCode = statusCode exc\<rparr>"

text \<open>\<open>a = b\<close>, with \<open>b\<close> first: the base is assigned, then the status.\<close>

definition HTTPError_assign :: "http_error \<Rightarrow> http_error \<Rightarrow> http_error" where
  "HTTPError_assign exc this = this\<lparr>he_base := he_base exc, he_statusCode := statusCode exc\<rparr>"

definition HTTPError_name :: string where
  "HTTPError_name = ''HTTP Error''"

definition HTTPError_clone :: "http_error \<Rightarrow> http_error" where
  "HTTPError_clone exc = HTTPError_copy exc"

text \<open>\<open>throw *this\<close> throws a copy.\<close>

definition HTTPError_rethrow :: "http_error \<Rightarrow> http_error + 'a" where
  "HTTPError_rethrow exc = Inl (HTTPError_copy exc)"

text \<open>No way of passing the exception on loses its status, its message or what it nests.\<close>

lemma HTTPError_kept [simp]:
  "HTTPError_copy exc = exc" "HTTPError_clone exc = exc" "HTTPError_assign exc this = exc"
  "HTTPError_rethrow exc = Inl exc"
  by (simp_all add: HTTPError_copy_def HTTPError_clone_def HTTPError_assign_def HTTPError_rethrow_def
      statusCode_def)

lemma HTTPError_status [simp]:
  "statusCode (HTTPError_new status msg) = status" "statusCode (HTTPError_nested status msg exc) = status"
  by (simp_all add: HTTPError_new_def HTTPError_nested_def statusCode_def)

end
