(* ===== verification/Prelude.thy ===== *)
theory Prelude
  imports Main HTTPError "HOL-Library.Word" "HOL-Library.Multiset"
begin

text \<open>
  What the components share: 64-bit \<open>size_t\<close> and \<open>ssize_t\<close> arithmetic with its
  wrap-around written out, raw memory with indeterminate cells and a bounds-checked
  \<open>memcpy\<close>, the result type of fallible code, and lemmas on windows of lists.
\<close>

section \<open>Results: exceptions and faults as values\<close>

text \<open>
  \<open>OutOfBounds\<close>, \<open>DivByZero\<close>, \<open>NullPointer\<close> and \<open>AssertFailed\<close> are faults (undefined
  behaviour or an abort of the process); the others are the exceptions the sources throw.
\<close>

datatype err =
    OutOfBounds
  | DivByZero
  | NullPointer
  | AssertFailed
  | IllegalState string
  | InvalidArgument string
  | SystemError string
  | HttpException http_error

type_synonym 'a res = "err + 'a"

definition rbind :: "'a res \<Rightarrow> ('a \<Rightarrow> 'b res) \<Rightarrow> 'b res" where
  "rbind m f = (case m of Inl e \<Rightarrow> Inl e | Inr x \<Rightarrow> f x)"

lemma rbind_simps [simp]: "rbind (Inl e) f = Inl e" "rbind (Inr x) f = f x"
  by (simp_all add: rbind_def)

lemma rbind_eq_Inr: "rbind m f = Inr y \<longleftrightarrow> (\<exists>x. m = Inr x \<and> f x = Inr y)"
  by (cases m) auto

section \<open>Machine integers\<close>

text \<open>
  \<open>size_t\<close> is a natural number below \<open>SIZE_MOD = 2 ^ 64\<close>; every operation that can wrap
  is written with its \<open>mod\<close>. \<open>ssize_t\<close> is an integer between \<open>- (2 ^ 63)\<close> and \<open>2 ^ 63 - 1\<close>.
\<close>

definition SIZE_MOD :: nat where
  "SIZE_MOD = 2 ^ 64"

definition sz_add :: "nat \<Rightarrow> nat \<Rightarrow> nat" where
  "sz_add a b = (a + b) mod SIZE_MOD"

definition sz_sub :: "nat \<Rightarrow> nat \<Rightarrow> nat" where
  "sz_sub a b = nat ((int a - int b) mod int SIZE_MOD)"

definition sz_mul :: "nat \<Rightarrow> nat \<Rightarrow> nat" where
  "sz_mul a b = (a * b) mod SIZE_MOD"

text \<open>The remainder of two \<open>size_t\<close> values; a zero divisor traps.\<close>

definition sz_rem :: "nat \<Rightarrow> nat \<Rightarrow> nat res" where
  "sz_rem a b = (if b = 0 then Inl DivByZero else Inr (a mod b))"

text \<open>The conversions between \<open>size_t\<close> and \<open>ssize_t\<close>.\<close>

definition to_ssize :: "nat \<Rightarrow> int" where
  "to_ssize n = (let m = n mod SIZE_MOD in if m < 2 ^ 63 then int m else int m - 2 ^ 64)"

definition of_ssize :: "int \<Rightarrow> nat" where
  "of_ssize i = nat (i mod int SIZE_MOD)"

named_theorems sz_simps \<open>size_t operations that do not wrap\<close>

lemma SIZE_MOD_pos [simp]: "0 < SIZE_MOD"
  by (simp add: SIZE_MOD_def)

lemma SIZE_MOD_half: "SIZE_MOD = 2 * 2 ^ 63"
  by (simp add: SIZE_MOD_def)

lemma sz_add_eq [sz_simps]: "a + b < SIZE_MOD \<Longrightarrow> sz_add a b = a + b"
  by (simp add: sz_add_def)

lemma sz_mul_eq [sz_simps]: "a * b < SIZE_MOD \<Longrightarrow> sz_mul a b = a * b"
  by (simp add: sz_mul_def)

lemma sz_sub_eq [sz_simps]: "b \<le> a \<Longrightarrow> a < SIZE_MOD \<Longrightarrow> sz_sub a b = a - b"
  by (simp add: sz_sub_def of_nat_diff [symmetric] zmod_int [symmetric] del: of_nat_diff)

lemma sz_add_lt [simp]: "sz_add a b < SIZE_MOD"
  by (simp add: sz_add_def)

lemma sz_sub_lt [simp]: "sz_sub a b < SIZE_MOD"
  by (simp add: sz_sub_def nat_less_iff)

lemma sz_sub_underflow: "a < SIZE_MOD \<Longrightarrow> sz_sub 0 (Suc a) = SIZE_MOD - Suc a"
proof -
  assume a: "a < SIZE_MOD"
  have "(int 0 - int (Suc a)) mod int SIZE_MOD = (int 0 - int (Suc a) + int SIZE_MOD) mod int SIZE_MOD"
    by (simp only: mod_add_self2)
  also have "int 0 - int (Suc a) + int SIZE_MOD = int (SIZE_MOD - Suc a)"
    using a by (simp add: of_nat_diff)
  also have "\<dots> mod int SIZE_MOD = int (SIZE_MOD - Suc a)"
    by (rule mod_pos_pos_trivial) (use a in simp_all)
  finally show ?thesis
    by (simp add: sz_sub_def)
qed

lemma neg_mod:
  assumes "- m \<le> x" "x < (0::int)"
  shows "x mod m = x + m"
proof -
  have "x mod m = (x + m) mod m" by simp
  also have "\<dots> = x + m"
    by (rule mod_pos_pos_trivial) (use assms in simp_all)
  finally show ?thesis .
qed

lemma sz_rem_pos [simp]: "0 < b \<Longrightarrow> sz_rem a b = Inr (a mod b)"
  by (simp add: sz_rem_def)

lemma sz_rem_zero [simp]: "sz_rem a 0 = Inl DivByZero"
  by (simp add: sz_rem_def)

section \<open>Memory\<close>

text \<open>
  A cell is a byte or, as \<open>None\<close>, the indeterminate content of freshly allocated memory.
  A pointer into an array is the array's cells from that point on.
\<close>

type_synonym byte = "8 word"
type_synonym cell = "byte option"

definition malloc :: "nat \<Rightarrow> cell list" where
  "malloc n = replicate n None"

definition memcpy :: "cell list \<Rightarrow> nat \<Rightarrow> cell list \<Rightarrow> nat \<Rightarrow> nat \<Rightarrow> cell list res" where
  "memcpy dst d src s n =
     (if d + n \<le> length dst \<and> s + n \<le> length src
      then Inr (take d dst @ take n (drop s src) @ drop (d + n) dst)
      else Inl OutOfBounds)"

text \<open>The bytes of a text and the end of a line.\<close>

definition htext :: "string \<Rightarrow> cell list" where
  "htext s = map (\<lambda>c. Some (of_nat (of_char c))) s"

definition endl :: string where
  "endl = [CHR 0x0A]"

lemma length_malloc [simp]: "length (malloc n) = n"
  by (simp add: malloc_def)

lemma memcpy_ok:
  "d + n \<le> length dst \<Longrightarrow> s + n \<le> length src \<Longrightarrow>
   memcpy dst d src s n = Inr (take d dst @ take n (drop s src) @ drop (d + n) dst)"
  by (simp add: memcpy_def)

lemma memcpy_total:
  "d + n \<le> length dst \<Longrightarrow> s + n \<le> length src \<Longrightarrow> \<exists>q. memcpy dst d src s n = Inr q"
  by (simp add: memcpy_def)

lemma memcpy_length: "memcpy dst d src s n = Inr dst' \<Longrightarrow> length dst' = length dst"
  by (auto simp: memcpy_def split: if_splits)

lemma memcpy_nth:
  assumes "memcpy dst d src s n = Inr dst'" and "i < length dst"
  shows "dst' ! i = (if d \<le> i \<and> i < d + n then src ! (s + (i - d)) else dst ! i)"
proof -
  have bounds: "d + n \<le> length dst" "s + n \<le> length src"
    and dst': "dst' = take d dst @ take n (drop s src) @ drop (d + n) dst"
    using assms by (auto simp: memcpy_def split: if_splits)
  have len: "length (take n (drop s src)) = n" "length (take d dst) = d"
    using bounds by simp_all
  show ?thesis
    using bounds len assms(2) by (auto simp: dst' nth_append simp del: length_take length_drop)
qed

section \<open>Event systems\<close>

text \<open>
  A component with several threads is an executable step function on its state, \<open>None\<close> when an event is
  not enabled. The two contracts say that its events keep an invariant, and that a state that is busy
  has an event of a chosen kind that brings it closer to rest; the lemmas are what follows for runs.
\<close>

fun run_events :: "('e \<Rightarrow> 's \<Rightarrow> 's option) \<Rightarrow> 'e list \<Rightarrow> 's \<Rightarrow> 's option" where
  "run_events ev [] s = Some s"
| "run_events ev (e # es) s = (case ev e s of None \<Rightarrow> None | Some s' \<Rightarrow> run_events ev es s')"

lemma run_events_append:
  "run_events ev (es @ fs) s = (case run_events ev es s of None \<Rightarrow> None | Some s' \<Rightarrow> run_events ev fs s')"
  by (induction es arbitrary: s) (auto split: option.split)

lemma run_events_one [simp]: "run_events ev [e] s = ev e s"
  by (simp split: option.split)

locale event_system =
  fixes ev :: "'e \<Rightarrow> 's \<Rightarrow> 's option" and inv :: "'s \<Rightarrow> bool"
  assumes step_inv: "inv s \<Longrightarrow> ev e s = Some s' \<Longrightarrow> inv s'"
begin

lemma run_inv: "inv s \<Longrightarrow> run_events ev es s = Some s' \<Longrightarrow> inv s'"
  by (induction es arbitrary: s) (auto split: option.splits dest: step_inv)

end

locale ending_system = event_system +
  fixes own :: "'a \<Rightarrow> bool" and busy :: "'b \<Rightarrow> bool" and rank :: "'b \<Rightarrow> nat"
  assumes progress: "inv s \<Longrightarrow> busy s \<Longrightarrow> \<exists>e s'. own e \<and> ev e s = Some s' \<and> rank s' < rank s"
begin

lemma ends:
  "inv s \<Longrightarrow> \<exists>es s'. (\<forall>e \<in> set es. own e) \<and> length es \<le> rank s \<and> run_events ev es s = Some s' \<and> inv s' \<and> \<not> busy s'"
proof (induction "rank s" arbitrary: s rule: less_induct)
  case less
  show ?case
  proof (cases "busy s")
    case True
    obtain e s1 where e: "own e" "ev e s = Some s1" "rank s1 < rank s"
      using progress [OF less.prems True] by blast
    obtain es s' where es: "\<forall>e \<in> set es. own e" "length es \<le> rank s1" "run_events ev es s1 = Some s'"
        "inv s'" "\<not> busy s'"
      using less.hyps [OF e(3) step_inv [OF less.prems e(2)]] by blast
    have "length (e # es) \<le> rank s" using es(2) e(3) by simp
    moreover have "run_events ev (e # es) s = Some s'" using e(2) es(3) by simp
    ultimately show ?thesis using e(1) es by (intro exI [of _ "e # es"] exI [of _ s']) simp
  next
    case False
    then show ?thesis using less.prems by (intro exI [of _ "[]"] exI [of _ s]) simp
  qed
qed

end

section \<open>Windows of lists\<close>

lemma drop_append_window:
  "drop (length xs + length ys - n) (xs @ ys) =
     (if n \<le> length ys then drop (length ys - n) ys
      else drop (length xs + length ys - n) xs @ ys)"
  by auto

lemma take_drop_append:
  "k + n \<le> length xs \<Longrightarrow> take n (drop k (xs @ ys)) = take n (drop k xs)"
  by simp

end
