(* ===== verification/OutputRing.thy ===== *)
theory OutputRing
  imports Prelude
begin

text \<open>
  The circular buffer of \<open>OutputBuffer\<close> (src/src/OutputBuffer.h, src/src/OutputBuffer.cpp):
  its fields, \<open>_expandBuffer\<close>, \<open>_circularWrite\<close>, \<open>_overwrite\<close>, \<open>_circularRead\<close>,
  \<open>translateNegativeBegin\<close>, and the refinement to the list of all bytes ever written.
\<close>

section \<open>State\<close>

record ring =
  ob_buffer :: "cell list"
  ob_capacity :: nat
  ob_maxCapacity :: nat
  ob_size :: nat
  ob_head :: nat
  ob_writtenBytes :: nat

definition new_ring :: "nat \<Rightarrow> nat \<Rightarrow> ring" where
  "new_ring maxCapacity initialCapacity =
     \<lparr>ob_buffer = malloc maxCapacity, ob_capacity = min initialCapacity maxCapacity,
      ob_maxCapacity = maxCapacity, ob_size = 0, ob_head = 0, ob_writtenBytes = 0\<rparr>"

section \<open>Operations\<close>

definition expandBuffer :: "'z ring_scheme \<Rightarrow> nat \<Rightarrow> 'z ring_scheme res" where
  "expandBuffer b desiredCapacity =
     (let newCapacity = min (max (sz_mul (ob_capacity b) 2) desiredCapacity) (ob_maxCapacity b) in
      if newCapacity > ob_capacity b then
        (let p = malloc newCapacity in
         rbind
           (if sz_add (ob_head b) (ob_size b) > ob_capacity b then
              (let rightSize = sz_sub (ob_capacity b) (ob_head b) in
               rbind (memcpy p 0 (ob_buffer b) (ob_head b) rightSize) (\<lambda>p'.
                 memcpy p' rightSize (ob_buffer b) 0 (sz_sub (ob_size b) rightSize)))
            else memcpy p 0 (ob_buffer b) (ob_head b) (ob_size b))
           (\<lambda>q. Inr (b\<lparr>ob_buffer := q, ob_capacity := newCapacity, ob_head := 0\<rparr>)))
      else Inr b)"

definition circularWrite ::
  "'z ring_scheme \<Rightarrow> cell list \<Rightarrow> nat \<Rightarrow> ('z ring_scheme \<times> nat) res" where
  "circularWrite b data cnt =
     (let room = sz_sub (ob_capacity b) (ob_size b); bytesToWrite = min cnt room in
      rbind (sz_rem (sz_add (ob_head b) (ob_size b)) (ob_capacity b)) (\<lambda>tail.
        let rightSize = sz_sub (ob_capacity b) tail in
        rbind
          (if bytesToWrite \<le> rightSize then memcpy (ob_buffer b) tail data 0 bytesToWrite
           else rbind (memcpy (ob_buffer b) tail data 0 rightSize) (\<lambda>p.
                  memcpy p 0 data rightSize (sz_sub bytesToWrite rightSize)))
          (\<lambda>q. Inr (b\<lparr>ob_buffer := q, ob_size := sz_add (ob_size b) bytesToWrite\<rparr>, bytesToWrite))))"

definition overwrite_store ::
  "'z ring_scheme \<Rightarrow> cell list \<Rightarrow> nat \<Rightarrow> ('z ring_scheme \<times> nat) res" where
  "overwrite_store b data cnt =
     (if cnt \<ge> ob_capacity b then
        (let overwrittenLen = sz_add (ob_size b) (sz_sub cnt (ob_capacity b)) in
         rbind (circularWrite (b\<lparr>ob_size := 0\<rparr>) (drop (sz_sub cnt (ob_capacity b)) data)
                  (ob_capacity b))
           (\<lambda>(b', n). Inr (b', overwrittenLen)))
      else
        (let preserveLen = sz_sub (ob_capacity b) cnt in
         rbind
           (if preserveLen < ob_size b then
              (let overwrittenLen = sz_sub (ob_size b) preserveLen in
               rbind (sz_rem (sz_add (ob_head b) overwrittenLen) (ob_capacity b)) (\<lambda>h.
                 Inr (b\<lparr>ob_size := sz_sub (ob_size b) overwrittenLen, ob_head := h\<rparr>,
                      overwrittenLen)))
            else Inr (b, 0))
           (\<lambda>(b1, overwrittenLen).
             rbind (circularWrite b1 data cnt) (\<lambda>(b', n). Inr (b', overwrittenLen)))))"

definition overwrite ::
  "'z ring_scheme \<Rightarrow> cell list \<Rightarrow> nat \<Rightarrow> ('z ring_scheme \<times> nat) res" where
  "overwrite b data cnt =
     (let desiredCapacity = sz_add (ob_size b) cnt in
      rbind
        (if desiredCapacity > ob_capacity b \<and> ob_capacity b < ob_maxCapacity b
         then expandBuffer b desiredCapacity else Inr b)
        (\<lambda>b1. rbind (overwrite_store b1 data cnt) (\<lambda>(b2, overwrittenLen).
          Inr (b2\<lparr>ob_writtenBytes := sz_add (ob_writtenBytes b2) cnt\<rparr>, overwrittenLen))))"

definition circularRead ::
  "'z ring_scheme \<Rightarrow> cell list \<Rightarrow> nat \<Rightarrow> nat \<Rightarrow> (cell list \<times> nat) res" where
  "circularRead b target cnt start0 =
     (let start = max start0 0 in
      if ob_size b > start then
        (let readSize = min cnt (sz_sub (ob_size b) start) in
         rbind (sz_rem (sz_add (ob_head b) start) (ob_capacity b)) (\<lambda>front.
           let rightSize = sz_sub (ob_capacity b) front in
           rbind
             (if readSize \<le> rightSize then memcpy target 0 (ob_buffer b) front readSize
              else rbind (memcpy target 0 (ob_buffer b) front rightSize) (\<lambda>t.
                     memcpy t rightSize (ob_buffer b) 0 (sz_sub readSize rightSize)))
             (\<lambda>t. Inr (t, readSize))))
      else Inr (target, 0))"

definition translateNegativeBegin :: "'z ring_scheme \<Rightarrow> int \<Rightarrow> nat" where
  "translateNegativeBegin b begin0 =
     (let begin1 = (if begin0 < 0 then to_ssize (of_ssize begin0 + ob_writtenBytes b) else begin0);
          begin2 = (if begin1 < 0 then 0 else begin1)
      in of_ssize begin2)"

section \<open>The invariant and the abstraction\<close>

text \<open>
  \<open>contents\<close> reads the live cells in order, from the head. The bound on the capacity is that
  of any successful allocation: an object is smaller than \<open>2 ^ 63\<close> bytes.
\<close>

definition contents :: "'z ring_scheme \<Rightarrow> cell list" where
  "contents b = map (\<lambda>i. ob_buffer b ! ((ob_head b + i) mod ob_capacity b)) [0..<ob_size b]"

definition ring_inv :: "'z ring_scheme \<Rightarrow> bool" where
  "ring_inv b \<longleftrightarrow>
     0 < ob_capacity b \<and> ob_capacity b \<le> ob_maxCapacity b \<and> ob_capacity b \<le> length (ob_buffer b) \<and>
     ob_size b \<le> ob_capacity b \<and> ob_head b < ob_capacity b \<and> ob_maxCapacity b < 2 ^ 63"

text \<open>
  \<open>ring_rel b h\<close>: the buffer holds the history \<open>h\<close> of all cells ever written, of which it
  keeps as many of the last ones as its maximum capacity allows.
\<close>

definition ring_rel :: "'z ring_scheme \<Rightarrow> cell list \<Rightarrow> bool" where
  "ring_rel b h \<longleftrightarrow>
     ring_inv b \<and> length h < 2 ^ 63 \<and> ob_writtenBytes b = length h \<and>
     ob_size b = min (length h) (ob_maxCapacity b) \<and>
     contents b = drop (length h - ob_size b) h"

lemma length_contents [simp]: "length (contents b) = ob_size b"
  by (simp add: contents_def)

lemma wrap_mod:
  "h < c \<Longrightarrow> x \<le> c \<Longrightarrow> (h + x) mod c = (if h + x < c then h + x else h + x - (c::nat))"
  by (auto simp: mod_if)

lemma contents_nth:
  "i < ob_size b \<Longrightarrow> contents b ! i = ob_buffer b ! ((ob_head b + i) mod ob_capacity b)"
  by (simp add: contents_def)

lemma ring_inv_sz:
  assumes "ring_inv b"
  shows "sz_sub (ob_capacity b) (ob_size b) = ob_capacity b - ob_size b"
    "x \<le> ob_capacity b \<Longrightarrow> sz_add (ob_head b) x = ob_head b + x"
    "x \<le> ob_capacity b \<Longrightarrow> sz_add (ob_size b) x = ob_size b + x"
    "x \<le> ob_capacity b \<Longrightarrow> sz_sub (ob_capacity b) x = ob_capacity b - x"
    "x \<le> y \<Longrightarrow> y \<le> ob_capacity b \<Longrightarrow> sz_sub y x = y - x"
    "sz_mul (ob_capacity b) 2 = 2 * ob_capacity b"
  using assms by (auto simp: ring_inv_def SIZE_MOD_def intro!: sz_add_eq sz_sub_eq
      sz_mul_eq [of _ 2, simplified mult.commute [of _ "2::nat"]])

section \<open>Each operation against the abstraction\<close>

text \<open>
  Copying into the ring in one piece or, across the end of the array, in two: the cells land
  at the positions \<open>tp, tp + 1, \<dots>\<close> modulo the capacity and no other cell changes.
\<close>

lemma mod_distinct: "a < b \<Longrightarrow> b < a + c \<Longrightarrow> a mod c \<noteq> b mod (c::nat)"
proof
  assume "a < b" "b < a + c" "a mod c = b mod c"
  then have "c dvd b - a"
    by (simp add: mod_eq_dvd_iff_nat [symmetric])
  with \<open>a < b\<close> \<open>b < a + c\<close> show False
    by (auto dest: dvd_imp_le)
qed

lemma ring_blit:
  assumes tp: "tp < c" and c: "c \<le> length buf" and n: "n \<le> c" "n \<le> length data"
  shows "\<exists>q. (if n \<le> c - tp then memcpy buf tp data 0 n
               else rbind (memcpy buf tp data 0 (c - tp)) (\<lambda>p. memcpy p 0 data (c - tp) (n - (c - tp)))) = Inr q \<and>
    length q = length buf \<and>
    (\<forall>i<n. q ! ((tp + i) mod c) = data ! i) \<and>
    (\<forall>j<c. (\<forall>i<n. j \<noteq> (tp + i) mod c) \<longrightarrow> q ! j = buf ! j)"
proof (cases "n \<le> c - tp")
  case True
  with tp c have "tp + n \<le> length buf" by linarith
  with n obtain q where q: "memcpy buf tp data 0 n = Inr q"
    using memcpy_total [of tp n buf 0 data] by auto
  have "q ! ((tp + i) mod c) = data ! i" if "i < n" for i
    using that True tp c memcpy_nth [OF q, of "tp + i"] by simp
  moreover have "q ! j = buf ! j" if "j < c" "\<forall>i<n. j \<noteq> (tp + i) mod c" for j
  proof -
    have "\<not> (tp \<le> j \<and> j < tp + n)"
    proof
      assume j: "tp \<le> j \<and> j < tp + n"
      then have "j - tp < n" by linarith
      with that(2) have "j \<noteq> (tp + (j - tp)) mod c" by blast
      with j that(1) show False by simp
    qed
    then show ?thesis
      using that(1) c memcpy_nth [OF q, of j] by auto
  qed
  ultimately show ?thesis
    using True q memcpy_length [OF q] by simp
next
  case False
  define r where "r = c - tp"
  have r: "tp + r = c" "r \<le> n" "n - r \<le> tp"
    using False tp n by (simp_all add: r_def)
  obtain p where p: "memcpy buf tp data 0 r = Inr p"
    using memcpy_total [of tp r buf 0 data] r c n by auto
  obtain q where q: "memcpy p 0 data r (n - r) = Inr q"
    using memcpy_total [of 0 "n - r" p r data] r c n memcpy_length [OF p] by auto
  have len: "length p = length buf" "length q = length buf"
    using memcpy_length [OF p] memcpy_length [OF q] by simp_all
  have at: "q ! j = (if j < n - r then data ! (r + j) else if tp \<le> j then data ! (j - tp) else buf ! j)"
    if "j < c" for j
    using that tp c len memcpy_nth [OF q, of j] memcpy_nth [OF p, of j] by (auto simp: r_def)
  have "q ! ((tp + i) mod c) = data ! i" if "i < n" for i
  proof (cases "i < r")
    case True
    then have "tp + i < c" "\<not> tp + i < n - r" using r by linarith+
    then show ?thesis using at [of "tp + i"] by simp
  next
    case i: False
    then have "(tp + i) mod c = i - r"
      using that tp n r wrap_mod [of tp c i] by auto
    moreover have "i - r < n - r" "i - r < c" using i that n by linarith+
    ultimately show ?thesis using at [of "i - r"] i by simp
  qed
  moreover have "q ! j = buf ! j" if j: "j < c" "\<forall>i<n. j \<noteq> (tp + i) mod c" for j
  proof -
    have "\<not> j < n - r"
    proof
      assume "j < n - r"
      then have "r + j < n" "r + j \<le> c" "(tp + (r + j)) mod c = j"
        using r n wrap_mod [of tp c "r + j"] tp by auto
      with j(2) show False by metis
    qed
    moreover have "\<not> tp \<le> j"
    proof
      assume "tp \<le> j"
      then have "j - tp < n" "tp + (j - tp) = j" using j(1) r by linarith+
      with j show False by (metis mod_less)
    qed
    ultimately show ?thesis using at [OF j(1)] by simp
  qed
  ultimately show ?thesis
    using False p q len by (simp add: r_def)
qed

lemma circularWrite_ok:
  assumes inv: "ring_inv b" and len: "n \<le> length data" and n: "n = min cnt (ob_capacity b - ob_size b)"
  shows "\<exists>q. circularWrite b data cnt = Inr (b\<lparr>ob_buffer := q, ob_size := ob_size b + n\<rparr>, n) \<and>
    length q = length (ob_buffer b) \<and>
    contents (b\<lparr>ob_buffer := q, ob_size := ob_size b + n\<rparr>) = contents b @ take n data"
proof -
  define c h sz where chs: "c = ob_capacity b" "h = ob_head b" "sz = ob_size b"
  define tp where tp: "tp = (h + sz) mod c"
  note I = inv [unfolded ring_inv_def, folded chs]
  have tlc: "tp < c" using I by (simp add: tp)
  have room: "n \<le> c - sz" and n_eq: "min cnt (c - sz) = n"
    using n by (simp_all add: chs)
  have n_le: "n \<le> c" using room by simp
  obtain q where q: "(if n \<le> c - tp then memcpy (ob_buffer b) tp data 0 n
        else rbind (memcpy (ob_buffer b) tp data 0 (c - tp))
               (\<lambda>p. memcpy p 0 data (c - tp) (n - (c - tp)))) = Inr q"
    and lenq: "length q = length (ob_buffer b)"
    and new: "\<And>i. i < n \<Longrightarrow> q ! ((tp + i) mod c) = data ! i"
    and old: "\<And>j. j < c \<Longrightarrow> \<forall>i<n. j \<noteq> (tp + i) mod c \<Longrightarrow> q ! j = ob_buffer b ! j"
    using ring_blit [OF tlc, of "ob_buffer b" n data] I n_le len by blast
  note S = ring_inv_sz [OF inv, folded chs]
  have "circularWrite b data cnt = Inr (b\<lparr>ob_buffer := q, ob_size := sz + n\<rparr>, n)"
    using I room tlc q
    by (cases "n \<le> c - tp")
      (simp_all add: circularWrite_def Let_def S n_eq chs [symmetric] tp [symmetric])
  moreover have "contents (b\<lparr>ob_buffer := q, ob_size := sz + n\<rparr>) = contents b @ take n data"
  proof (rule nth_equalityI)
    show "length (contents (b\<lparr>ob_buffer := q, ob_size := sz + n\<rparr>)) = length (contents b @ take n data)"
      using len by (simp add: chs)
  next
    fix i assume "i < length (contents (b\<lparr>ob_buffer := q, ob_size := sz + n\<rparr>))"
    then have i: "i < sz + n" by simp
    have "q ! ((h + i) mod c) = (if i < sz then ob_buffer b ! ((h + i) mod c) else data ! (i - sz))"
    proof (cases "i < sz")
      case True
      have "(h + i) mod c \<noteq> (tp + k) mod c" if "k < n" for k
        using that True room I mod_distinct [of "h + i" "h + sz + k" c]
        by (simp add: tp mod_simps)
      with True I show ?thesis by (simp add: old)
    next
      case False
      then have "h + i = h + sz + (i - sz)" by simp
      then have "(h + i) mod c = (tp + (i - sz)) mod c"
        by (simp only: tp mod_add_left_eq)
      moreover have "i - sz < n" using False i by linarith
      ultimately show ?thesis using False new by metis
    qed
    then show "contents (b\<lparr>ob_buffer := q, ob_size := sz + n\<rparr>) ! i = (contents b @ take n data) ! i"
      using i len by (auto simp: contents_nth chs [symmetric] nth_append)
  qed
  ultimately show ?thesis
    using lenq by (auto simp: chs)
qed

text \<open>Copying out of the ring, in one piece or two: the mirror image.\<close>

lemma ring_unblit:
  assumes fr: "fr < c" and c: "c \<le> length buf" and n: "n \<le> c" "n \<le> length target"
  shows "(if n \<le> c - fr then memcpy target 0 buf fr n
          else rbind (memcpy target 0 buf fr (c - fr)) (\<lambda>t. memcpy t (c - fr) buf 0 (n - (c - fr)))) =
    Inr (map (\<lambda>i. buf ! ((fr + i) mod c)) [0..<n] @ drop n target)"
proof (cases "n \<le> c - fr")
  case True
  then have len: "fr + n \<le> c" using fr by linarith
  with c n have "memcpy target 0 buf fr n = Inr (take n (drop fr buf) @ drop n target)"
    by (simp add: memcpy_def)
  moreover have "take n (drop fr buf) = map (\<lambda>i. buf ! ((fr + i) mod c)) [0..<n]"
    using len c by (intro nth_equalityI) auto
  ultimately show ?thesis using True by simp
next
  case False
  define r where "r = c - fr"
  have r: "fr + r = c" "r \<le> n" "n - r \<le> fr"
    using False fr n by (simp_all add: r_def)
  have t1: "memcpy target 0 buf fr r = Inr (take r (drop fr buf) @ drop r target)"
    using r c n by (simp add: memcpy_def)
  have len: "length (take r (drop fr buf)) = r"
    using r c by simp
  have "memcpy (take r (drop fr buf) @ drop r target) r buf 0 (n - r) =
      Inr (take r (drop fr buf) @ take (n - r) buf @ drop n target)"
    using r c n len by (simp add: memcpy_def)
  moreover have "take r (drop fr buf) @ take (n - r) buf = map (\<lambda>i. buf ! ((fr + i) mod c)) [0..<n]"
  proof (rule nth_equalityI)
    show "length (take r (drop fr buf) @ take (n - r) buf) =
        length (map (\<lambda>i. buf ! ((fr + i) mod c)) [0..<n])"
      using r c n by simp
  next
    fix i assume "i < length (take r (drop fr buf) @ take (n - r) buf)"
    then have i: "i < n" using r c n by simp
    have "(take r (drop fr buf) @ take (n - r) buf) ! i = (if i < r then buf ! (fr + i) else buf ! (i - r))"
      using i r c n by (simp add: nth_append)
    also have "\<dots> = buf ! ((fr + i) mod c)"
      using wrap_mod [of fr c i] i r fr n by auto
    finally show "(take r (drop fr buf) @ take (n - r) buf) ! i =
        map (\<lambda>i. buf ! ((fr + i) mod c)) [0..<n] ! i"
      using i by simp
  qed
  ultimately have "memcpy (take r (drop fr buf) @ drop r target) r buf 0 (n - r) =
      Inr (map (\<lambda>i. buf ! ((fr + i) mod c)) [0..<n] @ drop n target)"
    by (metis append_assoc)
  with t1 False show ?thesis by (simp add: r_def [symmetric] del: diff_diff_right)
qed

lemma expandBuffer_ok:
  assumes inv: "ring_inv b" and more: "d > ob_capacity b" "ob_capacity b < ob_maxCapacity b"
    and nc: "nc = min (max (2 * ob_capacity b) d) (ob_maxCapacity b)"
  shows "\<exists>q. expandBuffer b d = Inr (b\<lparr>ob_buffer := q, ob_capacity := nc, ob_head := 0\<rparr>) \<and>
    length q = nc \<and>
    contents (b\<lparr>ob_buffer := q, ob_capacity := nc, ob_head := 0\<rparr>) = contents b"
proof -
  define c h sz where chs: "c = ob_capacity b" "h = ob_head b" "sz = ob_size b"
  note I = inv [unfolded ring_inv_def, folded chs]
  note S = ring_inv_sz [OF inv, folded chs]
  have ncc: "c < nc" using more by (simp add: nc chs)
  define q where "q = map (\<lambda>i. ob_buffer b ! ((h + i) mod c)) [0..<sz] @ drop sz (malloc nc)"
  have q: "(if sz \<le> c - h then memcpy (malloc nc) 0 (ob_buffer b) h sz
      else rbind (memcpy (malloc nc) 0 (ob_buffer b) h (c - h))
        (\<lambda>t. memcpy t (c - h) (ob_buffer b) 0 (sz - (c - h)))) = Inr q"
    unfolding q_def by (rule ring_unblit) (use I ncc in simp_all)
  have "expandBuffer b d = Inr (b\<lparr>ob_buffer := q, ob_capacity := nc, ob_head := 0\<rparr>)"
  proof (cases "sz \<le> c - h")
    case True
    then have "\<not> c < h + sz" using I by linarith
    with True q ncc I show ?thesis
      by (simp add: expandBuffer_def Let_def S chs [symmetric] nc [folded chs, symmetric])
  next
    case False
    then have "c < h + sz" "c - h \<le> sz" using I by linarith+
    with False q ncc I S(5) [of "c - h" sz] show ?thesis
      by (simp add: expandBuffer_def Let_def S chs [symmetric] nc [folded chs, symmetric])
  qed
  moreover have "contents (b\<lparr>ob_buffer := q, ob_capacity := nc, ob_head := 0\<rparr>) = contents b"
    using I ncc by (intro nth_equalityI) (auto simp: contents_nth chs [symmetric] q_def nth_append)
  moreover have "length q = nc"
    using I ncc by (simp add: q_def)
  ultimately show ?thesis by blast
qed

lemma circularRead_ok:
  assumes inv: "ring_inv b" and n: "n = min cnt (ob_size b - start)" "n \<le> length target"
  shows "circularRead b target cnt start =
    Inr (take n (drop start (contents b)) @ drop n target, n)"
proof (cases "start < ob_size b")
  case True
  define c h sz where chs: "c = ob_capacity b" "h = ob_head b" "sz = ob_size b"
  note I = inv [unfolded ring_inv_def, folded chs]
  note S = ring_inv_sz [OF inv, folded chs]
  define fr where "fr = (h + start) mod c"
  have fr: "fr < c" using I by (simp add: fr_def)
  have "(if n \<le> c - fr then memcpy target 0 (ob_buffer b) fr n
      else rbind (memcpy target 0 (ob_buffer b) fr (c - fr))
        (\<lambda>t. memcpy t (c - fr) (ob_buffer b) 0 (n - (c - fr)))) =
      Inr (map (\<lambda>i. ob_buffer b ! ((fr + i) mod c)) [0..<n] @ drop n target)"
    by (rule ring_unblit) (use fr I n in \<open>auto simp: chs\<close>)
  moreover have "map (\<lambda>i. ob_buffer b ! ((fr + i) mod c)) [0..<n] = take n (drop start (contents b))"
    using n by (intro nth_equalityI)
      (auto simp: contents_nth fr_def chs [symmetric] mod_add_left_eq add.assoc)
  ultimately have copied: "(if n \<le> c - fr then memcpy target 0 (ob_buffer b) fr n
      else rbind (memcpy target 0 (ob_buffer b) fr (c - fr))
        (\<lambda>t. memcpy t (c - fr) (ob_buffer b) 0 (n - (c - fr)))) =
      Inr (map (\<lambda>i. ob_buffer b ! ((fr + i) mod c)) [0..<n] @ drop n target)"
    and lst: "map (\<lambda>i. ob_buffer b ! ((fr + i) mod c)) [0..<n] = take n (drop start (contents b))"
    by blast+
  have nc: "n \<le> c" using n(1) I unfolding chs by linarith
  have copy: "(if n \<le> c - fr then memcpy target 0 (ob_buffer b) fr n
      else rbind (memcpy target 0 (ob_buffer b) fr (c - fr))
        (\<lambda>t. memcpy t (c - fr) (ob_buffer b) 0 (sz_sub n (c - fr)))) =
      Inr (take n (drop start (contents b)) @ drop n target)"
  proof (cases "n \<le> c - fr")
    case False
    then have "sz_sub n (c - fr) = n - (c - fr)"
      using S(5) [of "c - fr" n] nc by linarith
    with copied lst False show ?thesis by (simp del: diff_diff_right)
  qed (use copied lst in simp)
  have st: "start \<le> sz" "start < sz" "start \<le> c" "sz \<le> c" using I True by (auto simp: chs)
  have "min cnt (sz_sub sz start) = n" using S(5) [of start sz] st n by (simp add: chs)
  then show ?thesis
    using copy I st S(2) [of start] S(4) [of fr] fr
    by (cases "n \<le> c - fr")
      (simp_all add: circularRead_def Let_def chs [symmetric] fr_def [symmetric])
next
  case False
  then show ?thesis using n by (simp add: circularRead_def)
qed

lemma ring_inv_update:
  assumes "ring_inv b" "sz \<le> ob_capacity b" "h < ob_capacity b" "length q = length (ob_buffer b)"
  shows "ring_inv (b\<lparr>ob_buffer := q, ob_size := sz, ob_head := h\<rparr>)"
  using assms by (simp add: ring_inv_def)

text \<open>
  Dropping \<open>k\<close> cells from the front: what \<open>_overwrite\<close> does to \<open>_size\<close> and \<open>_head\<close> when
  the new bytes need room.
\<close>

lemma contents_drop:
  assumes "ring_inv b" "k \<le> ob_size b"
  shows "contents (b\<lparr>ob_size := ob_size b - k, ob_head := (ob_head b + k) mod ob_capacity b\<rparr>) =
    drop k (contents b)"
  using assms by (intro nth_equalityI) (auto simp: contents_nth mod_add_left_eq add.assoc)

text \<open>
  The second half of \<open>_overwrite\<close>, after the capacity has been settled: the buffer ends up with
  the last \<open>min (size + cnt) capacity\<close> of the old and new cells.
\<close>

definition kept :: "'z ring_scheme \<Rightarrow> nat \<Rightarrow> nat" where
  "kept b n = min (ob_size b + n) (ob_capacity b)"

lemma overwrite_store_ok:
  assumes inv: "ring_inv b" and len: "cnt \<le> length data" and cnt: "cnt < 2 ^ 63"
  shows "\<exists>b'. overwrite_store b data cnt = Inr (b', ob_size b + cnt - kept b cnt) \<and>
    ring_inv b' \<and> ob_size b' = kept b cnt \<and> ob_capacity b' = ob_capacity b \<and>
    ob_maxCapacity b' = ob_maxCapacity b \<and> ob_writtenBytes b' = ob_writtenBytes b \<and>
    ring.more b' = ring.more b \<and>
    contents b' = drop (ob_size b + cnt - kept b cnt) (contents b @ take cnt data)"
proof (cases "ob_capacity b \<le> cnt")
  case big: True
  note I = inv [unfolded ring_inv_def]
  define k where "k = cnt - ob_capacity b"
  have "cnt < SIZE_MOD" "ob_size b + k < SIZE_MOD"
    using big cnt I unfolding k_def SIZE_MOD_half by linarith+
  then have k: "sz_sub cnt (ob_capacity b) = k" "sz_add (ob_size b) k = ob_size b + k"
    using big by (simp_all add: k_def sz_simps)
  define b0 where "b0 = b\<lparr>ob_size := 0\<rparr>"
  have b0: "ring_inv b0" using inv by (simp add: b0_def ring_inv_def)
  have "ob_capacity b \<le> length (drop k data)" using len big by (simp add: k_def)
  then obtain q where q: "circularWrite b0 (drop k data) (ob_capacity b) =
      Inr (b0\<lparr>ob_buffer := q, ob_size := ob_capacity b\<rparr>, ob_capacity b)"
    "length q = length (ob_buffer b)"
    "contents (b0\<lparr>ob_buffer := q, ob_size := ob_capacity b\<rparr>) =
      contents b0 @ take (ob_capacity b) (drop k data)"
    using circularWrite_ok [OF b0, of "ob_capacity b" "drop k data" "ob_capacity b"]
    by (auto simp: b0_def)
  have kept: "kept b cnt = ob_capacity b" using big by (simp add: kept_def)
  define b' where "b' = b0\<lparr>ob_buffer := q, ob_size := ob_capacity b\<rparr>"
  have "overwrite_store b data cnt = Inr (b', ob_size b + k)"
    using big q(1) k by (simp add: overwrite_store_def b0_def [symmetric] b'_def)
  moreover have "contents b' = take (ob_capacity b) (drop k data)"
    using q(3) by (simp add: contents_def b'_def b0_def)
  moreover have "\<dots> = drop (ob_size b + k) (contents b @ take cnt data)"
    using big len by (simp add: k_def drop_take)
  moreover have "ring_inv b'" using q(2) I by (simp add: b'_def b0_def ring_inv_def)
  ultimately show ?thesis
    using big kept by (simp add: b'_def b0_def k_def)
next
  case small: False
  note I = inv [unfolded ring_inv_def]
  note S = ring_inv_sz [OF inv]
  define k where "k = ob_size b + cnt - kept b cnt"
  have k: "k \<le> ob_size b" "kept b cnt = ob_size b - k + cnt" "ob_size b - k + cnt \<le> ob_capacity b"
    using small I by (auto simp: k_def kept_def)
  define b1 where "b1 = b\<lparr>ob_size := ob_size b - k, ob_head := (ob_head b + k) mod ob_capacity b\<rparr>"
  have b1: "ring_inv b1" using I k by (simp add: b1_def ring_inv_def)
  have c1: "contents b1 = drop k (contents b)"
    unfolding b1_def by (rule contents_drop [OF inv k(1)])
  have dropped: "(if ob_capacity b - cnt < ob_size b then
        (let overwrittenLen = sz_sub (ob_size b) (ob_capacity b - cnt) in
         rbind (sz_rem (sz_add (ob_head b) overwrittenLen) (ob_capacity b)) (\<lambda>h.
           Inr (b\<lparr>ob_size := sz_sub (ob_size b) overwrittenLen, ob_head := h\<rparr>, overwrittenLen)))
      else Inr (b, 0)) = Inr (b1, k)"
  proof (cases "ob_capacity b - cnt < ob_size b")
    case True
    then have "sz_sub (ob_size b) (ob_capacity b - cnt) = k"
      using S(5) [of "ob_capacity b - cnt" "ob_size b"] small I by (auto simp: k_def kept_def)
    moreover have "sz_add (ob_head b) k = ob_head b + k" "sz_sub (ob_size b) k = ob_size b - k"
      using S(2) [of k] S(5) [of k "ob_size b"] k I by linarith+
    ultimately show ?thesis
      using True I by (simp add: b1_def)
  next
    case False
    then have "k = 0" using small by (simp add: k_def kept_def)
    then show ?thesis using False I by (simp add: b1_def)
  qed
  have "cnt = min cnt (ob_capacity b1 - ob_size b1)"
    using k by (simp add: b1_def)
  then obtain q where q: "circularWrite b1 data cnt = Inr (b1\<lparr>ob_buffer := q, ob_size := ob_size b1 + cnt\<rparr>, cnt)"
    "length q = length (ob_buffer b1)"
    "contents (b1\<lparr>ob_buffer := q, ob_size := ob_size b1 + cnt\<rparr>) = contents b1 @ take cnt data"
    using circularWrite_ok [OF b1, of cnt data cnt] len by auto
  define b' where "b' = b1\<lparr>ob_buffer := q, ob_size := ob_size b1 + cnt\<rparr>"
  have "sz_sub (ob_capacity b) cnt = ob_capacity b - cnt" using small S(4) by simp
  then have "overwrite_store b data cnt = Inr (b', k)"
    using small dropped q(1) by (simp add: overwrite_store_def b'_def)
  moreover have "contents b' = drop k (contents b) @ take cnt data"
    using q(3) c1 by (simp add: b'_def)
  moreover have "\<dots> = drop k (contents b @ take cnt data)"
    using k by simp
  moreover have "ring_inv b'"
    using b1 q(2) k by (simp add: b'_def b1_def ring_inv_def)
  ultimately show ?thesis
    unfolding k_def [symmetric] using k(2) by (simp add: b'_def b1_def)
qed

section \<open>Refinement of the history\<close>

lemma ring_rel_new:
  assumes "0 < maxCapacity" "maxCapacity < 2 ^ 63" "0 < initialCapacity"
  shows "ring_rel (new_ring maxCapacity initialCapacity) []"
  using assms by (auto simp: ring_rel_def ring_inv_def new_ring_def contents_def)

text \<open>The history keeps its last \<open>m\<close> cells whether the old cells are trimmed first or not.\<close>

lemma window_append:
  assumes "c = drop (length h - sz) h" "sz = min (length h) m" "cap \<le> m" "sz \<le> cap"
    "sz + length d \<le> cap \<or> cap = m"
  shows "drop (sz + length d - min (sz + length d) cap) (c @ d) =
      drop (length (h @ d) - min (sz + length d) cap) (h @ d) \<and>
    min (sz + length d) cap = min (length (h @ d)) m"
  using assms by (auto simp: min_def add.commute split: if_splits)

lemma overwrite_ok:
  assumes rel: "ring_rel b h" and len: "cnt \<le> length data" and room: "length h + cnt < 2 ^ 63"
  shows "\<exists>b'. overwrite b data cnt = Inr (b', ob_size b + cnt - ob_size b') \<and>
    ring_rel b' (h @ take cnt data) \<and> ob_maxCapacity b' = ob_maxCapacity b \<and>
    ring.more b' = ring.more b"
proof -
  have inv: "ring_inv b" and R: "ob_writtenBytes b = length h"
    "ob_size b = min (length h) (ob_maxCapacity b)" "contents b = drop (length h - ob_size b) h"
    using rel by (simp_all add: ring_rel_def)
  note I = inv [unfolded ring_inv_def]
  define d where "d = take cnt data"
  have d: "length d = cnt" using len by (simp add: d_def)
  have add: "sz_add (ob_size b) cnt = ob_size b + cnt"
    using I room by (intro sz_add_eq) (simp add: SIZE_MOD_half)
  define grow where "grow = (ob_size b + cnt > ob_capacity b \<and> ob_capacity b < ob_maxCapacity b)"
  obtain b1 where b1: "(if grow then expandBuffer b (ob_size b + cnt) else Inr b) = Inr b1"
    "ring_inv b1" "ob_size b1 = ob_size b" "ob_maxCapacity b1 = ob_maxCapacity b"
    "ob_writtenBytes b1 = length h" "contents b1 = contents b" "ring.more b1 = ring.more b"
    "ob_size b + cnt \<le> ob_capacity b1 \<or> ob_capacity b1 = ob_maxCapacity b"
  proof (cases grow)
    case True
    then have more: "ob_size b + cnt > ob_capacity b" "ob_capacity b < ob_maxCapacity b"
      by (simp_all add: grow_def)
    define nc where "nc = min (max (2 * ob_capacity b) (ob_size b + cnt)) (ob_maxCapacity b)"
    obtain q where q: "expandBuffer b (ob_size b + cnt) = Inr (b\<lparr>ob_buffer := q, ob_capacity := nc, ob_head := 0\<rparr>)"
      "length q = nc" "contents (b\<lparr>ob_buffer := q, ob_capacity := nc, ob_head := 0\<rparr>) = contents b"
      using expandBuffer_ok [OF inv more nc_def] by blast
    have nc: "ob_size b \<le> nc" "0 < nc" "nc \<le> ob_maxCapacity b" "ob_size b + cnt \<le> nc \<or> nc = ob_maxCapacity b"
      using I more unfolding nc_def by linarith+
    have "ring_inv (b\<lparr>ob_buffer := q, ob_capacity := nc, ob_head := 0\<rparr>)"
      unfolding ring_inv_def using I q(2) nc(1-3) by simp
    then show ?thesis
      by (rule that [of "b\<lparr>ob_buffer := q, ob_capacity := nc, ob_head := 0\<rparr>", rotated])
        (use True q(1,3) R(1) nc(4) in simp_all)
  next
    case False
    show ?thesis
      by (rule that [of b]) (use False inv R I in \<open>auto simp: grow_def\<close>)
  qed
  have cnt: "cnt < 2 ^ 63" using room by simp
  obtain b2 where b2: "overwrite_store b1 data cnt = Inr (b2, ob_size b1 + cnt - kept b1 cnt)"
    "ring_inv b2" "ob_size b2 = kept b1 cnt" "ob_maxCapacity b2 = ob_maxCapacity b1"
    "ob_writtenBytes b2 = ob_writtenBytes b1" "ring.more b2 = ring.more b1"
    "contents b2 = drop (ob_size b1 + cnt - kept b1 cnt) (contents b1 @ d)"
    using overwrite_store_ok [OF b1(2) len cnt] by (auto simp: d_def)
  have w: "sz_add (length h) cnt = length h + cnt"
    using room by (intro sz_add_eq) (simp add: SIZE_MOD_half)
  define b' where "b' = b2\<lparr>ob_writtenBytes := length h + cnt\<rparr>"
  have "overwrite b data cnt = Inr (b', ob_size b + cnt - ob_size b')"
    using b1(1,3,5) b2(1,3,5) add w by (simp add: overwrite_def Let_def grow_def b'_def)
  moreover have "ring_rel b' (h @ d)"
  proof -
    have cap: "ob_capacity b1 \<le> ob_maxCapacity b" "ob_size b \<le> ob_capacity b1"
      using b1(2-4) by (auto simp: ring_inv_def)
    have win: "drop (ob_size b + cnt - min (ob_size b + cnt) (ob_capacity b1)) (contents b @ d) =
          drop (length (h @ d) - min (ob_size b + cnt) (ob_capacity b1)) (h @ d)"
      "min (ob_size b + cnt) (ob_capacity b1) = min (length (h @ d)) (ob_maxCapacity b)"
      using window_append [OF R(3) R(2) cap, of d] b1(8) d by auto
    have "ring_inv b'" using b2(2) by (simp add: b'_def ring_inv_def)
    moreover have "contents b' = contents b2" by (simp add: b'_def contents_def)
    ultimately show ?thesis
      using b2(3,4,7) b1(3,4,6) win d room by (simp add: ring_rel_def kept_def b'_def)
  qed
  ultimately show ?thesis
    using b1(4,7) b2(4,6) by (auto simp: d_def b'_def)
qed

end
