(* ===== verification/ReaderHeap.thy ===== *)
theory ReaderHeap
  imports Prelude
begin

text \<open>
  The interface of the priority queue of waiting readers, \<open>boost::heap::pairing_heap\<close>
  with the comparator \<open>ReaderOrdering\<close> (src/src/OutputBuffer.cpp). The library itself is
  not part of the repository: its operations are a parameter \<open>H\<close> of the model, and what the
  code relies on is the locale \<open>min_heap\<close>. The theory closes with a pairing heap that
  satisfies the contract, so that the model can be run and the contract is not empty.
\<close>

section \<open>Heap elements\<close>

text \<open>
  A \<open>ReadRequestPtr\<close> is a key and an identity: the key is the field \<open>begin\<close> of the request,
  which only its constructor writes, the identity names the shared request object.
\<close>

type_synonym req_ptr = "nat \<times> nat"

text \<open>
  \<open>ReaderOrdering\<close>: \<open>left->begin > right->begin\<close>. The heap keeps the largest element on top,
  so the top is a request with the smallest \<open>begin\<close>.
\<close>

definition ReaderOrdering :: "req_ptr \<Rightarrow> req_ptr \<Rightarrow> bool" where
  "ReaderOrdering left right \<longleftrightarrow> fst left > fst right"

section \<open>The contract\<close>

record 'h heap_ops =
  hp_new :: 'h
  hp_push :: "req_ptr \<Rightarrow> 'h \<Rightarrow> 'h"
  hp_empty :: "'h \<Rightarrow> bool"
  hp_top :: "'h \<Rightarrow> req_ptr"
  hp_pop :: "'h \<Rightarrow> 'h"
  hp_items :: "'h \<Rightarrow> req_ptr list"

text \<open>
  \<open>hp_items\<close> is what iterating over the heap yields, in no particular order. The top is an
  element that the comparator places below no other.
\<close>

locale min_heap =
  fixes H :: "'h heap_ops" and invar :: "'h \<Rightarrow> bool"
  assumes new_invar: "invar (hp_new H)"
    and new_items: "hp_items H (hp_new H) = []"
    and push_invar: "invar h \<Longrightarrow> invar (hp_push H x h)"
    and push_items: "invar h \<Longrightarrow> mset (hp_items H (hp_push H x h)) = add_mset x (mset (hp_items H h))"
    and empty_items: "invar h \<Longrightarrow> hp_empty H h = (hp_items H h = [])"
    and top_in: "invar h \<Longrightarrow> hp_items H h \<noteq> [] \<Longrightarrow> hp_top H h \<in> set (hp_items H h)"
    and top_best: "invar h \<Longrightarrow> x \<in> set (hp_items H h) \<Longrightarrow> \<not> ReaderOrdering (hp_top H h) x"
    and pop_invar: "invar h \<Longrightarrow> hp_items H h \<noteq> [] \<Longrightarrow> invar (hp_pop H h)"
    and pop_items: "invar h \<Longrightarrow> hp_items H h \<noteq> [] \<Longrightarrow>
      mset (hp_items H (hp_pop H h)) = mset (hp_items H h) - {#hp_top H h#}"
begin

lemma top_le: "invar h \<Longrightarrow> x \<in> set (hp_items H h) \<Longrightarrow> fst (hp_top H h) \<le> fst x"
  using top_best by (auto simp: ReaderOrdering_def not_less)

lemma push_set: "invar h \<Longrightarrow> set (hp_items H (hp_push H x h)) = insert x (set (hp_items H h))"
  using push_items [of h x] by (metis set_mset_add_mset_insert set_mset_mset)

lemma push_length: "invar h \<Longrightarrow> length (hp_items H (hp_push H x h)) = Suc (length (hp_items H h))"
  using push_items [of h x] by (metis size_add_mset size_mset)

lemma pop_length:
  "invar h \<Longrightarrow> hp_items H h \<noteq> [] \<Longrightarrow> Suc (length (hp_items H (hp_pop H h))) = length (hp_items H h)"
  using pop_items [of h] top_in [of h]
  by (metis Suc_pred diff_single_eq_union length_greater_0_conv set_mset_mset size_add_mset size_mset)

lemma pop_mset:
  "invar h \<Longrightarrow> hp_items H h \<noteq> [] \<Longrightarrow>
   mset (hp_items H h) = add_mset (hp_top H h) (mset (hp_items H (hp_pop H h)))"
  using pop_items [of h] top_in [of h] by simp

lemma pushes_items:
  "invar h \<Longrightarrow> invar (fold (hp_push H) xs h) \<and>
     mset (hp_items H (fold (hp_push H) xs h)) = mset xs + mset (hp_items H h)"
  by (induction xs arbitrary: h) (auto simp: push_invar push_items)

end

section \<open>A pairing heap\<close>

datatype ptree = PNode req_ptr "ptree list"

type_synonym pheap = "ptree option"

fun ph_root :: "ptree \<Rightarrow> req_ptr" where
  "ph_root (PNode x ts) = x"

fun ph_link :: "ptree \<Rightarrow> ptree \<Rightarrow> ptree" where
  "ph_link (PNode x ts) (PNode y us) =
     (if fst x \<le> fst y then PNode x (PNode y us # ts) else PNode y (PNode x ts # us))"

fun ph_pairs :: "ptree list \<Rightarrow> pheap" where
  "ph_pairs [] = None"
| "ph_pairs [t] = Some t"
| "ph_pairs (t # u # ts) =
     (case ph_pairs ts of None \<Rightarrow> Some (ph_link t u) | Some v \<Rightarrow> Some (ph_link (ph_link t u) v))"

fun ph_push :: "req_ptr \<Rightarrow> pheap \<Rightarrow> pheap" where
  "ph_push x None = Some (PNode x [])"
| "ph_push x (Some t) = Some (ph_link (PNode x []) t)"

fun ph_top :: "pheap \<Rightarrow> req_ptr" where
  "ph_top None = (0, 0)"
| "ph_top (Some t) = ph_root t"

fun ph_pop :: "pheap \<Rightarrow> pheap" where
  "ph_pop None = None"
| "ph_pop (Some (PNode x ts)) = ph_pairs ts"

fun ph_tree_items :: "ptree \<Rightarrow> req_ptr list" where
  "ph_tree_items (PNode x ts) = x # concat (map ph_tree_items ts)"

fun ph_items :: "pheap \<Rightarrow> req_ptr list" where
  "ph_items None = []"
| "ph_items (Some t) = ph_tree_items t"

fun ph_ordered :: "ptree \<Rightarrow> bool" where
  "ph_ordered (PNode x ts) =
     (list_all (\<lambda>t. ph_ordered t \<and> fst x \<le> fst (ph_root t)) ts)"

fun ph_invar :: "pheap \<Rightarrow> bool" where
  "ph_invar None = True"
| "ph_invar (Some t) = ph_ordered t"

definition pairing_heap :: "pheap heap_ops" where
  "pairing_heap = \<lparr>hp_new = None, hp_push = ph_push, hp_empty = (\<lambda>h. h = None),
     hp_top = ph_top, hp_pop = ph_pop, hp_items = ph_items\<rparr>"

lemma pairing_heap_sel [simp]:
  "hp_new pairing_heap = None" "hp_push pairing_heap = ph_push"
  "hp_empty pairing_heap = (\<lambda>h. h = None)" "hp_top pairing_heap = ph_top"
  "hp_pop pairing_heap = ph_pop" "hp_items pairing_heap = ph_items"
  by (simp_all add: pairing_heap_def)

lemma ph_link_items:
  "mset (ph_tree_items (ph_link t u)) = mset (ph_tree_items t) + mset (ph_tree_items u)"
  by (cases t; cases u) auto

lemma ph_link_ordered: "ph_ordered t \<Longrightarrow> ph_ordered u \<Longrightarrow> ph_ordered (ph_link t u)"
  by (cases t; cases u) auto

lemma ph_pairs_items:
  "mset (ph_items (ph_pairs ts)) = mset (concat (map ph_tree_items ts))"
  by (induction ts rule: ph_pairs.induct) (auto simp: ph_link_items split: option.splits)

lemma ph_pairs_ordered: "list_all ph_ordered ts \<Longrightarrow> ph_invar (ph_pairs ts)"
  by (induction ts rule: ph_pairs.induct) (auto simp: ph_link_ordered split: option.splits)

lemma ph_ordered_root:
  "ph_ordered t \<Longrightarrow> x \<in> set (ph_tree_items t) \<Longrightarrow> fst (ph_root t) \<le> fst x"
proof (induction t arbitrary: x)
  case (PNode y ts)
  show ?case
  proof (cases "x = y")
    case False
    with PNode.prems(2) obtain t where t: "t \<in> set ts" "x \<in> set (ph_tree_items t)"
      by auto
    with PNode.prems(1) have "ph_ordered t" "fst y \<le> fst (ph_root t)"
      by (auto simp: list_all_iff)
    with PNode.IH [OF t(1) _ t(2)] show ?thesis
      by simp
  qed simp
qed

interpretation ph: min_heap pairing_heap ph_invar
proof
  show "ph_invar (hp_new pairing_heap)" "hp_items pairing_heap (hp_new pairing_heap) = []"
    by simp_all
next
  fix h x assume "ph_invar h"
  then show "ph_invar (hp_push pairing_heap x h)"
    by (cases h) (auto intro: ph_link_ordered)
next
  fix h x
  show "mset (hp_items pairing_heap (hp_push pairing_heap x h)) =
      add_mset x (mset (hp_items pairing_heap h))"
    by (cases h) (auto simp: ph_link_items)
next
  fix h :: pheap
  show "hp_empty pairing_heap h = (hp_items pairing_heap h = [])"
    by (cases h rule: ph_pop.cases) auto
next
  fix h assume "hp_items pairing_heap h \<noteq> []"
  then show "hp_top pairing_heap h \<in> set (hp_items pairing_heap h)"
    by (cases h rule: ph_pop.cases) auto
next
  fix h x assume "ph_invar h" "x \<in> set (hp_items pairing_heap h)"
  then show "\<not> ReaderOrdering (hp_top pairing_heap h) x"
    using ph_ordered_root by (cases h) (auto simp: ReaderOrdering_def not_less)
next
  fix h assume "ph_invar h" "hp_items pairing_heap h \<noteq> []"
  then show "ph_invar (hp_pop pairing_heap h)"
    by (cases h rule: ph_pop.cases) (auto intro!: ph_pairs_ordered simp: list_all_iff)
next
  fix h assume "hp_items pairing_heap h \<noteq> []"
  then show "mset (hp_items pairing_heap (hp_pop pairing_heap h)) =
      mset (hp_items pairing_heap h) - {#hp_top pairing_heap h#}"
    by (cases h rule: ph_pop.cases) (auto simp: ph_pairs_items)
qed

end
