(* ===== verification/ReaderList.thy ===== *)
theory ReaderList
  imports ReaderHeap
begin

text \<open>
  The waiting list of \<open>OutputBuffer\<close> (src/src/OutputBuffer.cpp): \<open>ReadResult\<close>,
  \<open>ReadRequest\<close> and the class \<open>ReaderList\<close> with \<open>add\<close>, \<open>cancel\<close>, \<open>close\<close> and \<open>process\<close>,
  over the heap operations \<open>H\<close>. The two loops are \<open>partial_function (option)\<close>: \<open>None\<close> would
  be a loop that never ends, and the lemmas show that they end on every heap that keeps the
  contract \<open>min_heap\<close>.
\<close>

section \<open>Results and requests\<close>

record read_result =
  rr_isClosed :: bool
  rr_isTimeout :: bool
  rr_begin :: nat
  rr_count :: nat

definition ReadResult :: "nat \<Rightarrow> nat \<Rightarrow> read_result" where
  "ReadResult begin cnt = \<lparr>rr_isClosed = False, rr_isTimeout = False, rr_begin = begin, rr_count = cnt\<rparr>"

definition Closed :: read_result where
  "Closed = (ReadResult 0 0)\<lparr>rr_isClosed := True\<rparr>"

definition Timeout :: read_result where
  "Timeout = (ReadResult 0 0)\<lparr>rr_isTimeout := True\<rparr>"

lemma read_result_sel [simp]:
  "rr_isClosed (ReadResult k n) = False" "rr_isTimeout (ReadResult k n) = False"
  "rr_begin (ReadResult k n) = k" "rr_count (ReadResult k n) = n"
  "rr_isClosed Closed = True" "rr_isTimeout Closed = False"
  "rr_isClosed Timeout = False" "rr_isTimeout Timeout = True"
  by (simp_all add: ReadResult_def Closed_def Timeout_def)

lemma read_result_distinct [simp]:
  "ReadResult k n \<noteq> Closed" "ReadResult k n \<noteq> Timeout" "Closed \<noteq> Timeout"
  "Closed \<noteq> ReadResult k n" "Timeout \<noteq> ReadResult k n" "Timeout \<noteq> Closed"
  by (metis read_result_sel)+

text \<open>
  \<open>rq_signalled\<close> is the state of the request's condition variable: whether \<open>cond.signal()\<close> has
  been called since its reader started to wait.
\<close>

record read_request =
  rq_result :: read_result
  rq_target :: "cell list"
  rq_count :: nat
  rq_begin :: nat
  rq_cancelled :: bool
  rq_signalled :: bool

definition ReadRequest :: "nat \<Rightarrow> cell list \<Rightarrow> nat \<Rightarrow> read_request" where
  "ReadRequest begin target cnt =
     \<lparr>rq_result = ReadResult 0 0, rq_target = target, rq_count = cnt, rq_begin = begin,
      rq_cancelled = False, rq_signalled = False\<rparr>"

definition request_cancel :: "read_request \<Rightarrow> read_request" where
  "request_cancel r = r\<lparr>rq_cancelled := True\<rparr>"

section \<open>The list\<close>

text \<open>
  \<open>rl_store\<close> holds the request objects that the \<open>ReadRequestPtr\<close>s share, by identity; \<open>rl_log\<close>
  the old and new sizes of each re-allocation, which the code reports to its logger.
\<close>

record 'h reader_list =
  rl_heap :: 'h
  rl_heapSize :: nat
  rl_activeCount :: nat
  rl_store :: "nat \<Rightarrow> read_request option"
  rl_log :: "(nat \<times> nat) list"

definition rl_new :: "'h heap_ops \<Rightarrow> 'h reader_list" where
  "rl_new H = \<lparr>rl_heap = hp_new H, rl_heapSize = 0, rl_activeCount = 0, rl_store = (\<lambda>_. None), rl_log = []\<rparr>"

definition rl_update :: "nat \<Rightarrow> (read_request \<Rightarrow> read_request) \<Rightarrow> 'h reader_list \<Rightarrow> 'h reader_list" where
  "rl_update i g rl = rl\<lparr>rl_store := (rl_store rl)(i := map_option g (rl_store rl i))\<rparr>"

definition rl_cancelled :: "'h reader_list \<Rightarrow> req_ptr \<Rightarrow> bool" where
  "rl_cancelled rl p = (case rl_store rl (snd p) of None \<Rightarrow> False | Some r \<Rightarrow> rq_cancelled r)"

definition rl_add :: "'h heap_ops \<Rightarrow> req_ptr \<Rightarrow> 'h reader_list \<Rightarrow> 'h reader_list" where
  "rl_add H p rl = rl\<lparr>rl_heap := hp_push H p (rl_heap rl), rl_heapSize := sz_add (rl_heapSize rl) 1,
     rl_activeCount := sz_add (rl_activeCount rl) 1\<rparr>"

definition rl_cancel :: "'h heap_ops \<Rightarrow> req_ptr \<Rightarrow> 'h reader_list \<Rightarrow> 'h reader_list" where
  "rl_cancel H p rl0 =
     (let rl = rl_update (snd p) request_cancel (rl0\<lparr>rl_activeCount := sz_sub (rl_activeCount rl0) 1\<rparr>) in
      if sz_mul (rl_activeCount rl) 8 < rl_heapSize rl \<and> rl_heapSize rl > 1000 then
        (let newHeap = fold (hp_push H) (filter (\<lambda>itm. \<not> rl_cancelled rl itm) (hp_items H (rl_heap rl)))
                         (hp_new H);
             oldHeapSize = rl_heapSize rl
         in rl\<lparr>rl_heap := newHeap, rl_heapSize := rl_activeCount rl,
               rl_log := rl_log rl @ [(oldHeapSize, rl_activeCount rl)]\<rparr>)
      else rl)"

definition rl_close_one :: "'h heap_ops \<Rightarrow> 'h reader_list \<Rightarrow> 'h reader_list" where
  "rl_close_one H rl =
     (let itm = hp_top H (rl_heap rl);
          rl1 = rl_update (snd itm) (\<lambda>r. r\<lparr>rq_result := Closed, rq_signalled := True\<rparr>) rl
      in rl1\<lparr>rl_heap := hp_pop H (rl_heap rl1)\<rparr>)"

partial_function (option) rl_close_loop :: "'h heap_ops \<Rightarrow> 'h reader_list \<Rightarrow> 'h reader_list option" where
  "rl_close_loop H rl =
     (if hp_empty H (rl_heap rl) then Some rl else rl_close_loop H (rl_close_one H rl))"

definition rl_close :: "'h heap_ops \<Rightarrow> 'h reader_list \<Rightarrow> 'h reader_list option" where
  "rl_close H rl =
     map_option (\<lambda>rl'. rl'\<lparr>rl_heapSize := 0, rl_activeCount := 0\<rparr>) (rl_close_loop H rl)"

definition rl_process_one ::
  "'h heap_ops \<Rightarrow> (read_request \<Rightarrow> read_request res) \<Rightarrow> 'h reader_list \<Rightarrow> 'h reader_list res" where
  "rl_process_one H f rl =
     (let reader = hp_top H (rl_heap rl) in
      case rl_store rl (snd reader) of
        None \<Rightarrow> Inl NullPointer
      | Some r \<Rightarrow>
          rbind
            (if \<not> rq_cancelled r then
               rbind (f r) (\<lambda>r'.
                 Inr (rl\<lparr>rl_store := (rl_store rl)(snd reader \<mapsto> r'\<lparr>rq_signalled := True\<rparr>),
                         rl_activeCount := sz_sub (rl_activeCount rl) 1\<rparr>))
             else Inr rl)
            (\<lambda>rl1. Inr (rl1\<lparr>rl_heap := hp_pop H (rl_heap rl1),
                             rl_heapSize := sz_sub (rl_heapSize rl1) 1\<rparr>)))"

partial_function (option) rl_process ::
  "'h heap_ops \<Rightarrow> nat \<Rightarrow> (read_request \<Rightarrow> read_request res) \<Rightarrow> 'h reader_list \<Rightarrow> 'h reader_list res option" where
  "rl_process H writtenBytes f rl =
     (if \<not> hp_empty H (rl_heap rl) \<and> fst (hp_top H (rl_heap rl)) < writtenBytes then
        (case rl_process_one H f rl of
           Inl e \<Rightarrow> Some (Inl e)
         | Inr rl' \<Rightarrow> rl_process H writtenBytes f rl')
      else Some (Inr rl))"

section \<open>Well-formed lists\<close>

definition rl_items :: "'h heap_ops \<Rightarrow> 'h reader_list \<Rightarrow> req_ptr list" where
  "rl_items H rl = hp_items H (rl_heap rl)"

text \<open>Every pointer in the heap leads to a request whose \<open>begin\<close> is the key, no two to the same.\<close>

definition rl_linked :: "'h heap_ops \<Rightarrow> 'h reader_list \<Rightarrow> bool" where
  "rl_linked H rl \<longleftrightarrow> distinct (map snd (rl_items H rl)) \<and>
     (\<forall>p \<in> set (rl_items H rl). \<exists>r. rl_store rl (snd p) = Some r \<and> rq_begin r = fst p)"

text \<open>The pointers of live (not cancelled) requests.\<close>

definition rl_live :: "'h heap_ops \<Rightarrow> 'h reader_list \<Rightarrow> req_ptr list" where
  "rl_live H rl = filter (\<lambda>p. \<not> rl_cancelled rl p) (rl_items H rl)"

text \<open>
  What a list looks like once every live request that begins below \<open>w\<close> has been given its
  answer by \<open>g\<close> and signalled.
\<close>

definition rl_served ::
  "'h heap_ops \<Rightarrow> nat \<Rightarrow> (read_request \<Rightarrow> read_request) \<Rightarrow> 'h reader_list \<Rightarrow> nat \<Rightarrow> read_request option" where
  "rl_served H w g rl i =
     map_option (\<lambda>r. if (rq_begin r, i) \<in> set (rl_items H rl) \<and> rq_begin r < w \<and> \<not> rq_cancelled r
       then (g r)\<lparr>rq_signalled := True\<rparr> else r) (rl_store rl i)"

lemma mset_distinct_snd: "mset xs = mset ys \<Longrightarrow> distinct (map snd xs) = distinct (map snd ys)"
  by (metis mset_eq_imp_distinct_iff mset_map)

lemma sz_sub_add:
  "sz_sub (sz_sub a m) n = sz_sub a (m + n)"
proof -
  have "(int a - int m) mod int SIZE_MOD - int n = (int a - int m) mod int SIZE_MOD - int n" ..
  then have "((int a - int m) mod int SIZE_MOD - int n) mod int SIZE_MOD = (int a - int (m + n)) mod int SIZE_MOD"
    by (simp add: mod_diff_left_eq diff_diff_eq)
  then show ?thesis by (simp add: sz_sub_def)
qed

lemma sz_sub_0: "a < SIZE_MOD \<Longrightarrow> sz_sub a 0 = a"
  by (simp add: sz_sub_eq)

context min_heap
begin

lemma items_pop:
  assumes "invar (rl_heap rl)" "rl_items H rl \<noteq> []"
  shows "mset (rl_items H rl) =
      add_mset (hp_top H (rl_heap rl)) (mset (hp_items H (hp_pop H (rl_heap rl))))"
    and "set (rl_items H rl) =
      insert (hp_top H (rl_heap rl)) (set (hp_items H (hp_pop H (rl_heap rl))))"
proof -
  show m: "mset (rl_items H rl) =
      add_mset (hp_top H (rl_heap rl)) (mset (hp_items H (hp_pop H (rl_heap rl))))"
    using assms pop_mset by (simp add: rl_items_def)
  show "set (rl_items H rl) =
      insert (hp_top H (rl_heap rl)) (set (hp_items H (hp_pop H (rl_heap rl))))"
    using arg_cong [OF m, of set_mset] by simp
qed

lemma linked_pop:
  assumes inv: "invar (rl_heap rl)" and ne: "rl_items H rl \<noteq> []" and linked: "rl_linked H rl"
  shows "distinct (map snd (hp_items H (hp_pop H (rl_heap rl))))"
    and "snd (hp_top H (rl_heap rl)) \<notin> snd ` set (hp_items H (hp_pop H (rl_heap rl)))"
    and "\<exists>r. rl_store rl (snd (hp_top H (rl_heap rl))) = Some r \<and> rq_begin r = fst (hp_top H (rl_heap rl))"
proof -
  let ?top = "hp_top H (rl_heap rl)" and ?rest = "hp_items H (hp_pop H (rl_heap rl))"
  have "mset (rl_items H rl) = mset (?top # ?rest)"
    using items_pop(1) [OF inv ne] by simp
  then have "distinct (map snd (?top # ?rest))"
    using linked mset_distinct_snd unfolding rl_linked_def by metis
  then show "distinct (map snd ?rest)" "snd ?top \<notin> snd ` set ?rest"
    by simp_all
  show "\<exists>r. rl_store rl (snd ?top) = Some r \<and> rq_begin r = fst ?top"
    using linked items_pop(2) [OF inv ne] by (simp add: rl_linked_def)
qed

lemma process_done:
  assumes inv: "invar (rl_heap rl)" and small: "rl_activeCount rl < SIZE_MOD" "rl_heapSize rl < SIZE_MOD"
    and nodue: "\<forall>p \<in> set (rl_items H rl). \<not> fst p < w"
  shows "rl_process H w f rl = Some (Inr rl) \<and>
    filter_mset (\<lambda>p. \<not> fst p < w) (mset (rl_items H rl)) = mset (rl_items H rl) \<and>
    rl_store rl = rl_served H w g rl \<and>
    rl_activeCount rl = sz_sub (rl_activeCount rl) (length (filter (\<lambda>p. fst p < w) (rl_live H rl))) \<and>
    rl_heapSize rl = sz_sub (rl_heapSize rl) (length (filter (\<lambda>p. fst p < w) (rl_items H rl)))"
proof -
  have "rl_process H w f rl = Some (Inr rl)"
    using inv nodue top_in empty_items by (subst rl_process.simps) (auto simp: rl_items_def)
  moreover have "filter (\<lambda>p. fst p < w) (rl_items H rl) = []" "filter (\<lambda>p. fst p < w) (rl_live H rl) = []"
    using nodue by (auto simp: filter_empty_conv rl_live_def)
  moreover have "rl_store rl = rl_served H w g rl"
  proof
    fix i
    have "\<not> ((rq_begin r, i) \<in> set (rl_items H rl) \<and> rq_begin r < w)" for r
      using nodue by fastforce
    then show "rl_store rl i = rl_served H w g rl i"
      by (cases "rl_store rl i") (auto simp: rl_served_def)
  qed
  moreover have "filter_mset (\<lambda>p. \<not> fst p < w) (mset (rl_items H rl)) = mset (rl_items H rl)"
    using nodue by (simp add: filter_mset_eq_conv)
  ultimately show ?thesis
    using small by (simp add: sz_sub_0)
qed

lemma process_step:
  assumes inv: "invar (rl_heap rl)" and linked: "rl_linked H rl" and ne: "rl_items H rl \<noteq> []"
    and r: "rl_store rl (snd (hp_top H (rl_heap rl))) = Some r"
    and f: "\<not> rq_cancelled r \<Longrightarrow> f r = Inr (g r)"
    and g: "rq_begin (g r) = rq_begin r" "rq_cancelled (g r) = rq_cancelled r"
  shows "\<exists>rl1. rl_process_one H f rl = Inr rl1 \<and> invar (rl_heap rl1) \<and>
    rl_heap rl1 = hp_pop H (rl_heap rl) \<and> rl_linked H rl1 \<and>
    rl_store rl1 = (rl_store rl)(snd (hp_top H (rl_heap rl)) \<mapsto>
      (if rq_cancelled r then r else (g r)\<lparr>rq_signalled := True\<rparr>)) \<and>
    rl_activeCount rl1 = (if rq_cancelled r then rl_activeCount rl else sz_sub (rl_activeCount rl) 1) \<and>
    rl_heapSize rl1 = sz_sub (rl_heapSize rl) 1 \<and> rl_log rl1 = rl_log rl"
proof -
  note P = linked_pop [OF inv ne linked] and I = items_pop [OF inv ne]
  define rl1 where "rl1 = rl
    \<lparr>rl_heap := hp_pop H (rl_heap rl), rl_heapSize := sz_sub (rl_heapSize rl) 1,
     rl_store := (rl_store rl)(snd (hp_top H (rl_heap rl)) \<mapsto>
      (if rq_cancelled r then r else (g r)\<lparr>rq_signalled := True\<rparr>)),
     rl_activeCount := (if rq_cancelled r then rl_activeCount rl else sz_sub (rl_activeCount rl) 1)\<rparr>"
  have "rl_process_one H f rl = Inr rl1"
    using r f by (cases rl) (auto simp: rl_process_one_def rl1_def Let_def)
  moreover have "rl_linked H rl1"
    unfolding rl_linked_def
  proof
    show "distinct (map snd (rl_items H rl1))"
      using P(1) by (simp add: rl1_def rl_items_def)
    show "\<forall>p\<in>set (rl_items H rl1). \<exists>r. rl_store rl1 (snd p) = Some r \<and> rq_begin r = fst p"
      using P(2) I(2) linked by (auto simp: rl1_def rl_items_def rl_linked_def)
  qed
  moreover have "invar (rl_heap rl1)"
    using pop_invar inv ne by (simp add: rl1_def rl_items_def)
  ultimately show ?thesis by (auto simp: rl1_def)
qed

text \<open>
  \<open>process\<close> ends, and serves exactly the live requests that begin below \<open>w\<close>: those leave the
  heap signalled, the cancelled ones below \<open>w\<close> leave it untouched, and the others stay.
\<close>

lemma process_ok:
  assumes "invar (rl_heap rl)" "rl_linked H rl"
    and "rl_activeCount rl < SIZE_MOD" "rl_heapSize rl < SIZE_MOD"
    and "\<forall>p \<in> set (rl_items H rl). \<forall>r. fst p < w \<longrightarrow> rl_store rl (snd p) = Some r \<longrightarrow>
      \<not> rq_cancelled r \<longrightarrow> f r = Inr (g r)"
    and g: "\<And>r. rq_begin (g r) = rq_begin r" "\<And>r. rq_cancelled (g r) = rq_cancelled r"
  shows "\<exists>rl'. rl_process H w f rl = Some (Inr rl') \<and> invar (rl_heap rl') \<and>
    mset (rl_items H rl') = filter_mset (\<lambda>p. \<not> fst p < w) (mset (rl_items H rl)) \<and>
    rl_store rl' = rl_served H w g rl \<and>
    rl_activeCount rl' = sz_sub (rl_activeCount rl) (length (filter (\<lambda>p. fst p < w) (rl_live H rl))) \<and>
    rl_heapSize rl' = sz_sub (rl_heapSize rl) (length (filter (\<lambda>p. fst p < w) (rl_items H rl))) \<and>
    rl_log rl' = rl_log rl"
  using assms(1-5)
proof (induction "length (rl_items H rl)" arbitrary: rl)
  case 0
  then show ?case using process_done [OF "0.prems"(1,3,4), of w f g] by auto
next
  case (Suc n rl)
  note inv = Suc.prems(1) and linked = Suc.prems(2)
  let ?top = "hp_top H (rl_heap rl)"
  have ne: "rl_items H rl \<noteq> []" using Suc.hyps(2) by auto
  show ?case
  proof (cases "fst ?top < w")
    case False
    then have "\<forall>p \<in> set (rl_items H rl). \<not> fst p < w"
      using top_le [OF inv] by (fastforce simp: rl_items_def)
    then show ?thesis
      using process_done [OF inv Suc.prems(3,4), of w f g] inv by metis
  next
    case True
    note P = linked_pop [OF inv ne linked] and I = items_pop [OF inv ne]
    obtain r where r: "rl_store rl (snd ?top) = Some r" "rq_begin r = fst ?top"
      using P(3) by blast
    have top: "?top \<in> set (rl_items H rl)" using I(2) by simp
    have f: "\<not> rq_cancelled r \<Longrightarrow> f r = Inr (g r)"
      using Suc.prems(5) top True r(1) by blast
    obtain rl1 where rl1: "rl_process_one H f rl = Inr rl1" "invar (rl_heap rl1)"
      "rl_heap rl1 = hp_pop H (rl_heap rl)" "rl_linked H rl1"
      "rl_store rl1 = (rl_store rl)(snd ?top \<mapsto> (if rq_cancelled r then r else (g r)\<lparr>rq_signalled := True\<rparr>))"
      "rl_activeCount rl1 = (if rq_cancelled r then rl_activeCount rl else sz_sub (rl_activeCount rl) 1)"
      "rl_heapSize rl1 = sz_sub (rl_heapSize rl) 1" "rl_log rl1 = rl_log rl"
      using process_step [where f = f and g = g and r = r, OF inv linked ne r(1) f g(1) g(2)] by blast
    have items1: "rl_items H rl1 = hp_items H (hp_pop H (rl_heap rl))"
      by (simp add: rl_items_def rl1(3))
    have notin: "snd p \<noteq> snd ?top" if "p \<in> set (rl_items H rl1)" for p
      using that P(2) items1 by (metis image_eqI)
    have len: "n = length (rl_items H rl1)"
      using Suc.hyps(2) arg_cong [OF I(1), of size] by (simp add: items1)
    have pre: "\<forall>p \<in> set (rl_items H rl1). \<forall>r. fst p < w \<longrightarrow> rl_store rl1 (snd p) = Some r \<longrightarrow>
        \<not> rq_cancelled r \<longrightarrow> f r = Inr (g r)"
    proof (intro ballI allI impI)
      fix p r' assume p: "p \<in> set (rl_items H rl1)" "fst p < w" "rl_store rl1 (snd p) = Some r'"
        "\<not> rq_cancelled r'"
      then have "rl_store rl (snd p) = Some r'" using notin [OF p(1)] rl1(5) by simp
      moreover have "p \<in> set (rl_items H rl)" using p(1) I(2) items1 by simp
      ultimately show "f r' = Inr (g r')" using Suc.prems(5) p by blast
    qed
    have small: "rl_activeCount rl1 < SIZE_MOD" "rl_heapSize rl1 < SIZE_MOD"
      using rl1(6,7) Suc.prems(3,4) by auto
    obtain rl' where rl': "rl_process H w f rl1 = Some (Inr rl')" "invar (rl_heap rl')"
      "mset (rl_items H rl') = filter_mset (\<lambda>p. \<not> fst p < w) (mset (rl_items H rl1))"
      "rl_store rl' = rl_served H w g rl1"
      "rl_activeCount rl' = sz_sub (rl_activeCount rl1) (length (filter (\<lambda>p. fst p < w) (rl_live H rl1)))"
      "rl_heapSize rl' = sz_sub (rl_heapSize rl1) (length (filter (\<lambda>p. fst p < w) (rl_items H rl1)))"
      "rl_log rl' = rl_log rl1"
      using Suc.hyps(1) [OF len rl1(2,4) small pre] by blast
    have "rl_process H w f rl = Some (Inr rl')"
      using True ne inv empty_items rl1(1) rl'(1)
      by (subst rl_process.simps) (simp add: rl_items_def)
    moreover have "mset (rl_items H rl') = filter_mset (\<lambda>p. \<not> fst p < w) (mset (rl_items H rl))"
      using rl'(3) I(1) True by (simp add: items1)
    moreover have "rl_served H w g rl1 = rl_served H w g rl"
    proof
      fix i
      show "rl_served H w g rl1 i = rl_served H w g rl i"
      proof (cases "i = snd ?top")
        case True': True
        have "\<And>k. (k, i) \<notin> set (rl_items H rl1)" using notin True' by fastforce
        moreover have "(rq_begin r, i) \<in> set (rl_items H rl)" using top True' r(2) by simp
        ultimately show ?thesis
          using True' r True rl1(5) by (simp add: rl_served_def)
      next
        case False
        then have "(k, i) \<in> set (rl_items H rl1) \<longleftrightarrow> (k, i) \<in> set (rl_items H rl)" for k
          using I(2) items1 by (metis insert_iff snd_conv)
        with False rl1(5) show ?thesis by (simp add: rl_served_def)
      qed
    qed
    moreover have cancelled1: "rl_cancelled rl1 p = rl_cancelled rl p" if "p \<in> set (rl_items H rl1)" for p
      using notin [OF that] rl1(5) by (simp add: rl_cancelled_def)
    have "mset (rl_live H rl) = (if rq_cancelled r then {#} else {#?top#}) + mset (rl_live H rl1)"
    proof -
      have "mset (rl_live H rl) = filter_mset (\<lambda>p. \<not> rl_cancelled rl p) (add_mset ?top (mset (rl_items H rl1)))"
        using I(1) by (simp add: rl_live_def items1)
      moreover have "filter_mset (\<lambda>p. \<not> rl_cancelled rl p) (mset (rl_items H rl1)) = mset (rl_live H rl1)"
        by (simp add: rl_live_def cancelled1 cong: filter_cong)
      ultimately show ?thesis
        using r(1) by (simp add: rl_cancelled_def)
    qed
    then have "size (filter_mset (\<lambda>p. fst p < w) (mset (rl_live H rl))) =
        (if rq_cancelled r then 0 else 1) + size (filter_mset (\<lambda>p. fst p < w) (mset (rl_live H rl1)))"
      using True by simp
    then have "length (filter (\<lambda>p. fst p < w) (rl_live H rl)) =
        (if rq_cancelled r then 0 else 1) + length (filter (\<lambda>p. fst p < w) (rl_live H rl1))"
      by (metis mset_filter size_mset)
    then have "rl_activeCount rl' = sz_sub (rl_activeCount rl) (length (filter (\<lambda>p. fst p < w) (rl_live H rl)))"
      using rl'(5) rl1(6) by (simp add: sz_sub_add)
    moreover have "size (filter_mset (\<lambda>p. fst p < w) (mset (rl_items H rl))) =
        Suc (size (filter_mset (\<lambda>p. fst p < w) (mset (rl_items H rl1))))"
      using I(1) True by (simp add: items1)
    then have "length (filter (\<lambda>p. fst p < w) (rl_items H rl)) =
        Suc (length (filter (\<lambda>p. fst p < w) (rl_items H rl1)))"
      by (metis mset_filter size_mset)
    then have "rl_heapSize rl' = sz_sub (rl_heapSize rl) (length (filter (\<lambda>p. fst p < w) (rl_items H rl)))"
      using rl'(6) rl1(7) by (simp add: sz_sub_add)
    ultimately show ?thesis
      using rl' rl1(8) by metis
  qed
qed

text \<open>\<open>close\<close> ends with an empty heap, every request that was in it closed and signalled.\<close>

lemma close_loop_ok:
  assumes "invar (rl_heap rl)" "rl_linked H rl"
  shows "\<exists>rl'. rl_close_loop H rl = Some rl' \<and> invar (rl_heap rl') \<and> rl_items H rl' = [] \<and>
    rl_store rl' = (\<lambda>i. if i \<in> snd ` set (rl_items H rl)
      then map_option (\<lambda>r. r\<lparr>rq_result := Closed, rq_signalled := True\<rparr>) (rl_store rl i)
      else rl_store rl i) \<and> rl_log rl' = rl_log rl"
  using assms
proof (induction "length (rl_items H rl)" arbitrary: rl)
  case 0
  then have "hp_empty H (rl_heap rl)" "rl_items H rl = []"
    using empty_items by (simp_all add: rl_items_def)
  then show ?case
    using 0 by (subst rl_close_loop.simps) simp
next
  case (Suc n rl)
  note inv = Suc.prems(1) and linked = Suc.prems(2)
  let ?top = "hp_top H (rl_heap rl)"
  have ne: "rl_items H rl \<noteq> []" using Suc.hyps(2) by auto
  note P = linked_pop [OF inv ne linked] and I = items_pop [OF inv ne]
  define rl1 where "rl1 = rl_close_one H rl"
  have heap1: "rl_heap rl1 = hp_pop H (rl_heap rl)"
    and store1: "rl_store rl1 = (rl_store rl)(snd ?top :=
      map_option (\<lambda>r. r\<lparr>rq_result := Closed, rq_signalled := True\<rparr>) (rl_store rl (snd ?top)))"
    and log1: "rl_log rl1 = rl_log rl"
    by (simp_all add: rl1_def rl_close_one_def rl_update_def Let_def)
  have items1: "rl_items H rl1 = hp_items H (hp_pop H (rl_heap rl))"
    by (simp add: rl_items_def heap1)
  have len: "n = length (rl_items H rl1)"
    using Suc.hyps(2) arg_cong [OF I(1), of size] by (simp add: items1)
  have inv1: "invar (rl_heap rl1)"
    using pop_invar inv ne by (simp add: heap1 rl_items_def)
  have linked1: "rl_linked H rl1"
    unfolding rl_linked_def
  proof
    show "distinct (map snd (rl_items H rl1))" using P(1) by (simp add: items1)
    show "\<forall>p\<in>set (rl_items H rl1). \<exists>r. rl_store rl1 (snd p) = Some r \<and> rq_begin r = fst p"
      using P(2) I(2) linked items1 store1 by (auto simp: rl_linked_def)
  qed
  obtain rl' where rl': "rl_close_loop H rl1 = Some rl'" "invar (rl_heap rl')" "rl_items H rl' = []"
    "rl_store rl' = (\<lambda>i. if i \<in> snd ` set (rl_items H rl1)
      then map_option (\<lambda>r. r\<lparr>rq_result := Closed, rq_signalled := True\<rparr>) (rl_store rl1 i)
      else rl_store rl1 i)" "rl_log rl' = rl_log rl1"
    using Suc.hyps(1) [OF len inv1 linked1] by blast
  have "rl_close_loop H rl = Some rl'"
    using ne inv empty_items rl'(1) by (subst rl_close_loop.simps) (simp add: rl_items_def rl1_def)
  moreover have "rl_store rl' = (\<lambda>i. if i \<in> snd ` set (rl_items H rl)
      then map_option (\<lambda>r. r\<lparr>rq_result := Closed, rq_signalled := True\<rparr>) (rl_store rl i)
      else rl_store rl i)"
    using rl'(4) store1 P(2) I(2) items1 by (auto simp: fun_eq_iff)
  ultimately show ?case using rl' log1 by auto
qed

lemma close_ok:
  assumes "invar (rl_heap rl)" "rl_linked H rl"
  shows "\<exists>rl'. rl_close H rl = Some rl' \<and> invar (rl_heap rl') \<and> rl_items H rl' = [] \<and>
    rl_heapSize rl' = 0 \<and> rl_activeCount rl' = 0 \<and>
    rl_store rl' = (\<lambda>i. if i \<in> snd ` set (rl_items H rl)
      then map_option (\<lambda>r. r\<lparr>rq_result := Closed, rq_signalled := True\<rparr>) (rl_store rl i)
      else rl_store rl i) \<and> rl_log rl' = rl_log rl"
  using close_loop_ok [OF assms] by (auto simp: rl_close_def rl_items_def)

text \<open>\<open>add\<close> after the allocation of the request.\<close>

lemma add_ok:
  assumes inv: "invar (rl_heap rl)" and linked: "rl_linked H rl" and fresh: "rl_store rl i = None"
    and rl': "rl' = rl_add H (rq_begin r, i) (rl\<lparr>rl_store := (rl_store rl)(i \<mapsto> r)\<rparr>)"
    and live: "\<not> rq_cancelled r"
  shows "invar (rl_heap rl')" "rl_linked H rl'"
    "mset (rl_items H rl') = add_mset (rq_begin r, i) (mset (rl_items H rl))"
    "mset (rl_live H rl') = add_mset (rq_begin r, i) (mset (rl_live H rl))"
proof -
  show inv': "invar (rl_heap rl')" using push_invar inv by (simp add: rl' rl_add_def)
  show items: "mset (rl_items H rl') = add_mset (rq_begin r, i) (mset (rl_items H rl))"
    using push_items inv by (simp add: rl' rl_add_def rl_items_def)
  then have set': "set (rl_items H rl') = insert (rq_begin r, i) (set (rl_items H rl))"
    by (metis set_mset_add_mset_insert set_mset_mset)
  have notin: "i \<notin> snd ` set (rl_items H rl)"
    using linked fresh by (force simp: rl_linked_def)
  have store': "rl_store rl' = (rl_store rl)(i \<mapsto> r)" by (simp add: rl' rl_add_def)
  have "mset (rl_items H rl') = mset ((rq_begin r, i) # rl_items H rl)" using items by simp
  from mset_distinct_snd [OF this] have "distinct (map snd (rl_items H rl'))"
    using notin linked by (simp add: rl_linked_def)
  moreover have "\<exists>r. rl_store rl' (snd p) = Some r \<and> rq_begin r = fst p" if "p \<in> set (rl_items H rl')" for p
  proof (cases "p = (rq_begin r, i)")
    case True
    then show ?thesis using store' by simp
  next
    case False
    with that set' have p: "p \<in> set (rl_items H rl)" by simp
    with notin have "snd p \<noteq> i" by (metis image_eqI)
    with p linked store' show ?thesis by (auto simp: rl_linked_def)
  qed
  ultimately show "rl_linked H rl'" by (simp add: rl_linked_def)
  have "rl_cancelled rl' p = rl_cancelled rl p" if "p \<in> set (rl_items H rl)" for p
    using that notin store' by (auto simp: rl_cancelled_def)
  then have "filter_mset (\<lambda>p. \<not> rl_cancelled rl' p) (mset (rl_items H rl)) = mset (rl_live H rl)"
    unfolding rl_live_def mset_filter by (intro filter_mset_cong) simp_all
  moreover have "\<not> rl_cancelled rl' (rq_begin r, i)" using store' live by (simp add: rl_cancelled_def)
  ultimately show "mset (rl_live H rl') = add_mset (rq_begin r, i) (mset (rl_live H rl))"
    using items by (simp add: rl_live_def)
qed

text \<open>
  \<open>cancel\<close> marks the request; when it rebuilds the heap it keeps exactly the live requests.
\<close>

lemma cancel_ok:
  assumes inv: "invar (rl_heap rl)" and linked: "rl_linked H rl" and r: "rl_store rl (snd p) = Some r"
    and rl': "rl' = rl_cancel H p rl"
  shows "invar (rl_heap rl')" "rl_linked H rl'"
    "rl_store rl' = (rl_store rl)(snd p \<mapsto> r\<lparr>rq_cancelled := True\<rparr>)"
    "set (rl_items H rl') \<subseteq> set (rl_items H rl)"
    "mset (rl_live H rl') = filter_mset (\<lambda>q. snd q \<noteq> snd p) (mset (rl_live H rl))"
    "rl_activeCount rl' = sz_sub (rl_activeCount rl) 1"
    "mset (rl_items H rl') = mset (rl_items H rl) \<and> rl_heapSize rl' = rl_heapSize rl \<or>
     mset (rl_items H rl') = mset (rl_live H rl') \<and> rl_heapSize rl' = rl_activeCount rl'"
proof -
  define rl1 where "rl1 = rl_update (snd p) request_cancel (rl\<lparr>rl_activeCount := sz_sub (rl_activeCount rl) 1\<rparr>)"
  define full where "full = (sz_mul (rl_activeCount rl1) 8 < rl_heapSize rl1 \<and> rl_heapSize rl1 > 1000)"
  have store1: "rl_store rl1 = (rl_store rl)(snd p \<mapsto> r\<lparr>rq_cancelled := True\<rparr>)"
    and heap1: "rl_heap rl1 = rl_heap rl" and size1: "rl_heapSize rl1 = rl_heapSize rl"
    and act1: "rl_activeCount rl1 = sz_sub (rl_activeCount rl) 1"
    using r by (simp_all add: rl1_def rl_update_def request_cancel_def)
  have items1: "rl_items H rl1 = rl_items H rl" by (simp add: rl_items_def heap1)
  have live1: "rl_live H rl1 = filter (\<lambda>q. snd q \<noteq> snd p) (rl_live H rl)"
    unfolding rl_live_def items1 filter_filter
    by (rule filter_cong) (auto simp: rl_cancelled_def store1)
  define h' where "h' = (if full then fold (hp_push H) (rl_live H rl1) (hp_new H) else rl_heap rl1)"
  have heap': "rl_heap rl' = h'" and store': "rl_store rl' = rl_store rl1"
    and act': "rl_activeCount rl' = rl_activeCount rl1"
    and size': "rl_heapSize rl' = (if full then rl_activeCount rl1 else rl_heapSize rl1)"
    unfolding rl' rl_cancel_def Let_def rl1_def [symmetric] full_def [symmetric] h'_def
    by (simp_all add: rl_live_def rl_items_def)
  have fold_ok: "invar (fold (hp_push H) xs (hp_new H)) \<and>
      mset (hp_items H (fold (hp_push H) xs (hp_new H))) = mset xs" for xs
    using pushes_items [OF new_invar] new_items by simp
  show inv': "invar (rl_heap rl')" using fold_ok inv by (simp add: heap' h'_def heap1)
  have items': "mset (rl_items H rl') = (if full then mset (rl_live H rl1) else mset (rl_items H rl))"
    using fold_ok by (simp add: rl_items_def heap' h'_def heap1)
  have sub: "mset (rl_items H rl') \<subseteq># mset (rl_items H rl)"
    using items' by (simp add: rl_live_def items1)
  then show set': "set (rl_items H rl') \<subseteq> set (rl_items H rl)"
    using set_mset_mono by fastforce
  show st: "rl_store rl' = (rl_store rl)(snd p \<mapsto> r\<lparr>rq_cancelled := True\<rparr>)"
    by (simp add: store' store1)
  show "rl_activeCount rl' = sz_sub (rl_activeCount rl) 1" by (simp add: act' act1)
  have "mset (rl_items H rl') = mset (if full then rl_live H rl1 else rl_items H rl)"
    using items' by simp
  moreover have "distinct (map snd (if full then rl_live H rl1 else rl_items H rl))"
    using linked by (simp add: rl_linked_def rl_live_def items1 distinct_map_filter)
  ultimately have "distinct (map snd (rl_items H rl'))"
    using mset_distinct_snd by metis
  moreover have "\<exists>r. rl_store rl' (snd q) = Some r \<and> rq_begin r = fst q" if "q \<in> set (rl_items H rl')" for q
  proof -
    from that set' linked obtain r' where "rl_store rl (snd q) = Some r'" "rq_begin r' = fst q"
      unfolding rl_linked_def by blast
    then show ?thesis using r st by (cases "snd q = snd p") auto
  qed
  ultimately show "rl_linked H rl'" by (simp add: rl_linked_def)
  have canc: "rl_cancelled rl' = rl_cancelled rl1" by (simp add: fun_eq_iff rl_cancelled_def store')
  have "mset (rl_live H rl') = filter_mset (\<lambda>q. \<not> rl_cancelled rl1 q) (mset (rl_items H rl'))"
    by (simp add: rl_live_def canc)
  also have "\<dots> = mset (rl_live H rl1)"
    using items' by (simp add: rl_live_def items1 filter_filter_mset)
  finally have live': "mset (rl_live H rl') = mset (rl_live H rl1)" .
  then show "mset (rl_live H rl') = filter_mset (\<lambda>q. snd q \<noteq> snd p) (mset (rl_live H rl))"
    by (simp add: live1)
  show "mset (rl_items H rl') = mset (rl_items H rl) \<and> rl_heapSize rl' = rl_heapSize rl \<or>
     mset (rl_items H rl') = mset (rl_live H rl') \<and> rl_heapSize rl' = rl_activeCount rl'"
    using items' live' act' size' size1 by simp
qed

end

lemma cancel_rebuilds:
  "sz_mul (sz_sub (rl_activeCount rl) 1) 8 < rl_heapSize rl \<Longrightarrow> 1000 < rl_heapSize rl \<Longrightarrow>
   rl_heapSize (rl_cancel H p rl) = sz_sub (rl_activeCount rl) 1"
  by (simp add: rl_cancel_def rl_update_def Let_def)

section \<open>Properties\<close>

text \<open>C25: Cancelling a waiting request bounds the garbage in the heap: when the counters are exact,
  the heap afterwards holds at most 1000 requests or at most eight for each live one, and in
  either case exactly the live requests but the cancelled one are still live in it.\<close>

theorem cancel_bounds_heap:
  assumes "min_heap H invar" "invar (rl_heap rl)" "rl_linked H rl" "p \<in> set (rl_live H rl)"
    and "rl_activeCount rl = length (rl_live H rl)" "rl_heapSize rl = length (rl_items H rl)"
    and "length (rl_items H rl) < 2 ^ 60"
  shows "mset (rl_live H (rl_cancel H p rl)) = filter_mset (\<lambda>q. q \<noteq> p) (mset (rl_live H rl)) \<and>
    (length (rl_items H (rl_cancel H p rl)) \<le> 1000 \<or>
     length (rl_items H (rl_cancel H p rl)) \<le> 8 * length (rl_live H (rl_cancel H p rl)))"
proof -
  define rl' where "rl' = rl_cancel H p rl"
  have pin: "p \<in> set (rl_items H rl)" "\<not> rl_cancelled rl p"
    using assms(4) by (auto simp: rl_live_def)
  obtain r where r: "rl_store rl (snd p) = Some r"
    using assms(3) pin(1) by (auto simp: rl_linked_def)
  note C = min_heap.cancel_ok [OF assms(1-3) r rl'_def]
  have dist: "distinct (map snd (rl_live H rl))"
    using assms(3) by (simp add: rl_linked_def rl_live_def distinct_map_filter)
  have same: "snd q = snd p \<longleftrightarrow> q = p" if "q \<in> set (rl_live H rl)" for q
    using dist that assms(4) by (auto simp: distinct_map inj_on_def)
  then have live': "mset (rl_live H rl') = filter_mset (\<lambda>q. q \<noteq> p) (mset (rl_live H rl))"
    unfolding C(5) by (intro filter_mset_cong) auto
  have "distinct (rl_live H rl)" using dist by (simp add: distinct_map)
  then have "filter_mset (\<lambda>q. q \<noteq> p) (mset (rl_live H rl)) = mset (remove1 p (rl_live H rl))"
    by (simp add: distinct_remove1_removeAll removeAll_filter_not_eq eq_commute)
  then have len: "length (rl_live H rl') = length (rl_live H rl) - 1" "0 < length (rl_live H rl)"
    using live' assms(4) mset_eq_length length_remove1 by (metis, cases "rl_live H rl") auto
  have le: "length (rl_live H rl) \<le> length (rl_items H rl)" by (simp add: rl_live_def)
  have act: "rl_activeCount rl' = length (rl_live H rl')"
  proof -
    have "sz_sub (length (rl_live H rl)) 1 = length (rl_live H rl) - 1"
      by (rule sz_sub_eq) (use len(2) le assms(7) in \<open>auto simp: SIZE_MOD_def Suc_le_eq\<close>)
    then show ?thesis using C(6) assms(5) len(1) by simp
  qed
  have "length (rl_items H rl') \<le> 1000 \<or> length (rl_items H rl') \<le> 8 * length (rl_live H rl')"
    using C(7)
  proof
    assume "mset (rl_items H rl') = mset (rl_live H rl') \<and> rl_heapSize rl' = rl_activeCount rl'"
    then have "length (rl_items H rl') = length (rl_live H rl')" using mset_eq_length by blast
    then show ?thesis by linarith
  next
    assume same: "mset (rl_items H rl') = mset (rl_items H rl) \<and> rl_heapSize rl' = rl_heapSize rl"
    then have n: "length (rl_items H rl') = length (rl_items H rl)" using mset_eq_length by blast
    have act1: "sz_sub (rl_activeCount rl) 1 = length (rl_live H rl')" using act C(6) by simp
    have eight: "sz_mul (sz_sub (rl_activeCount rl) 1) 8 = length (rl_live H rl') * 8"
      unfolding act1 by (rule sz_mul_eq) (use le len assms(7) in \<open>simp add: SIZE_MOD_def\<close>)
    show ?thesis
    proof (rule ccontr)
      assume "\<not> ?thesis"
      then have big: "1000 < length (rl_items H rl)" "length (rl_live H rl') * 8 < length (rl_items H rl)"
        using n by auto
      then have "rl_heapSize rl' = length (rl_live H rl')"
        using cancel_rebuilds [of rl H p] eight assms(6) act1 by (simp add: rl'_def)
      then show False using same assms(6) big len le by simp
    qed
  qed
  with live' show ?thesis by (simp add: rl'_def)
qed

lemma cancel_bounds_heap_witness:
  defines "rl \<equiv> rl_add pairing_heap (3, 0)
    ((rl_new pairing_heap)\<lparr>rl_store := [0 \<mapsto> ReadRequest 3 [None] 1]\<rparr>)"
  shows "mset (rl_live pairing_heap (rl_cancel pairing_heap (3, 0) rl)) = {#}"
proof -
  have "rl_heap rl = Some (PNode (3, 0) [])" "rl_activeCount rl = 1" "rl_heapSize rl = 1"
    "rl_store rl = [0 \<mapsto> ReadRequest 3 [None] 1]" "rl_live pairing_heap rl = [(3, 0)]"
    "rl_items pairing_heap rl = [(3, 0)]"
    by (simp_all add: rl_def rl_add_def rl_new_def sz_add_def SIZE_MOD_def rl_live_def rl_items_def
        rl_cancelled_def ReadRequest_def)
  then show ?thesis
    using cancel_bounds_heap [OF ph.min_heap_axioms, of rl "(3, 0)"]
    by (simp add: rl_linked_def ReadRequest_def)
qed

end
