(* ===== verification/OutputBuffer.thy ===== *)
theory OutputBuffer
  imports OutputRing ReaderList
begin

text \<open>
  The class \<open>OutputBuffer\<close> (src/src/OutputBuffer.h, src/src/OutputBuffer.cpp): the circular
  buffer with its \<open>_closed\<close> flag and its list of waiting readers. Each method runs under the
  object's mutex, so it is one function on the state; a blocking \<open>read\<close> releases the mutex
  while it waits, so it is two: what it does before it waits (\<open>read_enter\<close>) and what it does
  when it is woken (\<open>read_wake\<close>) or times out (\<open>read_timeout\<close>).
\<close>

section \<open>State and constructor\<close>

record 'h output_buffer = ring +
  ob_closed :: bool
  ob_readerList :: "'h reader_list"

definition OutputBuffer_new :: "'h heap_ops \<Rightarrow> nat \<Rightarrow> nat \<Rightarrow> 'h output_buffer" where
  "OutputBuffer_new H maxCapacity initialCapacity =
     \<lparr>ob_buffer = malloc maxCapacity, ob_capacity = min initialCapacity maxCapacity,
      ob_maxCapacity = maxCapacity, ob_size = 0, ob_head = 0, ob_writtenBytes = 0,
      ob_closed = False, ob_readerList = rl_new H\<rparr>"

definition DEFAULT_INITIAL_CAPACITY :: nat where
  "DEFAULT_INITIAL_CAPACITY = 64 * 1024"

section \<open>Methods\<close>

text \<open>The answer that \<open>write\<close> gives a waiting reader, straight from the bytes being written.\<close>

definition deliver :: "nat \<Rightarrow> nat \<Rightarrow> cell list \<Rightarrow> read_request \<Rightarrow> read_request res" where
  "deliver oldWrittenBytes writtenBytes data reader =
     (if \<not> rq_begin reader \<ge> oldWrittenBytes then Inl AssertFailed
      else
        (let itmCount = min (rq_count reader) (sz_sub writtenBytes (rq_begin reader)) in
         rbind (memcpy (rq_target reader) 0 data (sz_sub (rq_begin reader) oldWrittenBytes) itmCount)
           (\<lambda>t. Inr (reader\<lparr>rq_result := ReadResult (rq_begin reader) itmCount, rq_target := t\<rparr>))))"

definition ob_write ::
  "'h heap_ops \<Rightarrow> 'h output_buffer \<Rightarrow> cell list \<Rightarrow> nat \<Rightarrow> 'h output_buffer res option" where
  "ob_write H b data cnt =
     (if ob_closed b then Some (Inl (IllegalState ''The buffer has been closed.''))
      else
        (let oldWrittenBytes = ob_writtenBytes b in
         case overwrite b data cnt of
           Inl e \<Rightarrow> Some (Inl e)
         | Inr (b1, _) \<Rightarrow>
             map_option (\<lambda>r. rbind r (\<lambda>rl. Inr (b1\<lparr>ob_readerList := rl\<rparr>)))
               (rl_process H (ob_writtenBytes b1) (deliver oldWrittenBytes (ob_writtenBytes b1) data)
                 (ob_readerList b1))))"

definition tryRead_at ::
  "'h output_buffer \<Rightarrow> nat \<Rightarrow> cell list \<Rightarrow> nat \<Rightarrow> (read_result \<times> cell list) res" where
  "tryRead_at b begin target cnt =
     (if begin < ob_writtenBytes b then
        (let minBegin = sz_sub (ob_writtenBytes b) (ob_size b);
             localStart = (if begin \<le> minBegin then 0 else sz_sub begin minBegin)
         in rbind (circularRead b target cnt localStart) (\<lambda>(t, n).
              Inr (ReadResult (sz_add (sz_sub (ob_writtenBytes b) (ob_size b)) localStart) n, t)))
      else if ob_closed b then Inr (Closed, target)
      else Inr (Timeout, target))"

definition ob_tryRead ::
  "'h output_buffer \<Rightarrow> int \<Rightarrow> cell list \<Rightarrow> nat \<Rightarrow> (read_result \<times> cell list) res" where
  "ob_tryRead b begin target cnt = tryRead_at b (translateNegativeBegin b begin) target cnt"

text \<open>
  \<open>read\<close> either returns at once or allocates a request, here under the fresh identity \<open>i\<close>,
  and waits: for ever when \<open>timeout \<le> 0\<close>, else at most \<open>timeout\<close> milliseconds.
\<close>

datatype read_step =
    ReadReturns read_result "cell list"
  | ReadWaits req_ptr "int option"

definition read_enter ::
  "'h heap_ops \<Rightarrow> 'h output_buffer \<Rightarrow> int \<Rightarrow> cell list \<Rightarrow> nat \<Rightarrow> int \<Rightarrow> nat \<Rightarrow>
   ('h output_buffer \<times> read_step) res" where
  "read_enter H b begin target cnt timeout i =
     (let positiveBegin = translateNegativeBegin b begin in
      rbind (tryRead_at b positiveBegin target cnt) (\<lambda>(result, t).
        if \<not> rr_isTimeout result then Inr (b, ReadReturns result t)
        else
          (let reader = (positiveBegin, i);
               rl = (ob_readerList b)\<lparr>rl_store := (rl_store (ob_readerList b))
                      (i \<mapsto> ReadRequest positiveBegin t cnt)\<rparr>
           in Inr (b\<lparr>ob_readerList := rl_add H reader rl\<rparr>,
                   ReadWaits reader (if timeout \<le> 0 then None else Some timeout)))))"

text \<open>Woken by its condition variable, the reader returns \<open>reader->result\<close>.\<close>

definition read_wake :: "'h output_buffer \<Rightarrow> nat \<Rightarrow> (read_result \<times> cell list) option" where
  "read_wake b i = map_option (\<lambda>r. (rq_result r, rq_target r)) (rl_store (ob_readerList b) i)"

definition read_timeout ::
  "'h heap_ops \<Rightarrow> 'h output_buffer \<Rightarrow> req_ptr \<Rightarrow> 'h output_buffer \<times> read_result" where
  "read_timeout H b reader =
     (b\<lparr>ob_readerList := rl_cancel H reader (ob_readerList b)\<rparr>, Timeout)"

definition ob_close :: "'h heap_ops \<Rightarrow> 'h output_buffer \<Rightarrow> 'h output_buffer option" where
  "ob_close H b =
     (if \<not> ob_closed b
      then map_option (\<lambda>rl. b\<lparr>ob_readerList := rl, ob_closed := True\<rparr>) (rl_close H (ob_readerList b))
      else Some b)"

text \<open>The destructor closes the buffer before its memory goes.\<close>

definition OutputBuffer_destroy :: "'h heap_ops \<Rightarrow> 'h output_buffer \<Rightarrow> 'h output_buffer option" where
  "OutputBuffer_destroy H b = (if \<not> ob_closed b then ob_close H b else Some b)"

text \<open>The ring does not see the two fields that the buffer adds.\<close>

lemma ring_rel_readerList [simp]: "ring_rel (b\<lparr>ob_readerList := rl\<rparr>) h = ring_rel b h"
proof -
  have "contents (b\<lparr>ob_readerList := rl\<rparr>) = contents b" by (simp add: contents_def)
  then show ?thesis by (simp add: ring_rel_def ring_inv_def)
qed

lemma ring_rel_closed [simp]: "ring_rel (b\<lparr>ob_closed := c\<rparr>) h = ring_rel b h"
proof -
  have "contents (b\<lparr>ob_closed := c\<rparr>) = contents b" by (simp add: contents_def)
  then show ?thesis by (simp add: ring_rel_def ring_inv_def)
qed

section \<open>Reading\<close>

lemma translateNegativeBegin_eq:
  assumes w: "ob_writtenBytes b < 2 ^ 63" and r: "- (2 ^ 63) \<le> begin" "begin < 2 ^ 63"
  shows "translateNegativeBegin b begin =
    (if begin \<ge> 0 then nat begin else nat (begin + int (ob_writtenBytes b)))"
proof (cases "begin \<ge> 0")
  case True
  then show ?thesis
    using r by (simp add: translateNegativeBegin_def of_ssize_def SIZE_MOD_def Let_def)
next
  case False
  have neg: "begin mod int SIZE_MOD = begin + 2 ^ 64"
    using False r neg_mod [of "int SIZE_MOD" "begin"] by (simp add: SIZE_MOD_def)
  have "to_ssize (of_ssize begin + ob_writtenBytes b) = begin + int (ob_writtenBytes b)"
  proof -
    define s where "s = begin + int (ob_writtenBytes b)"
    have s: "- (2 ^ 63) \<le> s" "s < 2 ^ 63" using False w r by (simp_all add: s_def)
    have "int (of_ssize begin + ob_writtenBytes b) = s + 2 ^ 64"
      using False r w neg by (simp add: of_ssize_def s_def)
    then have "int ((of_ssize begin + ob_writtenBytes b) mod SIZE_MOD) = (s + 2 ^ 64) mod 2 ^ 64"
      by (simp only: zmod_int) (simp add: SIZE_MOD_def)
    also have "\<dots> = (if s < 0 then s + 2 ^ 64 else s)"
      using s neg_mod [of "2 ^ 64" s] by auto
    finally show ?thesis
      using s by (auto simp: to_ssize_def Let_def s_def [symmetric] nat_less_iff split: if_splits)
  qed
  then show ?thesis
    using False w r by (auto simp: translateNegativeBegin_def Let_def of_ssize_def SIZE_MOD_def)
qed

definition ssize_range :: "int \<Rightarrow> bool" where
  "ssize_range i \<longleftrightarrow> - (2 ^ 63) \<le> i \<and> i < 2 ^ 63"

text \<open>The first byte that a \<open>begin\<close> argument denotes: below 0 it counts from the end.\<close>

definition spec_begin :: "cell list \<Rightarrow> int \<Rightarrow> nat" where
  "spec_begin h begin = (if begin \<ge> 0 then nat begin else nat (begin + int (length h)))"

text \<open>
  The specification of a read: of the history \<open>h\<close> the last \<open>m\<close> cells are kept; a read that
  begins before them starts at the first of them.
\<close>

definition first_kept :: "nat \<Rightarrow> cell list \<Rightarrow> nat" where
  "first_kept m h = length h - min (length h) m"

definition spec_read ::
  "nat \<Rightarrow> cell list \<Rightarrow> bool \<Rightarrow> nat \<Rightarrow> cell list \<Rightarrow> nat \<Rightarrow> read_result \<times> cell list" where
  "spec_read m h closed begin target cnt =
     (if begin < length h then
        (let b0 = max begin (first_kept m h); n = min cnt (length h - b0)
         in (ReadResult b0 n, take n (drop b0 h) @ drop n target))
      else if closed then (Closed, target) else (Timeout, target))"

lemma tryRead_at_ok:
  assumes rel: "ring_rel b h" and len: "cnt \<le> length target"
  shows "tryRead_at b begin target cnt = Inr (spec_read (ob_maxCapacity b) h (ob_closed b) begin target cnt)"
proof (cases "begin < length h")
  case True
  have inv: "ring_inv b" and R: "ob_writtenBytes b = length h" "length h < 2 ^ 63"
    "ob_size b = min (length h) (ob_maxCapacity b)" "contents b = drop (length h - ob_size b) h"
    using rel by (simp_all add: ring_rel_def)
  define lo where "lo = first_kept (ob_maxCapacity b) h"
  have lo: "length h - ob_size b = lo" "lo \<le> length h" "sz_sub (length h) (ob_size b) = lo"
    "ob_size b = length h - lo"
    using R by (auto simp: lo_def first_kept_def SIZE_MOD_def intro!: sz_sub_eq)
  define st where "st = (if begin \<le> lo then 0 else begin - lo)"
  have st: "lo + st = max begin lo" "(if begin \<le> lo then 0 else sz_sub begin lo) = st"
    "lo + st < SIZE_MOD"
    using True R lo(2) by (auto simp: st_def SIZE_MOD_def intro!: sz_sub_eq)
  define n where "n = min cnt (length h - max begin lo)"
  have n: "n = min cnt (ob_size b - st)" "n \<le> length target"
    using lo st len by (auto simp: n_def)
  have "drop st (contents b) = drop (max begin lo) h"
    using R(4) lo st by (simp add: add.commute)
  then have "circularRead b target cnt st = Inr (take n (drop (max begin lo) h) @ drop n target, n)"
    using circularRead_ok [OF inv n] by simp
  then show ?thesis
    using True R(1) lo st by (simp add: tryRead_at_def Let_def spec_read_def n_def lo_def [symmetric] sz_add_eq)
next
  case False
  then show ?thesis using rel by (auto simp: tryRead_at_def spec_read_def ring_rel_def)
qed

lemma ob_tryRead_ok:
  assumes rel: "ring_rel b h" and r: "ssize_range begin" and len: "cnt \<le> length target"
  shows "ob_tryRead b begin target cnt =
    Inr (spec_read (ob_maxCapacity b) h (ob_closed b) (spec_begin h begin) target cnt)"
proof -
  have "translateNegativeBegin b begin = spec_begin h begin"
    using rel r translateNegativeBegin_eq [of b "begin"]
    by (simp add: ring_rel_def ssize_range_def spec_begin_def)
  then show ?thesis using tryRead_at_ok [OF rel len] by (simp add: ob_tryRead_def)
qed

section \<open>Writing\<close>

text \<open>
  The answer a waiting request gets once the history is \<open>h\<close>: the bytes from its \<open>begin\<close> on,
  as many as there are and as it asked for.
\<close>

definition answer :: "cell list \<Rightarrow> read_request \<Rightarrow> read_request" where
  "answer h r =
     (let n = min (rq_count r) (length h - rq_begin r)
      in r\<lparr>rq_result := ReadResult (rq_begin r) n,
           rq_target := take n (drop (rq_begin r) h) @ drop n (rq_target r)\<rparr>)"

lemma answer_sel [simp]:
  "rq_begin (answer h r) = rq_begin r" "rq_cancelled (answer h r) = rq_cancelled r"
  "rq_count (answer h r) = rq_count r" "rq_signalled (answer h r) = rq_signalled r"
  "rq_result (answer h r) = ReadResult (rq_begin r) (min (rq_count r) (length h - rq_begin r))"
  by (simp_all add: answer_def Let_def)

lemma deliver_ok:
  assumes k: "length h \<le> rq_begin r" "rq_begin r < length h + cnt" and len: "cnt \<le> length data"
    and room: "length h + cnt < 2 ^ 63" and target: "rq_count r \<le> length (rq_target r)"
  shows "deliver (length h) (length h + cnt) data r = Inr (answer (h @ take cnt data) r)"
proof -
  define n where "n = min (rq_count r) (length h + cnt - rq_begin r)"
  define o1 where "o1 = rq_begin r - length h"
  have sub: "sz_sub (length h + cnt) (rq_begin r) = length h + cnt - rq_begin r"
    "sz_sub (rq_begin r) (length h) = o1"
    using k room unfolding o1_def by (intro sz_sub_eq; simp add: SIZE_MOD_def)+
  have n: "o1 + n \<le> cnt" "n \<le> length (rq_target r)"
    using k target by (auto simp: n_def o1_def)
  have "take n (drop (rq_begin r) (h @ take cnt data)) = take n (drop o1 data)"
  proof -
    have "drop (rq_begin r) (h @ take cnt data) = take (cnt - o1) (drop o1 data)"
      using k by (simp add: o1_def drop_take)
    moreover have "min n (cnt - o1) = n" using n(1) by simp
    ultimately show ?thesis by (simp add: take_take)
  qed
  moreover have "min (rq_count r) (length (h @ take cnt data) - rq_begin r) = n"
    using len by (simp add: n_def)
  moreover have "memcpy (rq_target r) 0 data o1 n = Inr (take n (drop o1 data) @ drop n (rq_target r))"
    using n len by (simp add: memcpy_def)
  ultimately show ?thesis
    using k by (simp add: deliver_def sub Let_def n_def [symmetric] answer_def)
qed

text \<open>The readers that may be waiting: none begins before the end of the history.\<close>

definition readers_ready :: "'h heap_ops \<Rightarrow> cell list \<Rightarrow> 'h reader_list \<Rightarrow> bool" where
  "readers_ready H h rl \<longleftrightarrow>
     rl_linked H rl \<and> rl_activeCount rl < SIZE_MOD \<and> rl_heapSize rl < SIZE_MOD \<and>
     (\<forall>p \<in> set (rl_items H rl). length h \<le> fst p \<and>
        (\<forall>r. rl_store rl (snd p) = Some r \<longrightarrow> rq_count r \<le> length (rq_target r)))"

context min_heap
begin

lemma write_ok:
  assumes inv: "invar (rl_heap (ob_readerList b))" and rel: "ring_rel b h"
    and ready: "readers_ready H h (ob_readerList b)" and opn: "\<not> ob_closed b"
    and len: "cnt \<le> length data" and room: "length h + cnt < 2 ^ 63"
  defines "h' \<equiv> h @ take cnt data" and "rl \<equiv> ob_readerList b"
  shows "\<exists>b'. ob_write H b data cnt = Some (Inr b') \<and> ring_rel b' h' \<and>
    ob_maxCapacity b' = ob_maxCapacity b \<and> \<not> ob_closed b' \<and>
    invar (rl_heap (ob_readerList b')) \<and>
    mset (rl_items H (ob_readerList b')) = filter_mset (\<lambda>p. \<not> fst p < length h') (mset (rl_items H rl)) \<and>
    rl_store (ob_readerList b') = rl_served H (length h') (answer h') rl \<and>
    rl_activeCount (ob_readerList b') =
      sz_sub (rl_activeCount rl) (length (filter (\<lambda>p. fst p < length h') (rl_live H rl))) \<and>
    rl_heapSize (ob_readerList b') =
      sz_sub (rl_heapSize rl) (length (filter (\<lambda>p. fst p < length h') (rl_items H rl)))"
proof -
  obtain b1 where b1: "overwrite b data cnt = Inr (b1, ob_size b + cnt - ob_size b1)"
    "ring_rel b1 h'" "ob_maxCapacity b1 = ob_maxCapacity b" "ring.more b1 = ring.more b"
    using overwrite_ok [OF rel len room] by (auto simp: h'_def)
  have more: "ob_closed b1 = ob_closed b" "ob_readerList b1 = rl"
    using b1(4) by (cases b; cases b1; simp add: ring.defs rl_def)+
  have w: "ob_writtenBytes b = length h" "ob_writtenBytes b1 = length h'" "length h' = length h + cnt"
    using rel b1(2) len by (simp_all add: ring_rel_def h'_def)
  have f: "\<forall>p \<in> set (rl_items H rl). \<forall>r. fst p < length h' \<longrightarrow> rl_store rl (snd p) = Some r \<longrightarrow>
      \<not> rq_cancelled r \<longrightarrow> deliver (length h) (length h') data r = Inr (answer h' r)"
  proof (intro ballI allI impI)
    fix p r assume p: "p \<in> set (rl_items H rl)" "fst p < length h'" "rl_store rl (snd p) = Some r"
    have "rq_begin r = fst p" "length h \<le> fst p" "rq_count r \<le> length (rq_target r)"
      using ready p(1,3) by (auto simp: readers_ready_def rl_linked_def rl_def [symmetric])
    then show "deliver (length h) (length h') data r = Inr (answer h' r)"
      using deliver_ok [of h r cnt data] p(2) len room w(3) by (simp add: h'_def)
  qed
  obtain rl' where rl': "rl_process H (length h') (deliver (length h) (length h') data) rl = Some (Inr rl')"
    "invar (rl_heap rl')"
    "mset (rl_items H rl') = filter_mset (\<lambda>p. \<not> fst p < length h') (mset (rl_items H rl))"
    "rl_store rl' = rl_served H (length h') (answer h') rl"
    "rl_activeCount rl' = sz_sub (rl_activeCount rl) (length (filter (\<lambda>p. fst p < length h') (rl_live H rl)))"
    "rl_heapSize rl' = sz_sub (rl_heapSize rl) (length (filter (\<lambda>p. fst p < length h') (rl_items H rl)))"
    using process_ok [where f = "deliver (length h) (length h') data" and g = "answer h'" and rl = rl
        and w = "length h'"] inv ready f
    by (auto simp: readers_ready_def rl_def [symmetric])
  have "ob_write H b data cnt = Some (Inr (b1\<lparr>ob_readerList := rl'\<rparr>))"
    using opn b1(1) rl'(1) more w by (simp add: ob_write_def Let_def)
  moreover have "ring_rel (b1\<lparr>ob_readerList := rl'\<rparr>) h'"
    using b1(2) by simp
  ultimately show ?thesis
    using b1(3) more opn rl' by auto
qed

end

section \<open>A buffer without readers\<close>

text \<open>A buffer to which the chunks \<open>ds\<close> are written one after the other.\<close>

fun ob_writes ::
  "'h heap_ops \<Rightarrow> 'h output_buffer \<Rightarrow> cell list list \<Rightarrow> 'h output_buffer res option" where
  "ob_writes H b [] = Some (Inr b)"
| "ob_writes H b (d # ds) =
     (case ob_write H b d (length d) of
        None \<Rightarrow> None
      | Some (Inl e) \<Rightarrow> Some (Inl e)
      | Some (Inr b') \<Rightarrow> ob_writes H b' ds)"

definition buffer_idle :: "'h heap_ops \<Rightarrow> ('h \<Rightarrow> bool) \<Rightarrow> 'h output_buffer \<Rightarrow> bool" where
  "buffer_idle H invar b \<longleftrightarrow> invar (rl_heap (ob_readerList b)) \<and> \<not> ob_closed b \<and>
     rl_items H (ob_readerList b) = [] \<and> rl_activeCount (ob_readerList b) < SIZE_MOD \<and>
     rl_heapSize (ob_readerList b) < SIZE_MOD"

context min_heap
begin

lemma idle_new: "buffer_idle H invar (OutputBuffer_new H m c)"
  using new_invar new_items by (simp add: buffer_idle_def OutputBuffer_new_def rl_new_def rl_items_def)

lemma idle_write:
  assumes idle: "buffer_idle H invar b" and rel: "ring_rel b h" and room: "length h + length d < 2 ^ 63"
  shows "\<exists>b'. ob_write H b d (length d) = Some (Inr b') \<and> buffer_idle H invar b' \<and>
    ring_rel b' (h @ d) \<and> ob_maxCapacity b' = ob_maxCapacity b"
proof -
  have ready: "readers_ready H h (ob_readerList b)"
    using idle by (simp add: buffer_idle_def readers_ready_def rl_linked_def)
  have pre: "invar (rl_heap (ob_readerList b))" "\<not> ob_closed b"
    using idle by (simp_all add: buffer_idle_def)
  show ?thesis
    using write_ok [OF pre(1) rel ready pre(2), of "length d" d] room idle
    by (auto simp: buffer_idle_def)
qed

lemma idle_writes:
  assumes "buffer_idle H invar b" "ring_rel b h" "length h + length (concat ds) < 2 ^ 63"
  shows "\<exists>b'. ob_writes H b ds = Some (Inr b') \<and> buffer_idle H invar b' \<and>
    ring_rel b' (h @ concat ds) \<and> ob_maxCapacity b' = ob_maxCapacity b"
  using assms
proof (induction ds arbitrary: b h)
  case (Cons d ds)
  obtain b1 where b1: "ob_write H b d (length d) = Some (Inr b1)" "buffer_idle H invar b1"
    "ring_rel b1 (h @ d)" "ob_maxCapacity b1 = ob_maxCapacity b"
    using idle_write [OF Cons.prems(1,2), of d] Cons.prems(3) by auto
  then show ?case using Cons.IH [OF b1(2,3)] Cons.prems(3) by (simp add: b1)
qed simp

end

lemma new_buffer_rel:
  assumes "0 < m" "m < 2 ^ 63" "0 < c"
  shows "ring_rel (OutputBuffer_new H m c) []"
  using assms by (auto simp: ring_rel_def ring_inv_def OutputBuffer_new_def contents_def)

section \<open>Properties\<close>

text \<open>C9: A new buffer of capacity \<open>m\<close>, in which the chunks \<open>ds\<close> have been written in any pieces,
  counts all bytes ever written and holds the last \<open>m\<close> of them: whatever \<open>begin\<close> (a position, or
  below 0 an offset from the end) and \<open>count\<close> a caller gives, \<open>tryRead\<close> returns the bytes that the
  specification \<open>spec_read\<close> reads from the concatenation of the chunks, starting at the first byte
  kept when the one asked for is gone.\<close>

theorem buffer_keeps_last_bytes:
  assumes "min_heap H invar" "0 < m" "m < 2 ^ 63" "0 < c" "length (concat ds) < 2 ^ 63"
    and "ssize_range begin" "cnt \<le> length target"
  shows "\<exists>b. ob_writes H (OutputBuffer_new H m c) ds = Some (Inr b) \<and>
    ob_writtenBytes b = length (concat ds) \<and> ob_size b = min (length (concat ds)) m \<and>
    ob_tryRead b begin target cnt =
      Inr (spec_read m (concat ds) False (spec_begin (concat ds) begin) target cnt)"
proof -
  obtain b where b: "ob_writes H (OutputBuffer_new H m c) ds = Some (Inr b)" "buffer_idle H invar b"
    "ring_rel b (concat ds)" "ob_maxCapacity b = ob_maxCapacity (OutputBuffer_new H m c)"
    using min_heap.idle_writes [OF assms(1) min_heap.idle_new [OF assms(1)] new_buffer_rel [OF assms(2-4)]]
      assms(5) by auto
  then show ?thesis
    using ob_tryRead_ok [OF b(3) assms(6,7)]
    by (auto simp: ring_rel_def buffer_idle_def OutputBuffer_new_def)
qed

lemma buffer_keeps_last_bytes_witness:
  "\<exists>b. ob_writes pairing_heap (OutputBuffer_new pairing_heap 4 2)
       [map Some [1, 2, 3], map Some [4, 5, 6]] = Some (Inr b) \<and>
     ob_tryRead b (- 5) (malloc 3) 3 = Inr (ReadResult 2 3, map Some [3, 4, 5])"
proof -
  let ?ds = "[map Some [1, 2, 3], map Some [4, 5, 6]]"
  have "spec_read 4 (concat ?ds) False (spec_begin (concat ?ds) (- 5)) (malloc 3) 3 =
      (ReadResult 2 3, map Some [3, 4, 5])"
    by code_simp
  then show ?thesis
    using buffer_keeps_last_bytes [OF ph.min_heap_axioms, of 4 2 ?ds "- 5" 3 "malloc 3"]
    by (auto simp: ssize_range_def)
qed

text \<open>A buffer whose maximum capacity is 0 (the command line option \<open>--buffer-size=0\<close> gives one)
  cannot be written to: whatever the data, even none, \<open>_circularWrite\<close> divides by zero.\<close>

theorem zero_capacity_crashes:
  "ob_write H (OutputBuffer_new H 0 c) data cnt = Some (Inl DivByZero)"
proof -
  have "sz_add 0 cnt = cnt mod SIZE_MOD" by (simp add: sz_add_def)
  then show ?thesis
    by (simp add: ob_write_def OutputBuffer_new_def overwrite_def overwrite_store_def circularWrite_def
        Let_def)
qed

end
