(* ===== verification/BufferSystem.thy ===== *)
theory BufferSystem
  imports OutputBuffer
begin

text \<open>
  The \<open>OutputBuffer\<close> under concurrent use: one step per critical section of the object's mutex.
  The state keeps, beside the buffer, the readers that are blocked in \<open>read\<close>, and as a ghost the
  history of all bytes written. A reader that waits with a timeout may find, when it has the mutex
  again, that its request has been answered meanwhile: that is the step \<open>late\<close>.
\<close>

section \<open>The step relation\<close>

type_synonym waiter = "req_ptr \<times> int option"

record 'h osys =
  os_buf :: "'h output_buffer"
  os_hist :: "cell list"
  os_waits :: "nat \<Rightarrow> waiter option"
  os_late :: bool

datatype os_event =
    EWrite "cell list"
  | EThrow err
  | EReturn int nat nat read_result "cell list"
  | EBlock nat int "cell list" nat int
  | EWake nat read_result "cell list"
  | ETimeout nat
  | EClose

abbreviation os_list :: "'h osys \<Rightarrow> 'h reader_list" where
  "os_list s \<equiv> ob_readerList (os_buf s)"

definition os_init :: "'h heap_ops \<Rightarrow> nat \<Rightarrow> nat \<Rightarrow> 'h osys" where
  "os_init H maxCapacity initialCapacity =
     \<lparr>os_buf = OutputBuffer_new H maxCapacity initialCapacity, os_hist = [], os_waits = (\<lambda>_. None),
      os_late = False\<rparr>"

inductive os_step :: "'h heap_ops \<Rightarrow> 'h osys \<Rightarrow> os_event \<Rightarrow> 'h osys \<Rightarrow> bool" for H where
  writes: "ob_write H (os_buf s) data cnt = Some (Inr b) \<Longrightarrow> cnt \<le> length data \<Longrightarrow>
    length (os_hist s) + cnt < 2 ^ 63 \<Longrightarrow>
    os_step H s (EWrite (take cnt data)) (s\<lparr>os_buf := b, os_hist := os_hist s @ take cnt data\<rparr>)"
| throws: "ob_write H (os_buf s) data cnt = Some (Inl e) \<Longrightarrow> cnt \<le> length data \<Longrightarrow>
    length (os_hist s) + cnt < 2 ^ 63 \<Longrightarrow> os_step H s (EThrow e) s"
| returns: "read_enter H (os_buf s) begin target cnt timeout i = Inr (b, ReadReturns rr t) \<Longrightarrow>
    ssize_range begin \<Longrightarrow> cnt \<le> length target \<Longrightarrow>
    os_step H s (EReturn begin cnt (length target) rr t) (s\<lparr>os_buf := b\<rparr>)"
| blocks: "read_enter H (os_buf s) begin target cnt timeout i = Inr (b, ReadWaits p to) \<Longrightarrow>
    ssize_range begin \<Longrightarrow> cnt \<le> length target \<Longrightarrow> rl_store (os_list s) i = None \<Longrightarrow>
    os_step H s (EBlock i begin target cnt timeout) (s\<lparr>os_buf := b, os_waits := (os_waits s)(i \<mapsto> (p, to))\<rparr>)"
| wakes: "os_waits s i = Some w \<Longrightarrow> rl_store (os_list s) i = Some r \<Longrightarrow> rq_signalled r \<Longrightarrow>
    read_wake (os_buf s) i = Some (rr, t) \<Longrightarrow>
    os_step H s (EWake i rr t) (s\<lparr>os_waits := (os_waits s)(i := None)\<rparr>)"
| times_out: "os_waits s i = Some (p, Some ms) \<Longrightarrow> rl_store (os_list s) i = Some r \<Longrightarrow>
    \<not> rq_signalled r \<Longrightarrow> read_timeout H (os_buf s) p = (b, rr) \<Longrightarrow>
    os_step H s (ETimeout i) (s\<lparr>os_buf := b, os_waits := (os_waits s)(i := None)\<rparr>)"
| late: "os_waits s i = Some (p, Some ms) \<Longrightarrow> rl_store (os_list s) i = Some r \<Longrightarrow>
    rq_signalled r \<Longrightarrow> read_timeout H (os_buf s) p = (b, rr) \<Longrightarrow>
    os_step H s (ETimeout i)
      (s\<lparr>os_buf := b, os_waits := (os_waits s)(i := None), os_late := True\<rparr>)"
| closes: "ob_close H (os_buf s) = Some b \<Longrightarrow> os_step H s EClose (s\<lparr>os_buf := b\<rparr>)"

inductive os_reachable :: "'h heap_ops \<Rightarrow> nat \<Rightarrow> nat \<Rightarrow> 'h osys \<Rightarrow> bool" for H m c where
  init: "os_reachable H m c (os_init H m c)"
| step: "os_reachable H m c s \<Longrightarrow> os_step H s e s' \<Longrightarrow> os_reachable H m c s'"

section \<open>The invariant\<close>

text \<open>What a signalled request carries: that the buffer is closed and nothing lies behind the position, or a piece of the history.\<close>

definition answered :: "cell list \<Rightarrow> bool \<Rightarrow> read_request \<Rightarrow> bool" where
  "answered h closed r \<longleftrightarrow>
     rq_result r = Closed \<and> closed \<and> length h \<le> rq_begin r \<or>
     (\<exists>n. rq_result r = ReadResult (rq_begin r) n \<and> n \<le> rq_count r \<and>
        rq_begin r + n \<le> length h \<and> (0 < rq_count r \<longrightarrow> 0 < n) \<and>
        take n (rq_target r) = take n (drop (rq_begin r) h))"

definition waiter_ok :: "'h heap_ops \<Rightarrow> 'h osys \<Rightarrow> nat \<Rightarrow> waiter \<Rightarrow> bool" where
  "waiter_ok H s i w \<longleftrightarrow>
     (\<exists>r. rl_store (os_list s) i = Some r \<and> fst w = (rq_begin r, i) \<and> \<not> rq_cancelled r \<and>
        rq_count r \<le> length (rq_target r) \<and>
        (rq_signalled r \<longrightarrow> answered (os_hist s) (ob_closed (os_buf s)) r) \<and>
        (\<not> rq_signalled r \<longrightarrow> fst w \<in> set (rl_items H (os_list s))))"

lemma waiter_okE:
  assumes "waiter_ok H s i w"
  obtains r where "rl_store (os_list s) i = Some r" "fst w = (rq_begin r, i)" "\<not> rq_cancelled r"
    "rq_count r \<le> length (rq_target r)"
    "rq_signalled r \<Longrightarrow> answered (os_hist s) (ob_closed (os_buf s)) r"
    "\<not> rq_signalled r \<Longrightarrow> fst w \<in> set (rl_items H (os_list s))"
  using assms unfolding waiter_ok_def by blast

lemma waiter_ok_waits [simp]: "waiter_ok H (s\<lparr>os_waits := f\<rparr>) i w = waiter_ok H s i w"
  by (simp add: waiter_ok_def)

text \<open>Every pointer of the heap is that of an unanswered blocked reader or has been cancelled.\<close>

definition item_ok :: "'h osys \<Rightarrow> req_ptr \<Rightarrow> bool" where
  "item_ok s p \<longleftrightarrow>
     (\<exists>r. rl_store (os_list s) (snd p) = Some r \<and> rq_count r \<le> length (rq_target r) \<and>
        (rq_cancelled r \<or> \<not> rq_signalled r \<and> os_waits s (snd p) \<noteq> None))"

definition os_ok :: "'h heap_ops \<Rightarrow> ('h \<Rightarrow> bool) \<Rightarrow> nat \<Rightarrow> 'h osys \<Rightarrow> bool" where
  "os_ok H invar m s \<longleftrightarrow>
     ring_rel (os_buf s) (os_hist s) \<and> ob_maxCapacity (os_buf s) = m \<and>
     invar (rl_heap (os_list s)) \<and> readers_ready H (os_hist s) (os_list s) \<and>
     (ob_closed (os_buf s) \<longrightarrow> rl_items H (os_list s) = []) \<and>
     (\<forall>i w. os_waits s i = Some w \<longrightarrow> waiter_ok H s i w) \<and>
     (\<forall>p \<in> set (rl_items H (os_list s)). item_ok s p)"

text \<open>The two counters count, modulo the width of \<open>size_t\<close>.\<close>

definition counts_ok :: "'h heap_ops \<Rightarrow> 'h reader_list \<Rightarrow> bool" where
  "counts_ok H rl \<longleftrightarrow>
     rl_activeCount rl = length (rl_live H rl) mod SIZE_MOD \<and>
     rl_heapSize rl = length (rl_items H rl) mod SIZE_MOD"

lemma sz_sub_mod: "k \<le> n \<Longrightarrow> sz_sub (n mod SIZE_MOD) k = (n - k) mod SIZE_MOD"
proof -
  assume k: "k \<le> n"
  have "(int (n mod SIZE_MOD) - int k) mod int SIZE_MOD = (int n - int k) mod int SIZE_MOD"
    by (simp add: zmod_int mod_diff_left_eq)
  also have "int n - int k = int (n - k)" using k by simp
  finally have "(int (n mod SIZE_MOD) - int k) mod int SIZE_MOD = int ((n - k) mod SIZE_MOD)"
    by (simp only: zmod_int)
  then show ?thesis by (simp add: sz_sub_def)
qed

lemma sz_add_mod: "sz_add (n mod SIZE_MOD) k = (n + k) mod SIZE_MOD"
  by (simp add: sz_add_def mod_add_left_eq)

lemma distinct_map_filter_one:
  "distinct (map f xs) \<Longrightarrow> x \<in> set xs \<Longrightarrow> filter (\<lambda>y. f y = f x) xs = [x]"
proof (induction xs)
  case (Cons a xs)
  show ?case
  proof (cases "f a = f x")
    case True
    have "f a \<notin> f ` set xs" using Cons.prems(1) by simp
    then have "x = a" "\<forall>y \<in> set xs. f y \<noteq> f x" using Cons.prems(2) True by (auto simp: image_iff)
    then show ?thesis by (simp add: filter_empty_conv)
  next
    case False
    then show ?thesis using Cons by auto
  qed
qed simp

lemma answered_append: "answered h False r \<Longrightarrow> answered (h @ d) c r"
  unfolding answered_def by auto

lemma answer_answered:
  assumes "rq_begin r < length h" "rq_count r \<le> length (rq_target r)"
  shows "answered h c ((answer h r)\<lparr>rq_signalled := True\<rparr>)"
proof -
  define n where "n = min (rq_count r) (length h - rq_begin r)"
  have "n \<le> length (rq_target r)" "n \<le> length h - rq_begin r" using assms by (auto simp: n_def)
  then have "take n (rq_target (answer h r)) = take n (drop (rq_begin r) h)"
    by (simp add: answer_def Let_def n_def [symmetric])
  then show ?thesis
    using assms by (auto simp: answered_def n_def)
qed

lemma answer_target_length:
  "rq_count r \<le> length (rq_target r) \<Longrightarrow> rq_begin r \<le> length h \<Longrightarrow>
   length (rq_target (answer h r)) = length (rq_target r)"
  by (auto simp: answer_def Let_def)

section \<open>Every step keeps the invariant\<close>

text \<open>What the well-formedness of the list says of a pointer and its request.\<close>

lemma ready_item:
  assumes "readers_ready H h rl" "p \<in> set (rl_items H rl)"
  obtains r where "rl_store rl (snd p) = Some r" "rq_begin r = fst p" "length h \<le> fst p"
    "rq_count r \<le> length (rq_target r)"
  using assms by (auto simp: readers_ready_def rl_linked_def)

text \<open>Serving the requests that begin below \<open>w\<close>.\<close>

lemma served_list:
  assumes items: "mset (rl_items H rl') = filter_mset (\<lambda>p. \<not> fst p < w) (mset (rl_items H rl))"
    and store: "rl_store rl' = rl_served H w g rl" and linked: "rl_linked H rl"
    and g: "\<And>r. rq_begin (g r) = rq_begin r" "\<And>r. rq_cancelled (g r) = rq_cancelled r"
  shows "set (rl_items H rl') = {p \<in> set (rl_items H rl). \<not> fst p < w}"
    and "rl_linked H rl'"
    and "mset (rl_live H rl') = filter_mset (\<lambda>p. \<not> fst p < w) (mset (rl_live H rl))"
proof -
  have "mset (rl_items H rl') = mset (filter (\<lambda>p. \<not> fst p < w) (rl_items H rl))"
    using items by simp
  then show set': "set (rl_items H rl') = {p \<in> set (rl_items H rl). \<not> fst p < w}"
    by (metis mset_eq_setD set_filter)
  have "mset (rl_items H rl') = mset (filter (\<lambda>p. \<not> fst p < w) (rl_items H rl))"
    using items by simp
  then have "distinct (map snd (rl_items H rl'))"
    using linked mset_distinct_snd distinct_map_filter unfolding rl_linked_def by metis
  moreover have st: "map_option rq_begin (rl_store rl' i) = map_option rq_begin (rl_store rl i)"
    "map_option rq_cancelled (rl_store rl' i) = map_option rq_cancelled (rl_store rl i)" for i
    using g by (cases "rl_store rl i"; simp add: store rl_served_def)+
  have "\<exists>r. rl_store rl' (snd p) = Some r \<and> rq_begin r = fst p" if p: "p \<in> set (rl_items H rl')" for p
  proof -
    obtain r where "rl_store rl (snd p) = Some r" "rq_begin r = fst p"
      using p set' linked by (auto simp: rl_linked_def)
    then show ?thesis using st(1) [of "snd p"] by auto
  qed
  ultimately show "rl_linked H rl'" by (simp add: rl_linked_def)
  have "rl_cancelled rl' p = rl_cancelled rl p" for p
    using st(2) [of "snd p"]
    by (cases "rl_store rl (snd p)"; cases "rl_store rl' (snd p)") (auto simp: rl_cancelled_def)
  then show "mset (rl_live H rl') = filter_mset (\<lambda>p. \<not> fst p < w) (mset (rl_live H rl))"
    using items by (simp add: rl_live_def filter_filter_mset conj_commute)
qed

lemma length_filter_split: "length (filter (\<lambda>x. \<not> P x) xs) = length xs - length (filter P xs)"
  using sum_length_filter_compl [of P xs] by simp

lemma size_filter_live:
  assumes "mset ys = filter_mset (\<lambda>p. \<not> P p) (mset xs)"
  shows "length ys = length xs - length (filter P xs)"
  using arg_cong [OF assms, of size] length_filter_split [of P xs]
  by (metis mset_filter size_mset)

context min_heap
begin

lemma os_ok_unpack:
  assumes "os_ok H invar m s"
  shows "ring_rel (os_buf s) (os_hist s)" "ob_maxCapacity (os_buf s) = m"
    "invar (rl_heap (os_list s))" "readers_ready H (os_hist s) (os_list s)" "rl_linked H (os_list s)"
    "ob_closed (os_buf s) \<Longrightarrow> rl_items H (os_list s) = []"
    "os_waits s i = Some w \<Longrightarrow> waiter_ok H s i w"
    "p \<in> set (rl_items H (os_list s)) \<Longrightarrow> item_ok s p"
  using assms unfolding os_ok_def readers_ready_def by blast+

lemma os_write_ok:
  assumes ok: "os_ok H invar m s" and len: "cnt \<le> length data"
    and room: "length (os_hist s) + cnt < 2 ^ 63" and opn: "\<not> ob_closed (os_buf s)"
  shows "\<exists>b. ob_write H (os_buf s) data cnt = Some (Inr b) \<and>
    os_ok H invar m (s\<lparr>os_buf := b, os_hist := os_hist s @ take cnt data\<rparr>) \<and>
    (counts_ok H (os_list s) \<longrightarrow> counts_ok H (ob_readerList b))"
proof -
  note U = os_ok_unpack [OF ok]
  define h' where "h' = os_hist s @ take cnt data"
  let ?rl = "os_list s"
  obtain b where b: "ob_write H (os_buf s) data cnt = Some (Inr b)" "ring_rel b h'"
    "ob_maxCapacity b = m" "\<not> ob_closed b" "invar (rl_heap (ob_readerList b))"
    "mset (rl_items H (ob_readerList b)) = filter_mset (\<lambda>p. \<not> fst p < length h') (mset (rl_items H ?rl))"
    "rl_store (ob_readerList b) = rl_served H (length h') (answer h') ?rl"
    "rl_activeCount (ob_readerList b) =
      sz_sub (rl_activeCount ?rl) (length (filter (\<lambda>p. fst p < length h') (rl_live H ?rl)))"
    "rl_heapSize (ob_readerList b) =
      sz_sub (rl_heapSize ?rl) (length (filter (\<lambda>p. fst p < length h') (rl_items H ?rl)))"
    using write_ok [OF U(3,1,4) opn len room] U(2) unfolding h'_def by blast
  note L = served_list [OF b(6,7) U(5) answer_sel(1) answer_sel(2)]
  define s' where "s' = s\<lparr>os_buf := b, os_hist := h'\<rparr>"
  have ready: "readers_ready H h' (ob_readerList b)"
    unfolding readers_ready_def
  proof (intro conjI ballI allI impI)
    show "rl_linked H (ob_readerList b)" by (rule L(2))
    show "rl_activeCount (ob_readerList b) < SIZE_MOD" "rl_heapSize (ob_readerList b) < SIZE_MOD"
      by (simp_all add: b)
  next
    fix p assume p: "p \<in> set (rl_items H (ob_readerList b))"
    then have p': "p \<in> set (rl_items H ?rl)" "\<not> fst p < length h'" using L(1) by auto
    then show "length h' \<le> fst p" by simp
    fix r assume r: "rl_store (ob_readerList b) (snd p) = Some r"
    obtain r0 where r0: "rl_store ?rl (snd p) = Some r0" "rq_begin r0 = fst p"
      "rq_count r0 \<le> length (rq_target r0)"
      using ready_item [OF U(4) p'(1)] by blast
    then show "rq_count r \<le> length (rq_target r)"
      using r p'(2) by (simp add: b(7) rl_served_def)
  qed
  have waits: "waiter_ok H s' i w" if w: "os_waits s i = Some w" for i w
  proof -
    obtain r where r: "rl_store ?rl i = Some r" "fst w = (rq_begin r, i)" "\<not> rq_cancelled r"
      "rq_count r \<le> length (rq_target r)"
      "rq_signalled r \<Longrightarrow> answered (os_hist s) (ob_closed (os_buf s)) r"
      "\<not> rq_signalled r \<Longrightarrow> fst w \<in> set (rl_items H ?rl)"
      using U(7) [OF w] by (rule waiter_okE) blast
    show ?thesis
    proof (cases "rq_signalled r")
      case True
      then have "(rq_begin r, i) \<notin> set (rl_items H ?rl)"
        using U(8) [of "(rq_begin r, i)"] r(1,3) by (auto simp: item_ok_def)
      then have "rl_store (ob_readerList b) i = Some r" using r(1) by (simp add: b(7) rl_served_def)
      moreover have "answered h' (ob_closed b) r"
        using answered_append [of "os_hist s" r] r(5) True opn b(4) by (simp add: h'_def)
      ultimately show ?thesis using r True by (simp add: waiter_ok_def s'_def)
    next
      case False
      then have item: "(rq_begin r, i) \<in> set (rl_items H ?rl)" using r by simp
      show ?thesis
      proof (cases "rq_begin r < length h'")
        case True
        then have "rl_store (ob_readerList b) i = Some ((answer h' r)\<lparr>rq_signalled := True\<rparr>)"
          using r(1,3) item by (simp add: b(7) rl_served_def)
        then show ?thesis
          using r(2-4) True answer_answered answer_target_length [of r h']
          by (simp add: waiter_ok_def s'_def)
      next
        case above: False
        then have "rl_store (ob_readerList b) i = Some r"
          using r(1) by (simp add: b(7) rl_served_def)
        moreover have "(rq_begin r, i) \<in> set (rl_items H (ob_readerList b))"
          using L(1) item above by simp
        ultimately show ?thesis using r False by (simp add: waiter_ok_def s'_def)
      qed
    qed
  qed
  have items: "item_ok s' p" if p: "p \<in> set (rl_items H (ob_readerList b))" for p
  proof -
    have p': "p \<in> set (rl_items H ?rl)" "\<not> fst p < length h'" using p L(1) by auto
    obtain r where "rl_store ?rl (snd p) = Some r" "rq_begin r = fst p"
      using ready_item [OF U(4) p'(1)] by blast
    then have "rl_store (ob_readerList b) (snd p) = rl_store ?rl (snd p)"
      using p'(2) by (simp add: b(7) rl_served_def)
    then show ?thesis using U(8) [OF p'(1)] by (simp add: item_ok_def s'_def)
  qed
  have "os_ok H invar m s'"
    using b(2-5) ready waits items by (simp add: os_ok_def s'_def)
  moreover have "counts_ok H (ob_readerList b)" if c: "counts_ok H ?rl"
    using c size_filter_live [OF L(3)] size_filter_live [OF b(6)]
    by (simp add: counts_ok_def b(8,9) sz_sub_mod)
  ultimately show ?thesis using b(1) by (auto simp: s'_def h'_def)
qed

end

lemma read_enter_eq:
  assumes rel: "ring_rel b h" and r: "ssize_range begin" and len: "cnt \<le> length target"
  shows "read_enter H b begin target cnt timeout i =
    (if spec_begin h begin < length h \<or> ob_closed b
     then Inr (b, ReadReturns (fst (spec_read (ob_maxCapacity b) h (ob_closed b) (spec_begin h begin) target cnt))
                    (snd (spec_read (ob_maxCapacity b) h (ob_closed b) (spec_begin h begin) target cnt)))
     else Inr (b\<lparr>ob_readerList := rl_add H (spec_begin h begin, i)
                  ((ob_readerList b)\<lparr>rl_store := (rl_store (ob_readerList b))
                     (i \<mapsto> ReadRequest (spec_begin h begin) target cnt)\<rparr>)\<rparr>,
               ReadWaits (spec_begin h begin, i) (if timeout \<le> 0 then None else Some timeout)))"
proof -
  have "translateNegativeBegin b begin = spec_begin h begin"
    using rel r translateNegativeBegin_eq [of b "begin"]
    by (simp add: ring_rel_def ssize_range_def spec_begin_def)
  then show ?thesis
    using tryRead_at_ok [OF rel len, of "spec_begin h begin"]
    by (auto simp: read_enter_def Let_def spec_read_def)
qed

context min_heap
begin

lemma os_block_ok:
  fixes to :: "int option"
  assumes ok: "os_ok H invar m s" and len: "cnt \<le> length target"
    and k: "length (os_hist s) \<le> k" and opn: "\<not> ob_closed (os_buf s)"
    and fresh: "rl_store (os_list s) i = None"
  defines "rl' \<equiv> rl_add H (k, i)
      ((os_list s)\<lparr>rl_store := (rl_store (os_list s))(i \<mapsto> ReadRequest k target cnt)\<rparr>)"
  defines "s' \<equiv> s\<lparr>os_buf := (os_buf s)\<lparr>ob_readerList := rl'\<rparr>,
      os_waits := (os_waits s)(i \<mapsto> ((k, i), to))\<rparr>"
  shows "os_ok H invar m s'" and "counts_ok H (os_list s) \<Longrightarrow> counts_ok H (os_list s')"
proof -
  note U = os_ok_unpack [OF ok]
  let ?rl = "os_list s" and ?r = "ReadRequest k target cnt"
  have r: "rq_begin ?r = k" "\<not> rq_cancelled ?r" "\<not> rq_signalled ?r" "rq_count ?r = cnt"
    "rq_target ?r = target"
    by (simp_all add: ReadRequest_def)
  have eq: "rl' = rl_add H (rq_begin ?r, i) (?rl\<lparr>rl_store := (rl_store ?rl)(i \<mapsto> ?r)\<rparr>)"
    by (simp add: rl'_def r)
  note A = add_ok [OF U(3,5) fresh eq r(2)]
  have store': "rl_store rl' = (rl_store ?rl)(i \<mapsto> ?r)" by (simp add: rl'_def rl_add_def)
  have set': "set (rl_items H rl') = insert (k, i) (set (rl_items H ?rl))"
    using arg_cong [OF A(3), of set_mset] by (simp add: r)
  have old: "snd p \<noteq> i" if "p \<in> set (rl_items H ?rl)" for p
    using that fresh U(5) by (auto simp: rl_linked_def)
  have neww: "waiter_ok H s' j w" if w: "os_waits s' j = Some w" for j w
  proof (cases "j = i")
    case True
    then have "w = ((k, i), to)" using w by (simp add: s'_def)
    then show ?thesis using True len r set' store' by (simp add: waiter_ok_def s'_def)
  next
    case False
    then have "waiter_ok H s j w" using w U(7) by (simp add: s'_def)
    then show ?thesis using False store' set' by (auto simp: waiter_ok_def s'_def)
  qed
  have newi: "item_ok s' p" if p: "p \<in> set (rl_items H rl')" for p
  proof (cases "p = (k, i)")
    case True
    then show ?thesis using store' len r by (simp add: item_ok_def s'_def)
  next
    case False
    then have "p \<in> set (rl_items H ?rl)" using p set' by simp
    then show ?thesis using U(8) old store' by (simp add: item_ok_def s'_def)
  qed
  have ready: "readers_ready H (os_hist s) rl'"
    unfolding readers_ready_def
  proof (intro conjI ballI)
    show "rl_linked H rl'" by (rule A(2))
    show "rl_activeCount rl' < SIZE_MOD" "rl_heapSize rl' < SIZE_MOD"
      by (simp_all add: rl'_def rl_add_def)
    fix p assume p: "p \<in> set (rl_items H rl')"
    then show "length (os_hist s) \<le> fst p"
      using set' k ready_item [OF U(4)] by (metis fst_conv insertE)
    show "\<forall>r. rl_store rl' (snd p) = Some r \<longrightarrow> rq_count r \<le> length (rq_target r)"
      using newi [OF p] by (auto simp: item_ok_def s'_def)
  qed
  have "ring_rel ((os_buf s)\<lparr>ob_readerList := rl'\<rparr>) (os_hist s)"
    using U(1) by (simp add: ring_rel_readerList)
  then show "os_ok H invar m s'"
    using U(2) A(1) ready opn neww newi by (simp add: os_ok_def s'_def)
  show "counts_ok H (os_list s')" if c: "counts_ok H (os_list s)"
    using c arg_cong [OF A(3), of size] arg_cong [OF A(4), of size]
    by (simp add: counts_ok_def s'_def rl'_def rl_add_def sz_add_mod)
qed

end

context min_heap
begin

text \<open>A signalled request that nobody cancelled has left the heap.\<close>

lemma signalled_gone:
  assumes ok: "os_ok H invar m s" and "rl_store (os_list s) i = Some r" "rq_signalled r" "\<not> rq_cancelled r"
  shows "(k, i) \<notin> set (rl_items H (os_list s))"
  using assms os_ok_unpack(8) [OF ok, of "(k, i)"] by (auto simp: item_ok_def)

lemma os_timeout_ok:
  assumes ok: "os_ok H invar m s" and w: "os_waits s i = Some (p, to)"
  defines "rl' \<equiv> rl_cancel H p (os_list s)"
  defines "s' \<equiv> s\<lparr>os_buf := (os_buf s)\<lparr>ob_readerList := rl'\<rparr>, os_waits := (os_waits s)(i := None)\<rparr>"
  shows "os_ok H invar m s'"
    and "rl_store (os_list s) i = Some r \<Longrightarrow> \<not> rq_signalled r \<Longrightarrow> counts_ok H (os_list s) \<Longrightarrow>
      counts_ok H (os_list s')"
proof -
  note U = os_ok_unpack [OF ok]
  let ?rl = "os_list s"
  obtain r0 where r0: "rl_store ?rl i = Some r0" "p = (rq_begin r0, i)" "\<not> rq_cancelled r0"
    "rq_count r0 \<le> length (rq_target r0)" "\<not> rq_signalled r0 \<Longrightarrow> p \<in> set (rl_items H ?rl)"
    using U(7) [OF w] by (rule waiter_okE) auto
  have r1: "rl_store ?rl (snd p) = Some r0" using r0 by simp
  note C = cancel_ok [OF U(3,5) r1 rl'_def [THEN meta_eq_to_obj_eq]]
  have live': "set (rl_live H rl') = {q \<in> set (rl_live H ?rl). snd q \<noteq> i}"
    using arg_cong [OF C(5), of set_mset] r0(2) by auto
  have keep: "q \<in> set (rl_items H rl')" if q: "q \<in> set (rl_live H ?rl)" "snd q \<noteq> i" for q
    using C(7)
  proof
    assume "mset (rl_items H rl') = mset (rl_items H ?rl) \<and> rl_heapSize rl' = rl_heapSize ?rl"
    then show ?thesis using q mset_eq_setD by (fastforce simp: rl_live_def)
  next
    assume "mset (rl_items H rl') = mset (rl_live H rl') \<and> rl_heapSize rl' = rl_activeCount rl'"
    then show ?thesis using q live' mset_eq_setD by fastforce
  qed
  have waits: "waiter_ok H s' j w" if w: "os_waits s' j = Some w" for j w
  proof -
    have j: "j \<noteq> i" "os_waits s j = Some w" using w by (auto simp: s'_def split: if_splits)
    obtain r where r: "rl_store ?rl j = Some r" "fst w = (rq_begin r, j)" "\<not> rq_cancelled r"
      "rq_count r \<le> length (rq_target r)"
      "rq_signalled r \<Longrightarrow> answered (os_hist s) (ob_closed (os_buf s)) r"
      "\<not> rq_signalled r \<Longrightarrow> fst w \<in> set (rl_items H ?rl)"
      using U(7) [OF j(2)] by (rule waiter_okE) blast
    have "rl_store rl' j = Some r" using C(3) r0(2) j r(1) by simp
    moreover have "fst w \<in> set (rl_items H rl')" if "\<not> rq_signalled r"
      using keep [of "fst w"] r that j(1) by (simp add: rl_live_def rl_cancelled_def)
    ultimately show ?thesis using r by (simp add: waiter_ok_def s'_def)
  qed
  have items: "item_ok s' q" if q: "q \<in> set (rl_items H rl')" for q
  proof (cases "snd q = i")
    case True
    then show ?thesis using C(3) r0 by (simp add: item_ok_def s'_def)
  next
    case False
    have "item_ok s q" using q C(4) U(8) by blast
    then show ?thesis using False C(3) r0(2) by (simp add: item_ok_def s'_def)
  qed
  have ready: "readers_ready H (os_hist s) rl'"
    unfolding readers_ready_def
  proof (intro conjI ballI)
    show "rl_linked H rl'" by (rule C(2))
    show "rl_activeCount rl' < SIZE_MOD" by (simp add: C(6))
    then show "rl_heapSize rl' < SIZE_MOD" using C(7) U(4) by (auto simp: readers_ready_def)
    fix q assume q: "q \<in> set (rl_items H rl')"
    then show "length (os_hist s) \<le> fst q" using C(4) ready_item [OF U(4)] by (metis subsetD)
    show "\<forall>r. rl_store rl' (snd q) = Some r \<longrightarrow> rq_count r \<le> length (rq_target r)"
      using items [OF q] by (auto simp: item_ok_def s'_def)
  qed
  show "os_ok H invar m s'"
    using U(1,2,6) C(1,4) ready waits items by (auto simp: os_ok_def s'_def)
  show "counts_ok H (os_list s')"
    if r: "rl_store ?rl i = Some r" and ns: "\<not> rq_signalled r" and c: "counts_ok H ?rl"
  proof -
    have dist: "distinct (map snd (rl_live H ?rl))"
      using U(5) by (simp add: rl_linked_def rl_live_def distinct_map_filter)
    have mem: "p \<in> set (rl_live H ?rl)"
      using r0 r ns by (simp add: rl_live_def rl_cancelled_def)
    have "filter (\<lambda>q. snd q = i) (rl_live H ?rl) = [p]"
      using distinct_map_filter_one [OF dist mem] r0(2) by simp
    then have one: "length (rl_live H rl') = length (rl_live H ?rl) - 1"
      using size_filter_live [of "rl_live H rl'" "\<lambda>q. snd q = i" "rl_live H ?rl"] C(5) r0(2) by simp
    have pos: "1 \<le> length (rl_live H ?rl)" using mem by (cases "rl_live H ?rl") auto
    have act: "rl_activeCount rl' = length (rl_live H rl') mod SIZE_MOD"
      using c one pos by (simp add: counts_ok_def C(6) sz_sub_mod)
    have "rl_heapSize rl' = length (rl_items H rl') mod SIZE_MOD"
      using C(7)
    proof
      assume "mset (rl_items H rl') = mset (rl_items H ?rl) \<and> rl_heapSize rl' = rl_heapSize ?rl"
      then show ?thesis using c mset_eq_length [of "rl_items H rl'"] by (simp add: counts_ok_def)
    next
      assume "mset (rl_items H rl') = mset (rl_live H rl') \<and> rl_heapSize rl' = rl_activeCount rl'"
      then show ?thesis using act mset_eq_length [of "rl_items H rl'"] by simp
    qed
    then show ?thesis using act by (simp add: counts_ok_def s'_def)
  qed
qed

lemma os_close_ok:
  assumes ok: "os_ok H invar m s"
  shows "\<exists>b. ob_close H (os_buf s) = Some b \<and> ob_closed b \<and> os_ok H invar m (s\<lparr>os_buf := b\<rparr>) \<and>
    (counts_ok H (os_list s) \<longrightarrow> counts_ok H (ob_readerList b))"
proof (cases "ob_closed (os_buf s)")
  case True
  then show ?thesis using ok by (simp add: ob_close_def)
next
  case False
  note U = os_ok_unpack [OF ok]
  let ?rl = "os_list s"
  obtain rl' where rl': "rl_close H ?rl = Some rl'" "invar (rl_heap rl')" "rl_items H rl' = []"
    "rl_heapSize rl' = 0" "rl_activeCount rl' = 0"
    "rl_store rl' = (\<lambda>i. if i \<in> snd ` set (rl_items H ?rl)
      then map_option (\<lambda>r. r\<lparr>rq_result := Closed, rq_signalled := True\<rparr>) (rl_store ?rl i)
      else rl_store ?rl i)"
    using close_ok [OF U(3,5)] by blast
  define b where "b = (os_buf s)\<lparr>ob_readerList := rl', ob_closed := True\<rparr>"
  have "waiter_ok H (s\<lparr>os_buf := b\<rparr>) i w" if w: "os_waits s i = Some w" for i w
  proof -
    obtain r where r: "rl_store ?rl i = Some r" "fst w = (rq_begin r, i)" "\<not> rq_cancelled r"
      "rq_count r \<le> length (rq_target r)"
      "rq_signalled r \<Longrightarrow> answered (os_hist s) (ob_closed (os_buf s)) r"
      "\<not> rq_signalled r \<Longrightarrow> fst w \<in> set (rl_items H ?rl)"
      using U(7) [OF w] by (rule waiter_okE) blast
    show ?thesis
    proof (cases "rq_signalled r")
      case True
      then have "i \<notin> snd ` set (rl_items H ?rl)"
        using signalled_gone [OF ok r(1)] r(3) by auto
      then show ?thesis using r True by (auto simp: waiter_ok_def b_def rl'(6) answered_def)
    next
      case unsig: False
      then have item: "(rq_begin r, i) \<in> set (rl_items H ?rl)" using r by simp
      then have "length (os_hist s) \<le> rq_begin r" using U(4) by (auto simp: readers_ready_def)
      moreover have "i \<in> snd ` set (rl_items H ?rl)" using item by force
      ultimately show ?thesis using r by (auto simp: waiter_ok_def b_def rl'(6) answered_def)
    qed
  qed
  then have "os_ok H invar m (s\<lparr>os_buf := b\<rparr>)"
    using U(1,2) rl' by (simp add: os_ok_def b_def readers_ready_def rl_linked_def)
  moreover have "counts_ok H (ob_readerList b)"
    using rl' by (simp add: counts_ok_def b_def rl_live_def)
  moreover have "ob_close H (os_buf s) = Some b"
    using False rl'(1) by (simp add: ob_close_def b_def)
  ultimately show ?thesis by (auto simp: b_def)
qed

lemma os_wake_ok:
  assumes ok: "os_ok H invar m s" and w: "os_waits s i = Some w"
    and r: "rl_store (os_list s) i = Some r" "rq_signalled r"
  shows "os_ok H invar m (s\<lparr>os_waits := (os_waits s)(i := None)\<rparr>)"
    and "answered (os_hist s) (ob_closed (os_buf s)) r"
proof -
  note U = os_ok_unpack [OF ok]
  have nc: "\<not> rq_cancelled r" and ans: "answered (os_hist s) (ob_closed (os_buf s)) r"
    using U(7) [OF w] r by (auto simp: waiter_ok_def)
  show "answered (os_hist s) (ob_closed (os_buf s)) r" by (rule ans)
  have "snd p \<noteq> i" if "p \<in> set (rl_items H (os_list s))" for p
    using signalled_gone [OF ok r nc, of "fst p"] that by auto
  then have "item_ok (s\<lparr>os_waits := (os_waits s)(i := None)\<rparr>) p" if "p \<in> set (rl_items H (os_list s))" for p
    using that U(8) by (simp add: item_ok_def)
  moreover have "waiter_ok H (s\<lparr>os_waits := (os_waits s)(i := None)\<rparr>) j w'"
    if "os_waits s j = Some w'" for j w'
    using U(7) [OF that] by simp
  ultimately show "os_ok H invar m (s\<lparr>os_waits := (os_waits s)(i := None)\<rparr>)"
    using ok by (simp add: os_ok_def)
qed

end

section \<open>Reachable states\<close>

text \<open>
  What each event may show. A read that returns at once returns what the specification of reads
  says; a woken reader gets what its request holds: the end of the stream, if the buffer is closed and nothing lies
  behind the position it has been waiting for, or at least one and at most as many bytes as it has
  asked for (none only if it has asked for none), those of the history from that position on.
\<close>

fun event_ok :: "nat \<Rightarrow> 'h osys \<Rightarrow> os_event \<Rightarrow> bool" where
  "event_ok m s (EWrite d) = (\<not> ob_closed (os_buf s))"
| "event_ok m s (EThrow e) =
     (ob_closed (os_buf s) \<and> e = IllegalState ''The buffer has been closed.'')"
| "event_ok m s (EReturn begin cnt len rr t) =
     (\<not> rr_isTimeout rr \<and> (\<exists>target. length target = len \<and>
        (rr, t) = spec_read m (os_hist s) (ob_closed (os_buf s)) (spec_begin (os_hist s) begin) target cnt))"
| "event_ok m s (EBlock i begin target cnt timeout) =
     (\<not> ob_closed (os_buf s) \<and> length (os_hist s) \<le> spec_begin (os_hist s) begin)"
| "event_ok m s (EWake i rr t) =
     (\<exists>k to r. os_waits s i = Some ((k, i), to) \<and> rl_store (os_list s) i = Some r \<and> rq_begin r = k \<and>
        rr = rq_result r \<and> t = rq_target r \<and>
        (rr = Closed \<and> ob_closed (os_buf s) \<and> length (os_hist s) \<le> k \<or>
         (\<exists>n. rr = ReadResult k n \<and> n \<le> rq_count r \<and> (0 < rq_count r \<longrightarrow> 0 < n) \<and> k + n \<le> length (os_hist s) \<and>
            take n t = take n (drop k (os_hist s)))))"
| "event_ok m s (ETimeout i) = (\<exists>p ms. os_waits s i = Some (p, Some ms))"
| "event_ok m s EClose = True"

text \<open>
  What each event does for the readers that wait. A write answers exactly those that are unanswered and wait
  for a position it reaches, each with the bytes from its position on, as many as it asked for or as
  there are (\<open>answer\<close>); closing tells all the others that the stream has ended; a reader that starts to wait
  registers its position, its array and its count; and nothing else touches the request of another reader.
\<close>

definition others_kept :: "nat \<Rightarrow> 'h osys \<Rightarrow> 'h osys \<Rightarrow> bool" where
  "others_kept i s s' \<longleftrightarrow> os_hist s' = os_hist s \<and>
     (\<forall>j w. j \<noteq> i \<and> os_waits s j = Some w \<longrightarrow>
        os_waits s' j = Some w \<and> rl_store (os_list s') j = rl_store (os_list s) j)"

definition all_become :: "(read_request \<Rightarrow> read_request) \<Rightarrow> 'h osys \<Rightarrow> 'h osys \<Rightarrow> bool" where
  "all_become g s s' \<longleftrightarrow> os_waits s' = os_waits s \<and>
     (\<forall>j w r. os_waits s j = Some w \<and> rl_store (os_list s) j = Some r \<longrightarrow> rl_store (os_list s') j = Some (g r))"

fun serves :: "'h osys \<Rightarrow> os_event \<Rightarrow> 'h osys \<Rightarrow> bool" where
  "serves s (EWrite d) s' =
     (os_hist s' = os_hist s @ d \<and>
      all_become (\<lambda>r. if rq_signalled r \<or> length (os_hist s @ d) \<le> rq_begin r then r
        else (answer (os_hist s @ d) r)\<lparr>rq_signalled := True\<rparr>) s s')"
| "serves s EClose s' =
     (os_hist s' = os_hist s \<and> ob_closed (os_buf s') \<and>
      all_become (\<lambda>r. if rq_signalled r then r else r\<lparr>rq_result := Closed, rq_signalled := True\<rparr>) s s')"
| "serves s (EBlock i begin target cnt timeout) s' =
     (let k = spec_begin (os_hist s) begin in
      os_waits s' i = Some ((k, i), if timeout \<le> 0 then None else Some timeout) \<and>
      rl_store (os_list s') i = Some (ReadRequest k target cnt) \<and> others_kept i s s')"
| "serves s (EWake i rr t) s' = (os_waits s' i = None \<and> others_kept i s s')"
| "serves s (ETimeout i) s' = (os_waits s' i = None \<and> others_kept i s s')"
| "serves s (EThrow e) s' = (s' = s)"
| "serves s (EReturn begin cnt len rr t) s' = (s' = s)"

definition os_inv :: "'h heap_ops \<Rightarrow> ('h \<Rightarrow> bool) \<Rightarrow> nat \<Rightarrow> 'h osys \<Rightarrow> bool" where
  "os_inv H invar m s \<longleftrightarrow>
     os_ok H invar m s \<and> (\<not> os_late s \<longrightarrow> counts_ok H (os_list s))"

context min_heap
begin

lemma os_init_ok:
  assumes "0 < m" "m < 2 ^ 63" "0 < c"
  shows "os_inv H invar m (os_init H m c)"
proof -
  have "ring_rel (OutputBuffer_new H m c) []"
    using assms by (rule new_buffer_rel)
  then show ?thesis
    using new_invar new_items
    by (simp add: os_inv_def os_ok_def os_init_def OutputBuffer_new_def rl_new_def readers_ready_def
        rl_linked_def rl_items_def counts_ok_def rl_live_def)
qed

text \<open>The waiting readers under a write, a close and a timeout.\<close>

lemma os_write_serves:
  assumes ok: "os_ok H invar m s" and w: "ob_write H (os_buf s) data cnt = Some (Inr b)" "cnt \<le> length data"
    and room: "length (os_hist s) + cnt < 2 ^ 63"
  shows "serves s (EWrite (take cnt data)) (s\<lparr>os_buf := b, os_hist := os_hist s @ take cnt data\<rparr>)"
proof -
  note U = os_ok_unpack [OF ok]
  let ?h = "os_hist s @ take cnt data"
  have opn: "\<not> ob_closed (os_buf s)" using w(1) by (auto simp: ob_write_def)
  have store: "rl_store (ob_readerList b) = rl_served H (length ?h) (answer ?h) (os_list s)"
    using write_ok [OF U(3,1,4) opn w(2) room] w(1) by auto
  have "rl_store (ob_readerList b) j = Some (if rq_signalled r \<or> length ?h \<le> rq_begin r then r
      else (answer ?h r)\<lparr>rq_signalled := True\<rparr>)"
    if j: "os_waits s j = Some x" "rl_store (os_list s) j = Some r" for j x r
  proof -
    have r: "fst x = (rq_begin r, j)" "\<not> rq_cancelled r" "\<not> rq_signalled r \<Longrightarrow> fst x \<in> set (rl_items H (os_list s))"
      using U(7) [OF j(1)] j(2) by (auto simp: waiter_ok_def)
    then show ?thesis
      using signalled_gone [OF ok j(2), of "rq_begin r"] j(2) by (auto simp: store rl_served_def)
  qed
  then show ?thesis by (auto simp: all_become_def)
qed

lemma os_close_serves:
  assumes ok: "os_ok H invar m s" and b: "ob_close H (os_buf s) = Some b"
  shows "serves s EClose (s\<lparr>os_buf := b\<rparr>)"
proof (cases "ob_closed (os_buf s)")
  case True
  then have "b = os_buf s" using b by (simp add: ob_close_def)
  moreover have "rq_signalled r" if j: "os_waits s j = Some x" "rl_store (os_list s) j = Some r" for j x r
    using os_ok_unpack(6,7) [OF ok] True j by (fastforce simp: waiter_ok_def)
  ultimately show ?thesis using True by (auto simp: all_become_def)
next
  case False
  note U = os_ok_unpack [OF ok]
  obtain rl' where rl': "rl_close H (os_list s) = Some rl'"
    "rl_store rl' = (\<lambda>i. if i \<in> snd ` set (rl_items H (os_list s))
      then map_option (\<lambda>r. r\<lparr>rq_result := Closed, rq_signalled := True\<rparr>) (rl_store (os_list s) i)
      else rl_store (os_list s) i)"
    using close_ok [OF U(3,5)] by blast
  have b': "b = (os_buf s)\<lparr>ob_readerList := rl', ob_closed := True\<rparr>" using b rl'(1) False by (simp add: ob_close_def)
  have "rl_store rl' j = Some (if rq_signalled r then r else r\<lparr>rq_result := Closed, rq_signalled := True\<rparr>)"
    if j: "os_waits s j = Some x" "rl_store (os_list s) j = Some r" for j x r
  proof -
    have r: "fst x = (rq_begin r, j)" "\<not> rq_cancelled r" "\<not> rq_signalled r \<Longrightarrow> fst x \<in> set (rl_items H (os_list s))"
      using U(7) [OF j(1)] j(2) by (auto simp: waiter_ok_def)
    show ?thesis
    proof (cases "rq_signalled r")
      case True
      then have "j \<notin> snd ` set (rl_items H (os_list s))" using signalled_gone [OF ok j(2)] r(2) by auto
      then show ?thesis using True j(2) by (simp add: rl'(2))
    next
      case unsig: False
      then have "j \<in> snd ` set (rl_items H (os_list s))" using r by force
      then show ?thesis using unsig j(2) by (simp add: rl'(2))
    qed
  qed
  then show ?thesis by (auto simp: all_become_def b')
qed

lemma os_timeout_serves:
  assumes ok: "os_ok H invar m s" and w: "os_waits s i = Some (p, to)" and b: "read_timeout H (os_buf s) p = (b, rr)"
  shows "serves s (ETimeout i) (s\<lparr>os_buf := b, os_waits := (os_waits s)(i := None)\<rparr>)"
proof -
  note U = os_ok_unpack [OF ok]
  obtain r where r: "rl_store (os_list s) (snd p) = Some r" "snd p = i"
    using U(7) [OF w] by (auto simp: waiter_ok_def)
  show ?thesis
    using cancel_ok(3) [OF U(3,5) r(1) refl] b r(2) by (auto simp: others_kept_def read_timeout_def)
qed

lemma os_step_serves:
  assumes step: "os_step H s e s'" and ok: "os_ok H invar m s"
  shows "serves s e s'"
  using step
proof cases
  case (returns "begin" target cnt timeout i b rr t)
  then show ?thesis
    using read_enter_eq [OF os_ok_unpack(1) [OF ok] returns(4,5), of H timeout i] by (auto split: if_splits)
next
  case (blocks "begin" target cnt timeout i b p to)
  then show ?thesis
    using read_enter_eq [OF os_ok_unpack(1) [OF ok] blocks(4,5), of H timeout i] os_ok_unpack(7) [OF ok]
    by (fastforce simp: others_kept_def rl_add_def Let_def waiter_ok_def split: if_splits)
next
  case (late i p ms r b rr)
  have "serves s (ETimeout i) (s\<lparr>os_buf := b, os_waits := (os_waits s)(i := None)\<rparr>)"
    by (rule os_timeout_serves [OF ok late(3,6)])
  then show ?thesis using late(1,2) by (simp add: others_kept_def)
qed (use os_write_serves [OF ok] os_close_serves [OF ok] os_timeout_serves [OF ok] in \<open>auto simp: others_kept_def\<close>)

lemma os_step_ok:
  assumes step: "os_step H s e s'" and inv: "os_inv H invar m s"
  shows "os_inv H invar m s' \<and> event_ok m s e"
  using step
proof cases
  note ok = inv [unfolded os_inv_def, THEN conjunct1] and cnts = inv [unfolded os_inv_def, THEN conjunct2]
  note U = os_ok_unpack [OF ok]
  {
    case (writes data cnt b)
    then have "\<not> ob_closed (os_buf s)" by (auto simp: ob_write_def)
    then show ?thesis
      using os_write_ok [OF ok writes(4,5)] writes cnts by (auto simp: os_inv_def)
  next
    case (throws data cnt e')
    have c: "ob_closed (os_buf s)"
      using os_write_ok [OF ok throws(4,5)] throws(3) by auto
    then show ?thesis using throws inv by (auto simp: ob_write_def)
  next
    case (returns "begin" target cnt timeout i b rr t)
    then show ?thesis
      using read_enter_eq [OF U(1) returns(4,5), of H timeout i] inv U(2)
      by (auto simp: spec_read_def Let_def split: if_splits)
  next
    case (blocks "begin" target cnt timeout i b p to)
    let ?k = "spec_begin (os_hist s) begin"
    have k: "length (os_hist s) \<le> ?k" "\<not> ob_closed (os_buf s)" "p = (?k, i)"
      "b = (os_buf s)\<lparr>ob_readerList := rl_add H (?k, i) ((os_list s)\<lparr>rl_store := (rl_store (os_list s))
                     (i \<mapsto> ReadRequest ?k target cnt)\<rparr>)\<rparr>"
      using read_enter_eq [OF U(1) blocks(4,5), of H timeout i] blocks(3)
      by (auto split: if_splits)
    show ?thesis
      using os_block_ok [OF ok blocks(5) k(1,2) blocks(6), of to] cnts blocks k
      by (auto simp: os_inv_def)
  next
    case (wakes i w r rr t)
    have w: "fst w = (rq_begin r, i)" using U(7) [OF wakes(3)] wakes(4) by (auto simp: waiter_ok_def)
    have ev: "event_ok m s e"
      using os_wake_ok(2) [OF ok wakes(3-5)] wakes w by (cases w) (auto simp: read_wake_def answered_def)
    then show ?thesis
      using ev os_wake_ok(1) [OF ok wakes(3-5)] wakes(2) cnts by (simp add: os_inv_def)
  next
    case (times_out i p ms r b rr)
    then show ?thesis
      using os_timeout_ok [OF ok times_out(3)] cnts by (auto simp: os_inv_def read_timeout_def)
  next
    case (late i p ms r b rr)
    then show ?thesis
      using os_timeout_ok(1) [OF ok late(3)] by (auto simp: os_inv_def read_timeout_def os_ok_def
          waiter_ok_def item_ok_def)
  next
    case (closes b)
    then show ?thesis using os_close_ok [OF ok] cnts by (auto simp: os_inv_def)
  }
qed

lemma os_reachable_inv:
  assumes "os_reachable H m c s" "0 < m" "m < 2 ^ 63" "0 < c"
  shows "os_inv H invar m s"
  using assms
proof induction
  case init
  then show ?case by (rule os_init_ok)
next
  case (step s e s')
  then show ?case using os_step_ok by blast
qed

end

section \<open>Sample states\<close>

text \<open>
  A reader that waits for the first byte, at most 5 ms, and the same reader answered by a write of
  one byte. The witnesses run on these.
\<close>

definition sample_blocked :: "pheap osys" where
  "sample_blocked =
     (let s = os_init pairing_heap 8 4;
          b = (os_buf s)\<lparr>ob_readerList := rl_add pairing_heap (0, 0)
                ((os_list s)\<lparr>rl_store := (rl_store (os_list s))(0 \<mapsto> ReadRequest 0 (malloc 3) 3)\<rparr>)\<rparr>
      in s\<lparr>os_buf := b, os_waits := (os_waits s)(0 \<mapsto> ((0, 0), Some 5))\<rparr>)"

definition sample_served :: "pheap osys" where
  "sample_served =
     (case ob_write pairing_heap (os_buf sample_blocked) [Some 7] 1 of
        Some (Inr b) \<Rightarrow> sample_blocked\<lparr>os_buf := b, os_hist := [Some 7]\<rparr>
      | _ \<Rightarrow> sample_blocked)"

lemma sample_blocked_step: "os_step pairing_heap (os_init pairing_heap 8 4) (EBlock 0 0 (malloc 3) 3 5) sample_blocked"
proof -
  let ?s = "os_init pairing_heap 8 4"
  have "ring_rel (os_buf ?s) []"
    using ph.os_init_ok [of 8 4] by (simp add: os_inv_def os_ok_def os_init_def)
  then have "read_enter pairing_heap (os_buf ?s) 0 (malloc 3) 3 5 0 =
      Inr (os_buf sample_blocked, ReadWaits (0, 0) (Some 5))"
    using read_enter_eq [of "os_buf ?s" "[]" 0 3 "malloc 3" pairing_heap 5 0]
    by (simp add: ssize_range_def spec_begin_def sample_blocked_def Let_def os_init_def OutputBuffer_new_def)
  then show ?thesis
    using os_step.blocks [of pairing_heap ?s 0 "malloc 3" 3 5 0 "os_buf sample_blocked" "(0, 0)" "Some 5"]
    by (simp add: ssize_range_def os_init_def OutputBuffer_new_def rl_new_def sample_blocked_def Let_def)
qed

lemma sample_blocked_reachable: "os_reachable pairing_heap 8 4 sample_blocked"
  using os_reachable.step [OF os_reachable.init sample_blocked_step] .

lemma sample_blocked_sel [simp]:
  "os_hist sample_blocked = []" "os_late sample_blocked = False"
  "os_waits sample_blocked 0 = Some ((0, 0), Some 5)" "ob_closed (os_buf sample_blocked) = False"
  by (simp_all add: sample_blocked_def Let_def os_init_def OutputBuffer_new_def)

lemma sample_served_step:
  "os_step pairing_heap sample_blocked (EWrite [Some 7]) sample_served"
  "os_waits sample_served = os_waits sample_blocked"
proof -
  have ok: "os_ok pairing_heap ph_invar 8 sample_blocked"
    using ph.os_reachable_inv [OF sample_blocked_reachable] by (simp add: os_inv_def)
  obtain b where b: "ob_write pairing_heap (os_buf sample_blocked) [Some 7] 1 = Some (Inr b)"
    using ph.os_write_ok [OF ok, of 1 "[Some 7]"] by auto
  then show "os_step pairing_heap sample_blocked (EWrite [Some 7]) sample_served"
    "os_waits sample_served = os_waits sample_blocked"
    using os_step.writes [OF b] by (simp_all add: sample_served_def)
qed

lemma sample_served_reachable: "os_reachable pairing_heap 8 4 sample_served"
  using os_reachable.step [OF sample_blocked_reachable sample_served_step(1)] .

lemma sample_served_answer:
  "map_option (\<lambda>r. (rq_result r, rq_target r, rq_signalled r)) (rl_store (os_list sample_served) 0) =
     Some (ReadResult 0 1, [Some 7, None, None], True)"
  "rl_activeCount (os_list sample_served) = 0" "rl_heapSize (os_list sample_served) = 0"
  "rl_items pairing_heap (os_list sample_served) = []" "os_late sample_served = False"
proof -
  let ?rl = "os_list sample_blocked"
  have rl: "rl_items pairing_heap ?rl = [(0, 0)]" "rl_live pairing_heap ?rl = [(0, 0)]"
    "rl_activeCount ?rl = 1" "rl_heapSize ?rl = 1" "rl_store ?rl 0 = Some (ReadRequest 0 (malloc 3) 3)"
    by (simp_all add: sample_blocked_def Let_def os_init_def OutputBuffer_new_def rl_new_def rl_add_def
        rl_items_def rl_live_def rl_cancelled_def ReadRequest_def sz_add_def SIZE_MOD_def)
  have ok: "os_ok pairing_heap ph_invar 8 sample_blocked"
    using ph.os_reachable_inv [OF sample_blocked_reachable] by (simp add: os_inv_def)
  note U = ph.os_ok_unpack [OF ok]
  obtain b where b: "ob_write pairing_heap (os_buf sample_blocked) [Some 7] 1 = Some (Inr b)"
    "rl_store (ob_readerList b) = rl_served pairing_heap 1 (answer [Some 7]) ?rl"
    "rl_activeCount (ob_readerList b) = 0" "rl_heapSize (ob_readerList b) = 0"
    "rl_items pairing_heap (ob_readerList b) = []"
    using ph.write_ok [OF U(3,1,4), of 1 "[Some 7]"] by (auto simp: rl sz_sub_def)
  then show "rl_activeCount (os_list sample_served) = 0" "rl_heapSize (os_list sample_served) = 0"
    "rl_items pairing_heap (os_list sample_served) = []" "os_late sample_served = False"
    "map_option (\<lambda>r. (rq_result r, rq_target r, rq_signalled r)) (rl_store (os_list sample_served) 0) =
     Some (ReadResult 0 1, [Some 7, None, None], True)"
    using rl by (simp_all add: sample_served_def rl_served_def ReadRequest_def answer_def malloc_def
        numeral_eq_Suc)
qed

section \<open>Properties of the concurrent buffer\<close>

text \<open>C1: In every reachable state of the buffer, with any readers waiting, writing to a buffer that is
  not closed ends without a fault (no division by zero, no access out of bounds, no failing
  assertion, no endless loop over the waiting readers) and appends the bytes to the history,
  of which the buffer keeps the last \<open>maxCapacity\<close>; writing to a closed one throws.\<close>

theorem reachable_write_safe:
  assumes "min_heap H invar" "0 < m" "m < 2 ^ 63" "0 < c" "os_reachable H m c s"
    and "cnt \<le> length data" "length (os_hist s) + cnt < 2 ^ 63"
  shows "ring_rel (os_buf s) (os_hist s) \<and>
    (if ob_closed (os_buf s)
     then ob_write H (os_buf s) data cnt = Some (Inl (IllegalState ''The buffer has been closed.''))
     else \<exists>b. ob_write H (os_buf s) data cnt = Some (Inr b) \<and>
       ring_rel b (os_hist s @ take cnt data) \<and> ob_maxCapacity b = m)"
proof -
  have ok: "os_ok H invar m s"
    using min_heap.os_reachable_inv [OF assms(1,5,2,3,4)] by (simp add: os_inv_def)
  note rel = min_heap.os_ok_unpack(1) [OF assms(1) ok]
  show ?thesis
  proof (cases "ob_closed (os_buf s)")
    case True
    then show ?thesis using rel by (simp add: ob_write_def)
  next
    case False
    then obtain b where b: "ob_write H (os_buf s) data cnt = Some (Inr b)"
      "os_ok H invar m (s\<lparr>os_buf := b, os_hist := os_hist s @ take cnt data\<rparr>)"
      using min_heap.os_write_ok [OF assms(1) ok assms(6,7)] by blast
    then show ?thesis
      using rel False min_heap.os_ok_unpack(1,2) [OF assms(1) b(2)] by auto
  qed
qed

lemma reachable_write_safe_witness:
  "\<exists>b. ob_write pairing_heap (os_buf (os_init pairing_heap 4 2)) (map Some [1, 2, 3, 4, 5, 6]) 6 = Some (Inr b) \<and>
     ring_rel b (map Some [1, 2, 3, 4, 5, 6])"
  using reachable_write_safe [OF ph.min_heap_axioms _ _ _ os_reachable.init, of 4 2 6 "map Some [1, 2, 3, 4, 5, 6]"]
  by (auto simp: os_init_def OutputBuffer_new_def)

text \<open>C11: Every event of a reachable buffer delivers what it should (\<open>event_ok\<close>, \<open>serves\<close>): a read that returns at once
  returns exactly the bytes of the history that the specification of reads names; a write answers
  every reader that waits for a position it reaches with exactly the bytes from there on, as many as were asked for
  or as there are, and no other reader; closing answers all that are left with the end of the stream;
  a reader that is woken returns just that answer, which is never empty if it asked for a byte; only a reader that gave
  a timeout times out, and one only starts to wait on an open buffer in which its position lies ahead.\<close>

theorem reachable_event_ok:
  assumes "min_heap H invar" "0 < m" "m < 2 ^ 63" "0 < c" "os_reachable H m c s" "os_step H s e s'"
  shows "event_ok m s e \<and> serves s e s'"
proof -
  have inv: "os_inv H invar m s" by (rule min_heap.os_reachable_inv [OF assms(1,5,2,3,4)])
  then have "os_ok H invar m s" by (simp add: os_inv_def)
  then show ?thesis using min_heap.os_step_ok [OF assms(1,6) inv] min_heap.os_step_serves [OF assms(1,6)] by blast
qed

text \<open>C10: No wake-up is lost: in every reachable state a reader that waits has either been signalled
  and carries its answer, or it is in the heap of waiting readers, the buffer is open and no byte
  from its position on has been written. So once the buffer is closed, every reader that
  still waits has been signalled.\<close>

theorem no_lost_wakeup:
  assumes "min_heap H invar" "0 < m" "m < 2 ^ 63" "0 < c" "os_reachable H m c s"
    and "os_waits s i = Some w"
  shows "\<exists>r. rl_store (os_list s) i = Some r \<and> \<not> rq_cancelled r \<and>
    (rq_signalled r \<and> answered (os_hist s) (ob_closed (os_buf s)) r \<or>
     \<not> rq_signalled r \<and> \<not> ob_closed (os_buf s) \<and> fst w \<in> set (rl_items H (os_list s)) \<and>
       length (os_hist s) \<le> fst (fst w))"
proof -
  have ok: "os_ok H invar m s"
    using min_heap.os_reachable_inv [OF assms(1,5,2,3,4)] by (simp add: os_inv_def)
  note U = min_heap.os_ok_unpack [OF assms(1) ok]
  obtain r where r: "rl_store (os_list s) i = Some r" "\<not> rq_cancelled r"
    "rq_signalled r \<Longrightarrow> answered (os_hist s) (ob_closed (os_buf s)) r"
    "\<not> rq_signalled r \<Longrightarrow> fst w \<in> set (rl_items H (os_list s))"
    using U(7) [OF assms(6)] by (rule waiter_okE) blast
  show ?thesis
  proof (cases "rq_signalled r")
    case False
    then have item: "fst w \<in> set (rl_items H (os_list s))" using r(4) by simp
    then have "length (os_hist s) \<le> fst (fst w)" using ready_item [OF U(4)] by metis
    moreover have "\<not> ob_closed (os_buf s)" using U(6) item by auto
    ultimately show ?thesis using r False item by blast
  qed (use r in blast)
qed

text \<open>C24: As long as no request is cancelled after it has been answered, the two counters of the
  waiting list are exact (modulo the width of \<open>size_t\<close>): \<open>_activeCount\<close> is the number of live
  requests in the heap and \<open>_heapSize\<close> the number of all of them.\<close>

theorem counters_exact:
  assumes "min_heap H invar" "0 < m" "m < 2 ^ 63" "0 < c" "os_reachable H m c s" "\<not> os_late s"
  shows "rl_activeCount (os_list s) = length (rl_live H (os_list s)) mod SIZE_MOD \<and>
    rl_heapSize (os_list s) = length (rl_items H (os_list s)) mod SIZE_MOD"
  using min_heap.os_reachable_inv [OF assms(1,5,2,3,4)] assms(6) by (simp add: os_inv_def counts_ok_def)

section \<open>Witnesses\<close>

lemma sample_wake_step:
  "\<exists>s'. os_step pairing_heap sample_served (EWake 0 (ReadResult 0 1) [Some 7, None, None]) s'"
proof -
  obtain r where r: "rl_store (os_list sample_served) 0 = Some r" "rq_signalled r"
    "read_wake (os_buf sample_served) 0 = Some (ReadResult 0 1, [Some 7, None, None])"
    using sample_served_answer(1) by (auto simp: read_wake_def)
  have w: "os_waits sample_served 0 = Some ((0, 0), Some 5)" by (simp add: sample_served_step)
  show ?thesis using os_step.wakes [OF w r(1,2,3)] by blast
qed

lemma reachable_event_ok_witness:
  "event_ok 8 sample_served (EWake 0 (ReadResult 0 1) [Some 7, None, None]) \<and>
   serves sample_blocked (EWrite [Some 7]) sample_served"
  using sample_wake_step reachable_event_ok [OF ph.min_heap_axioms _ _ _ sample_blocked_reachable sample_served_step(1)]
    reachable_event_ok [OF ph.min_heap_axioms _ _ _ sample_served_reachable,
      of "EWake 0 (ReadResult 0 1) [Some 7, None, None]"] by auto

lemma no_lost_wakeup_witness:
  "\<exists>r. rl_store (os_list sample_served) 0 = Some r \<and> \<not> rq_cancelled r"
  using no_lost_wakeup [OF ph.min_heap_axioms _ _ _ sample_served_reachable, of 0 "((0, 0), Some 5)"]
  by (auto simp: sample_served_step)

lemma counters_exact_witness:
  "rl_activeCount (os_list sample_blocked) = length (rl_live pairing_heap (os_list sample_blocked)) mod SIZE_MOD"
  using counters_exact [OF ph.min_heap_axioms _ _ _ sample_blocked_reachable] by simp

text \<open>A reader whose wait times out just after a writer has answered its request cancels a request
  that has already been counted out: \<open>_activeCount\<close> underflows. A state is reachable in which the
  heap is empty and the counter holds the largest \<open>size_t\<close>.\<close>

theorem late_timeout_underflow:
  "\<exists>s. os_reachable pairing_heap 8 4 s \<and> os_late s \<and> rl_items pairing_heap (os_list s) = [] \<and>
     rl_heapSize (os_list s) = 0 \<and> rl_activeCount (os_list s) = SIZE_MOD - 1"
proof -
  let ?s = sample_served
  obtain r where r: "rl_store (os_list ?s) 0 = Some r" "rq_signalled r"
    using sample_served_answer(1) by auto
  have w: "os_waits ?s 0 = Some ((0, 0), Some 5)" by (simp add: sample_served_step)
  obtain b where b: "read_timeout pairing_heap (os_buf ?s) (0, 0) = (b, Timeout)"
    by (simp add: read_timeout_def)
  let ?s' = "?s\<lparr>os_buf := b, os_waits := (os_waits ?s)(0 := None), os_late := True\<rparr>"
  have ok: "os_ok pairing_heap ph_invar 8 ?s"
    using ph.os_reachable_inv [OF sample_served_reachable] by (simp add: os_inv_def)
  note U = ph.os_ok_unpack [OF ok]
  have rl': "ob_readerList b = rl_cancel pairing_heap (0, 0) (os_list ?s)"
    using b by (auto simp: read_timeout_def)
  have r0: "rl_store (os_list ?s) (snd (0, 0)) = Some r" using r by simp
  note C = ph.cancel_ok [OF U(3,5) r0 rl']
  have "rl_items pairing_heap (ob_readerList b) = []"
    using C(4) sample_served_answer(4) by simp
  moreover have "rl_heapSize (ob_readerList b) = 0"
    using sample_served_answer(3) by (simp add: rl' rl_cancel_def rl_update_def Let_def)
  moreover have "rl_activeCount (ob_readerList b) = SIZE_MOD - 1"
    using C(6) sample_served_answer(2) sz_sub_underflow [of 0] by simp
  moreover have "os_reachable pairing_heap 8 4 ?s'"
    using os_reachable.step [OF sample_served_reachable os_step.late [OF w r b]] .
  ultimately show ?thesis by (intro exI [of _ ?s']) simp
qed

end
