(* ===== verification/IOController.thy ===== *)
theory IOController
  imports BufferSystem
begin

text \<open>
  The class \<open>IOController\<close> (src/src/IOController.h, src/src/IOController.cpp): the thread that copies
  what the program prints from the pipe to the output buffer. What each call of
  \<open>readOutput\<close> returns is an argument: the number of bytes and the content of the array after the
  call. The loop runs on the concurrent buffer of \<open>BufferSystem\<close>, so that readers may be waiting.
\<close>

section \<open>State\<close>

record io_controller =
  io_bufferSize :: nat
  io_running :: bool

definition IOController_new :: "nat \<Rightarrow> io_controller" where
  "IOController_new bufferSize = \<lparr>io_bufferSize = bufferSize, io_running = False\<rparr>"

text \<open>\<open>start\<close> starts the thread; \<open>join\<close> waits for it when there is one (its second result).\<close>

definition io_start :: "io_controller \<Rightarrow> io_controller res" where
  "io_start io =
     (if io_running io then Inl (IllegalState ''The IO thread has already started.'')
      else Inr (io\<lparr>io_running := True\<rparr>))"

definition io_join :: "io_controller \<Rightarrow> io_controller \<times> bool" where
  "io_join io = (io\<lparr>io_running := False\<rparr>, io_running io)"

definition IOController_destroy :: "io_controller \<Rightarrow> io_controller \<times> bool" where
  "IOController_destroy io = (if io_running io then io_join io else (io, False))"

section \<open>The loop\<close>

text \<open>
  How \<open>_run\<close> stands when the given calls of \<open>readOutput\<close> have returned: at its end, ended by an
  exception of \<open>write\<close>, or waiting for the next call.
\<close>

datatype io_state = IoEnded | IoThrew err | IoReading

fun io_run :: "'h heap_ops \<Rightarrow> (int \<times> cell list) list \<Rightarrow> 'h osys \<Rightarrow> (io_state \<times> 'h osys) option" where
  "io_run H [] s = Some (IoReading, s)"
| "io_run H ((nBytes, buffer) # rs) s =
     (if nBytes > 0 then
        (case ob_write H (os_buf s) buffer (nat nBytes) of
           None \<Rightarrow> None
         | Some (Inl e) \<Rightarrow> Some (IoThrew e, s)
         | Some (Inr b) \<Rightarrow>
             io_run H rs (s\<lparr>os_buf := b, os_hist := os_hist s @ take (nat nBytes) buffer\<rparr>))
      else Some (IoEnded, s))"

text \<open>What \<open>read\<close> may return into an array of \<open>bufferSize\<close> bytes.\<close>

definition read_ok :: "nat \<Rightarrow> int \<times> cell list \<Rightarrow> bool" where
  "read_ok bufferSize r \<longleftrightarrow> fst r \<le> int bufferSize \<and> length (snd r) = bufferSize"

definition chunk :: "int \<times> cell list \<Rightarrow> cell list" where
  "chunk r = take (nat (fst r)) (snd r)"

lemma io_run_ok:
  assumes "min_heap H invar" "0 < m" "m < 2 ^ 63" "0 < c"
    and "os_reachable H m c s" "\<not> ob_closed (os_buf s)"
    and "\<forall>r \<in> set rs. read_ok bufferSize r \<and> 0 < fst r"
    and "length (os_hist s) + length (concat (map chunk rs)) < 2 ^ 63"
  shows "\<exists>s'. io_run H (rs @ rest) s = io_run H rest s' \<and> os_reachable H m c s' \<and>
    \<not> ob_closed (os_buf s') \<and> os_hist s' = os_hist s @ concat (map chunk rs)"
  using assms(5-8)
proof (induction rs arbitrary: s)
  case (Cons r rs)
  obtain n buffer where r: "r = (n, buffer)" by (cases r)
  have n: "0 < n" "nat n \<le> length buffer" "length (chunk r) = nat n"
    using Cons.prems(3) r by (auto simp: read_ok_def chunk_def)
  have ok: "os_ok H invar m s"
    using min_heap.os_reachable_inv [OF assms(1) Cons.prems(1) assms(2-4)] by (simp add: os_inv_def)
  have room: "length (os_hist s) + nat n < 2 ^ 63" using Cons.prems(4) n(3) by simp
  let ?s1 = "\<lambda>b. s\<lparr>os_buf := b, os_hist := os_hist s @ take (nat n) buffer\<rparr>"
  obtain b where b: "ob_write H (os_buf s) buffer (nat n) = Some (Inr b)"
    using min_heap.os_write_ok [OF assms(1) ok n(2) room Cons.prems(2)] by blast
  have reach: "os_reachable H m c (?s1 b)"
    using os_reachable.step [OF Cons.prems(1) os_step.writes [OF b n(2) room]] .
  have "\<not> ob_closed b"
    using min_heap.write_ok [OF assms(1) min_heap.os_ok_unpack(3,1,4) [OF assms(1) ok] Cons.prems(2) n(2) room] b
    by auto
  then have open1: "\<not> ob_closed (os_buf (?s1 b))" by simp
  have tail: "\<forall>r \<in> set rs. read_ok bufferSize r \<and> 0 < fst r" using Cons.prems(3) by simp
  have room1: "length (os_hist (?s1 b)) + length (concat (map chunk rs)) < 2 ^ 63"
    using Cons.prems(4) n(2,3) by simp
  obtain s' where s': "io_run H (rs @ rest) (?s1 b) = io_run H rest s'" "os_reachable H m c s'"
    "\<not> ob_closed (os_buf s')" "os_hist s' = os_hist (?s1 b) @ concat (map chunk rs)"
    using Cons.IH [OF reach open1 tail room1] by blast
  have "chunk r = take (nat n) buffer" using r by (simp add: chunk_def)
  then show ?case using s' b n(1) r by (intro exI [of _ s']) simp
qed auto

section \<open>The thread among the readers\<close>

text \<open>
  The controller is the only writer, but readers may act between two of its writes: they return,
  block, wake up and time out. A step is one of a reader, or one round of the loop, which captures
  the bytes in the middle.
\<close>

fun reader_event :: "os_event \<Rightarrow> bool" where
  "reader_event (EReturn k n l rr t) = True"
| "reader_event (EBlock i begin target cnt timeout) = True"
| "reader_event (EWake i rr t) = True"
| "reader_event (ETimeout i) = True"
| "reader_event e = False"

inductive io_step ::
  "'h heap_ops \<Rightarrow> nat \<Rightarrow> io_state \<times> 'h osys \<Rightarrow> cell list \<Rightarrow> io_state \<times> 'h osys \<Rightarrow> bool" for H bufferSize where
  reader: "os_step H s e s' \<Longrightarrow> reader_event e \<Longrightarrow> io_step H bufferSize (pc, s) [] (pc, s')"
| round: "read_ok bufferSize r \<Longrightarrow> length (os_hist s) + nat (fst r) < 2 ^ 63 \<Longrightarrow>
    io_run H [r] s = Some (pc, s') \<Longrightarrow> io_step H bufferSize (IoReading, s) (chunk r) (pc, s')"

inductive io_exec ::
  "'h heap_ops \<Rightarrow> nat \<Rightarrow> io_state \<times> 'h osys \<Rightarrow> cell list \<Rightarrow> io_state \<times> 'h osys \<Rightarrow> bool" for H bufferSize x where
  nothing: "io_exec H bufferSize x [] x"
| more: "io_exec H bufferSize x out y \<Longrightarrow> io_step H bufferSize y d z \<Longrightarrow> io_exec H bufferSize x (out @ d) z"

lemma reader_step:
  assumes "os_step H s e s'" "reader_event e"
  shows "os_hist s' = os_hist s \<and> ob_closed (os_buf s') = ob_closed (os_buf s)"
  using assms
proof cases
  case (returns "begin" target cnt timeout i b rr t)
  then show ?thesis by (auto simp: read_enter_def Let_def rbind_eq_Inr split: if_splits)
next
  case (blocks "begin" target cnt timeout i b p to)
  then show ?thesis by (auto simp: read_enter_def Let_def rbind_eq_Inr split: if_splits)
qed (use assms(2) in \<open>auto simp: read_timeout_def\<close>)

lemma io_round:
  assumes "min_heap H invar" "0 < m" "m < 2 ^ 63" "0 < c"
    and "os_reachable H m c s" "\<not> ob_closed (os_buf s)"
    and "read_ok bufferSize r" "length (os_hist s) + nat (fst r) < 2 ^ 63"
  shows "\<exists>pc s'. io_run H [r] s = Some (pc, s') \<and> (pc = IoReading \<or> pc = IoEnded) \<and> os_reachable H m c s' \<and>
    \<not> ob_closed (os_buf s') \<and> os_hist s' = os_hist s @ chunk r"
proof (cases "0 < fst r")
  case True
  have ok: "\<forall>x \<in> set [r]. read_ok bufferSize x \<and> 0 < fst x" using True assms(7) by simp
  have room: "length (os_hist s) + length (concat (map chunk [r])) < 2 ^ 63"
    using assms(8) by (simp add: chunk_def)
  obtain s' where s': "io_run H ([r] @ []) s = io_run H [] s'" "os_reachable H m c s'" "\<not> ob_closed (os_buf s')"
    "os_hist s' = os_hist s @ concat (map chunk [r])"
    using io_run_ok [OF assms(1-6) ok room, of "[]"] by blast
  have "io_run H [r] s = Some (IoReading, s')" using s'(1) by (simp only: append_Nil2 io_run.simps(1))
  then show ?thesis using s'(2-4) by auto
next
  case False
  then show ?thesis using assms(5,6) by (cases r) (auto simp: chunk_def)
qed

lemma io_exec_ok:
  assumes "min_heap H invar" "0 < m" "m < 2 ^ 63" "0 < c"
    and "io_exec H bufferSize x out y" "x = (IoReading, s0)" "os_reachable H m c s0" "\<not> ob_closed (os_buf s0)"
  shows "(fst y = IoReading \<or> fst y = IoEnded) \<and> os_reachable H m c (snd y) \<and>
    \<not> ob_closed (os_buf (snd y)) \<and> os_hist (snd y) = os_hist s0 @ out"
  using assms(5-)
proof (induction rule: io_exec.induct)
  case (more out y d z)
  obtain pc s where y: "y = (pc, s)" by (cases y)
  have IH: "pc = IoReading \<or> pc = IoEnded" "os_reachable H m c s" "\<not> ob_closed (os_buf s)" "os_hist s = os_hist s0 @ out"
    using more.IH [OF more.prems] by (simp_all add: y)
  show ?case
    using more.hyps(2)
  proof cases
    case (reader s1 e s' pc1)
    then show ?thesis using IH reader_step [of H s e s'] os_reachable.step [OF IH(2)] by (auto simp: y)
  next
    case (round r s1 pc' s')
    then show ?thesis using io_round [OF assms(1-4) IH(2,3), of bufferSize r] IH(4) by (auto simp: y)
  qed
qed simp

end
