(* ===== verification/Utils.thy ===== *)
theory Utils
  imports Prelude
begin

text \<open>
  The helpers of src/src/Utils.cpp: the display of sizes, the creation of parent directories and the
  size of a directory tree. \<open>Poco::format\<close>, \<open>Poco::Path\<close> and \<open>Poco::File\<close> are arguments: the printed
  number, the parent of a path, whether it exists, and a tree of what the calls on each entry return.
\<close>

section \<open>Display of sizes\<close>

definition FORMAT_SIZE_GB_UNIT_LOW_LIMIT :: nat where
  "FORMAT_SIZE_GB_UNIT_LOW_LIMIT = 1000 * 1024 * 1024"

definition FORMAT_SIZE_MB_UNIT_LOW_LIMIT :: nat where
  "FORMAT_SIZE_MB_UNIT_LOW_LIMIT = 1000 * 1024"

definition FORMAT_SIZE_KB_UNIT_LOW_LIMIT :: nat where
  "FORMAT_SIZE_KB_UNIT_LOW_LIMIT = 1000"

definition FORMAT_SIZE_GB :: nat where "FORMAT_SIZE_GB = 2 ^ 30"
definition FORMAT_SIZE_MB :: nat where "FORMAT_SIZE_MB = 2 ^ 20"
definition FORMAT_SIZE_KB :: nat where "FORMAT_SIZE_KB = 2 ^ 10"

text \<open>\<open>std::string::find\<close> of a character and the checked access \<open>std::string::at\<close>.\<close>

fun find_char :: "char \<Rightarrow> string \<Rightarrow> nat option" where
  "find_char c [] = None"
| "find_char c (x # xs) = (if x = c then Some 0 else map_option Suc (find_char c xs))"

definition str_at :: "string \<Rightarrow> nat \<Rightarrow> char res" where
  "str_at s i = (if i < length s then Inr (s ! i) else Inl (SystemError ''out_of_range''))"

fun trim_zeros :: "string \<Rightarrow> nat \<Rightarrow> nat \<Rightarrow> nat res" where
  "trim_zeros s dotPos pos =
     (if pos > dotPos
      then rbind (str_at s pos) (\<lambda>c. if c = CHR ''0'' then trim_zeros s dotPos (pos - 1) else Inr pos)
      else Inr pos)"

declare trim_zeros.simps [simp del]

text \<open>\<open>formatFileSize\<close> of the number that prints as \<open>s\<close>.\<close>

definition formatFileSize :: "string \<Rightarrow> string \<Rightarrow> string res" where
  "formatFileSize s unit =
     (case find_char (CHR ''.'') s of
        Some dotPos \<Rightarrow>
          rbind (trim_zeros s dotPos (length s - 1)) (\<lambda>pos.
            Inr (take (if pos \<noteq> dotPos then pos + 1 else pos) s @ unit))
      | None \<Rightarrow> Inr (s @ unit))"

text \<open>\<open>fmt2 n u\<close> prints \<open>n / u\<close> with two digits after the point, \<open>dec\<close> prints a number.\<close>

definition formatSize :: "(nat \<Rightarrow> nat \<Rightarrow> string) \<Rightarrow> (nat \<Rightarrow> string) \<Rightarrow> nat \<Rightarrow> string res" where
  "formatSize fmt2 dec n =
     (if n \<ge> FORMAT_SIZE_GB_UNIT_LOW_LIMIT then formatFileSize (fmt2 n FORMAT_SIZE_GB) ''G''
      else if n \<ge> FORMAT_SIZE_MB_UNIT_LOW_LIMIT then formatFileSize (fmt2 n FORMAT_SIZE_MB) ''M''
      else if n \<ge> FORMAT_SIZE_KB_UNIT_LOW_LIMIT then formatFileSize (fmt2 n FORMAT_SIZE_KB) ''K''
      else Inr (dec n @ ''B''))"

text \<open>The directory that \<open>makeParents\<close> creates, when it creates one; \<open>parent\<close> is \<open>None\<close> where \<open>Poco\<close> throws.\<close>

definition makeParents :: "(string \<Rightarrow> string option) \<Rightarrow> (string \<Rightarrow> bool) \<Rightarrow> string \<Rightarrow> string option" where
  "makeParents parent exists filePath =
     (case parent filePath of
        None \<Rightarrow> None
      | Some parentDir \<Rightarrow> if exists parentDir then None else Some parentDir)"

section \<open>The size of a directory tree\<close>

text \<open>
  An entry as the calls see it: one whose \<open>isDirectory\<close> throws, a plain file with the result of
  \<open>getSize\<close>, or a directory with the exception of \<open>list\<close>, the listed entries and the result of
  \<open>getSize\<close>.
\<close>

datatype fs_entry =
    Unreadable err
  | PlainFile "nat res"
  | Directory "err option" "fs_entry list" "nat res"

text \<open>
  The flag \<open>interrupted\<close> is set by a signal handler at any time: \<open>poll k\<close> is what its \<open>k\<close>-th test gives,
  and the number of the next test is part of the state.
\<close>

definition catch_zero :: "bool \<Rightarrow> nat res \<times> nat \<Rightarrow> nat res \<times> nat" where
  "catch_zero ignoreErrors r =
     (if ignoreErrors then (case fst r of Inl _ \<Rightarrow> Inr 0 | Inr n \<Rightarrow> Inr n, snd r) else r)"

fun getFsSizeSubProc :: "(nat \<Rightarrow> bool) \<Rightarrow> bool \<Rightarrow> fs_entry \<Rightarrow> nat \<Rightarrow> nat res \<times> nat"
  and fs_entries_size :: "(nat \<Rightarrow> bool) \<Rightarrow> bool \<Rightarrow> fs_entry list \<Rightarrow> nat \<Rightarrow> nat \<Rightarrow> nat res \<times> nat" where
  "getFsSizeSubProc poll ign (Unreadable e) k = (Inl e, k)"
| "getFsSizeSubProc poll ign (PlainFile sz) k = (rbind sz (\<lambda>n. Inr (sz_add 0 n)), k)"
| "getFsSizeSubProc poll ign (Directory (Some e) es sz) k = (Inl e, k)"
| "getFsSizeSubProc poll ign (Directory None es sz) k =
     (case fs_entries_size poll ign es 0 k of
        (Inl e, k') \<Rightarrow> (Inl e, k')
      | (Inr ret, k') \<Rightarrow> (rbind sz (\<lambda>n. Inr (sz_add ret n)), k'))"
| "fs_entries_size poll ign [] ret k = (Inr ret, k)"
| "fs_entries_size poll ign (e # es) ret k =
     (if poll k then (Inr ret, Suc k)
      else
        (case catch_zero ign (getFsSizeSubProc poll ign e (Suc k)) of
           (Inl x, k') \<Rightarrow> (Inl x, k')
         | (Inr n, k') \<Rightarrow> fs_entries_size poll ign es (sz_add ret n) k'))"

definition getFsSize :: "(nat \<Rightarrow> bool) \<Rightarrow> bool \<Rightarrow> fs_entry \<Rightarrow> nat \<Rightarrow> nat res \<times> nat" where
  "getFsSize poll ignoreErrors e k = catch_zero ignoreErrors (getFsSizeSubProc poll ignoreErrors e k)"

definition calculateDirSize :: "(nat \<Rightarrow> bool) \<Rightarrow> bool \<Rightarrow> fs_entry \<Rightarrow> nat res" where
  "calculateDirSize poll ignoreErrors e = fst (getFsSize poll ignoreErrors e 0)"

section \<open>Lemmas\<close>

lemma find_char_append: "c \<notin> set xs \<Longrightarrow> find_char c (xs @ c # ys) = Some (length xs)"
  by (induction xs) auto

lemma find_char_None: "find_char c s = None \<longleftrightarrow> c \<notin> set s"
  by (induction s) auto

lemma find_char_Some: "find_char c s = Some i \<Longrightarrow> \<exists>xs ys. s = xs @ c # ys \<and> length xs = i \<and> c \<notin> set xs"
proof (induction s arbitrary: i)
  case (Cons x s)
  show ?case
  proof (cases "x = c")
    case False
    then obtain j xs ys where "i = Suc j" "s = xs @ c # ys" "length xs = j" "c \<notin> set xs"
      using Cons by auto
    then show ?thesis using False by (intro exI [of _ "x # xs"] exI [of _ ys]) auto
  qed (use Cons.prems in auto)
qed simp

text \<open>A fraction without its trailing zeros, and with its point only if digits are left.\<close>

definition strip_zeros :: "string \<Rightarrow> string" where
  "strip_zeros s = rev (dropWhile (\<lambda>c. c = CHR ''0'') (rev s))"

definition fraction :: "string \<Rightarrow> string" where
  "fraction fp = (if strip_zeros fp = [] then [] else CHR ''.'' # strip_zeros fp)"

lemma strip_zeros_simps [simp]:
  "strip_zeros [] = []"
  "strip_zeros (xs @ [c]) = (if c = CHR ''0'' then strip_zeros xs else xs @ [c])"
  by (simp_all add: strip_zeros_def)

lemma strip_zeros_length: "length (strip_zeros s) \<le> length s"
  by (induction s rule: rev_induct) auto

lemma strip_zeros_prefix: "strip_zeros s = take (length (strip_zeros s)) s"
proof (induction s rule: rev_induct)
  case (snoc c s)
  then show ?case using strip_zeros_length [of s] by auto
qed simp

lemma trim_zeros_eq:
  assumes "j \<le> length fp"
  shows "trim_zeros (ip @ CHR ''.'' # fp) (length ip) (length ip + j) =
    Inr (length ip + length (strip_zeros (take j fp)))"
  using assms
proof (induction j)
  case (Suc j)
  have "str_at (ip @ CHR ''.'' # fp) (length ip + Suc j) = Inr (fp ! j)"
    using Suc.prems by (simp add: str_at_def nth_append)
  moreover have "take (Suc j) fp = take j fp @ [fp ! j]" using Suc.prems by (simp add: take_Suc_conv_app_nth)
  ultimately show ?case using Suc by (subst trim_zeros.simps) simp
qed (simp add: trim_zeros.simps)

lemma formatFileSize_dot:
  assumes "CHR ''.'' \<notin> set ip"
  shows "formatFileSize (ip @ CHR ''.'' # fp) unit = Inr (ip @ fraction fp @ unit)"
proof -
  let ?t = "strip_zeros fp"
  have trim: "trim_zeros (ip @ CHR ''.'' # fp) (length ip) (length (ip @ CHR ''.'' # fp) - 1) =
      Inr (length ip + length ?t)"
    using trim_zeros_eq [of "length fp" fp ip] by simp
  have t: "take (length ?t) fp = ?t" using strip_zeros_prefix [of fp] by simp
  show ?thesis
    unfolding formatFileSize_def find_char_append [OF assms] option.simps(5) trim
    by (auto simp: fraction_def t)
qed

lemma formatFileSize_total: "\<exists>p. formatFileSize s unit = Inr (p @ unit)"
proof (cases "find_char (CHR ''.'') s")
  case None
  then show ?thesis by (simp add: formatFileSize_def)
next
  case (Some i)
  then show ?thesis using find_char_Some [OF Some] formatFileSize_dot by (metis append.assoc)
qed

text \<open>Which unit \<open>formatSize\<close> takes: the first in which the number is below 1000.\<close>

definition size_units :: "(nat \<times> char) list" where
  "size_units = [(2 ^ 10, CHR ''K''), (2 ^ 20, CHR ''M''), (2 ^ 30, CHR ''G'')]"

lemma formatSize_small: "n < 1000 \<Longrightarrow> formatSize fmt2 dec n = Inr (dec n @ ''B'')"
  by (simp add: formatSize_def FORMAT_SIZE_GB_UNIT_LOW_LIMIT_def FORMAT_SIZE_MB_UNIT_LOW_LIMIT_def
      FORMAT_SIZE_KB_UNIT_LOW_LIMIT_def)

lemma formatSize_unit:
  assumes "1000 \<le> n"
  shows "\<exists>u c. (u, c) \<in> set size_units \<and> formatSize fmt2 dec n = formatFileSize (fmt2 n u) [c] \<and>
    (n < 1000 * u \<or> u = 2 ^ 30) \<and> 1000 * u \<le> 1024 * n"
proof -
  consider "1000 * 1024 * 1024 \<le> n" | "1000 * 1024 \<le> n" "n < 1000 * 1024 * 1024" | "n < 1000 * 1024"
    by linarith
  then show ?thesis
  proof cases
    case 1
    then show ?thesis
      by (intro exI [of _ "2 ^ 30"] exI [of _ "CHR ''G''"])
        (simp add: size_units_def formatSize_def FORMAT_SIZE_GB_UNIT_LOW_LIMIT_def FORMAT_SIZE_GB_def)
  next
    case 2
    then show ?thesis
      by (intro exI [of _ "2 ^ 20"] exI [of _ "CHR ''M''"])
        (simp add: size_units_def formatSize_def FORMAT_SIZE_GB_UNIT_LOW_LIMIT_def
          FORMAT_SIZE_MB_UNIT_LOW_LIMIT_def FORMAT_SIZE_MB_def)
  next
    case 3
    then show ?thesis using assms
      by (intro exI [of _ "2 ^ 10"] exI [of _ "CHR ''K''"])
        (simp add: size_units_def formatSize_def FORMAT_SIZE_GB_UNIT_LOW_LIMIT_def
          FORMAT_SIZE_MB_UNIT_LOW_LIMIT_def FORMAT_SIZE_KB_UNIT_LOW_LIMIT_def FORMAT_SIZE_KB_def)
  qed
qed

text \<open>The last character tells the unit; main.cpp relies on it.\<close>

lemma formatSize_last:
  "\<exists>p c. formatSize fmt2 dec n = Inr (p @ [c]) \<and> (c = CHR ''B'' \<longleftrightarrow> n < 1000)"
proof (cases "n < 1000")
  case False
  then obtain u c where "(u, c) \<in> set size_units" "formatSize fmt2 dec n = formatFileSize (fmt2 n u) [c]"
    using formatSize_unit [of n fmt2 dec] by auto
  moreover obtain p where "formatFileSize (fmt2 n u) [c] = Inr (p @ [c])"
    using formatFileSize_total by blast
  ultimately show ?thesis using False by (auto simp: size_units_def)
qed (simp add: formatSize_small)

section \<open>The specification of the directory size\<close>

fun fs_clean :: "fs_entry \<Rightarrow> bool" where
  "fs_clean (Unreadable e) = False"
| "fs_clean (PlainFile sz) = (case sz of Inl _ \<Rightarrow> False | Inr _ \<Rightarrow> True)"
| "fs_clean (Directory le es sz) =
     (le = None \<and> (case sz of Inl _ \<Rightarrow> False | Inr _ \<Rightarrow> True) \<and> list_all fs_clean es)"

definition size_or_zero :: "nat res \<Rightarrow> nat" where
  "size_or_zero r = (case r of Inl _ \<Rightarrow> 0 | Inr n \<Rightarrow> n)"

fun fs_total :: "fs_entry \<Rightarrow> nat" where
  "fs_total (Unreadable e) = 0"
| "fs_total (PlainFile sz) = size_or_zero sz"
| "fs_total (Directory le es sz) = sum_list (map fs_total es) + size_or_zero sz"

lemma sz_add_mods: "sz_add (a mod SIZE_MOD) (b mod SIZE_MOD) = (a + b) mod SIZE_MOD"
  by (simp add: sz_add_def mod_simps)

lemma sz_add_mod_left: "sz_add (a mod SIZE_MOD) b = (a + b) mod SIZE_MOD"
  by (simp add: sz_add_def mod_simps)

lemma sz_add_le: "sz_add a b \<le> a + b"
  by (simp add: sz_add_def)

lemma catch_zero_Inr [simp]: "catch_zero ign (Inr n, k) = (Inr n, k)"
  by (simp add: catch_zero_def)

lemma fs_entries_exact:
  assumes "\<forall>k. \<not> poll k"
    and "\<And>e k. e \<in> set es \<Longrightarrow> \<exists>k'. getFsSizeSubProc poll ign e k = (Inr (fs_total e mod SIZE_MOD), k')"
  shows "\<exists>k'. fs_entries_size poll ign es (a mod SIZE_MOD) k =
    (Inr ((a + sum_list (map fs_total es)) mod SIZE_MOD), k')"
  using assms(2)
proof (induction es arbitrary: a k)
  case (Cons e es)
  obtain k' where k': "getFsSizeSubProc poll ign e (Suc k) = (Inr (fs_total e mod SIZE_MOD), k')"
    using Cons.prems by (metis list.set_intros(1))
  obtain k'' where "fs_entries_size poll ign es ((a + fs_total e) mod SIZE_MOD) k' =
      (Inr ((a + fs_total e + sum_list (map fs_total es)) mod SIZE_MOD), k'')"
    using Cons by (metis list.set_intros(2))
  then show ?case using k' spec [OF assms(1), of k] by (simp add: sz_add_mods add.assoc)
qed simp

lemma fs_size_exact:
  assumes "\<forall>k. \<not> poll k"
  shows "fs_clean e \<Longrightarrow> \<exists>k'. getFsSizeSubProc poll ign e k = (Inr (fs_total e mod SIZE_MOD), k')"
proof (induction e arbitrary: k)
  case (PlainFile sz)
  then show ?case by (cases sz) (simp_all add: size_or_zero_def sz_add_def)
next
  case (Directory le es sz)
  have le: "le = None" and clean: "\<And>e. e \<in> set es \<Longrightarrow> fs_clean e"
    using Directory.prems by (auto simp: list_all_iff)
  obtain n where n: "sz = Inr n" using Directory.prems by (cases sz) auto
  obtain k' where "fs_entries_size poll ign es (0 mod SIZE_MOD) k =
      (Inr ((0 + sum_list (map fs_total es)) mod SIZE_MOD), k')"
    using fs_entries_exact [OF assms Directory.IH [OF _ clean]] by blast
  then show ?case by (simp add: le n sz_add_mod_left size_or_zero_def)
qed simp

lemma fs_entries_bounded:
  assumes "\<And>e k n k'. e \<in> set es \<Longrightarrow> getFsSizeSubProc poll True e k = (Inr n, k') \<Longrightarrow> n \<le> fs_total e"
  shows "\<exists>n k'. fs_entries_size poll True es a k = (Inr n, k') \<and> n \<le> a + sum_list (map fs_total es)"
  using assms
proof (induction es arbitrary: a k)
  case (Cons e es)
  show ?case
  proof (cases "poll k")
    case False
    obtain r k' where r: "getFsSizeSubProc poll True e (Suc k) = (r, k')" by (cases "getFsSizeSubProc poll True e (Suc k)")
    define n where "n = size_or_zero r"
    have n: "catch_zero True (getFsSizeSubProc poll True e (Suc k)) = (Inr n, k')"
      unfolding r by (cases r) (simp_all add: catch_zero_def n_def size_or_zero_def)
    have le: "n \<le> fs_total e"
      using Cons.prems [of e "Suc k"] r by (cases r) (auto simp: n_def size_or_zero_def)
    obtain m k'' where "fs_entries_size poll True es (sz_add a n) k' = (Inr m, k'')"
      "m \<le> sz_add a n + sum_list (map fs_total es)"
      using Cons.IH [of "sz_add a n" k'] Cons.prems by (metis list.set_intros(2))
    then show ?thesis using False n le sz_add_le [of a n] by simp
  qed simp
qed simp

lemma fs_size_bounded: "getFsSizeSubProc poll True e k = (Inr n, k') \<Longrightarrow> n \<le> fs_total e"
proof (induction e arbitrary: k n k')
  case (PlainFile sz)
  then show ?case by (cases sz) (auto simp: size_or_zero_def sz_add_def)
next
  case (Directory le es sz)
  have le: "le = None" using Directory.prems by (cases le) auto
  have "\<And>e k n k'. e \<in> set es \<Longrightarrow> getFsSizeSubProc poll True e k = (Inr n, k') \<Longrightarrow> n \<le> fs_total e"
    using Directory.IH by blast
  then obtain m k1 where m: "fs_entries_size poll True es 0 k = (Inr m, k1)"
    "m \<le> 0 + sum_list (map fs_total es)"
    using fs_entries_bounded [of es poll 0 k] by blast
  obtain x where "sz = Inr x" "n = sz_add m x"
    using Directory.prems m(1) by (cases sz) (auto simp: le)
  then show ?case using m(2) sz_add_le [of m x] by (simp add: size_or_zero_def)
qed simp

section \<open>Properties\<close>

text \<open>C35: A size below 1000 is shown in bytes; any other in the first of K, M and G in which it is below
  1000 (G when there is none), as the two-digit number without its trailing zeros, and without the
  point when the fraction is zero. The loop over the string never reads outside it.\<close>

theorem format_size_exact:
  assumes "\<And>n u. fmt2 n u = whole n u @ CHR ''.'' # frac n u" "\<And>n u. CHR ''.'' \<notin> set (whole n u)"
  shows "if n < 1000 then formatSize fmt2 dec n = Inr (dec n @ ''B'')
    else \<exists>u c. (u, c) \<in> set size_units \<and> (n < 1000 * u \<or> u = 2 ^ 30) \<and> 1000 * u \<le> 1024 * n \<and>
      formatSize fmt2 dec n = Inr (whole n u @ fraction (frac n u) @ [c])"
proof (cases "n < 1000")
  case False
  then obtain u c where "(u, c) \<in> set size_units" "formatSize fmt2 dec n = formatFileSize (fmt2 n u) [c]"
    "n < 1000 * u \<or> u = 2 ^ 30" "1000 * u \<le> 1024 * n"
    using formatSize_unit [of n fmt2 dec] by auto
  moreover have "formatFileSize (fmt2 n u) [c] = Inr (whole n u @ fraction (frac n u) @ [c])"
    unfolding assms(1) by (rule formatFileSize_dot [OF assms(2)])
  ultimately show ?thesis using False by auto
qed (simp add: formatSize_small)

lemma format_size_exact_witness:
  "\<exists>u c. (u, c) \<in> set size_units \<and> (1536 < 1000 * u \<or> u = 2 ^ 30) \<and> 1000 * u \<le> 1024 * 1536 \<and>
     formatSize (\<lambda>n u. ''1.50'') (\<lambda>n. ''0'') 1536 = Inr (''1'' @ fraction ''50'' @ [c])"
  using format_size_exact [of "\<lambda>n u. ''1.50''" "\<lambda>n u. ''1''" "\<lambda>n u. ''50''" 1536 "\<lambda>n. ''0''"]
  by simp

text \<open>C33: Without errors and interruption the size of a directory is the sum of the sizes of everything in
  it, itself included, modulo 2^64.\<close>

theorem dir_size_exact:
  assumes "fs_clean e" "\<forall>k. \<not> poll k"
  shows "calculateDirSize poll ignoreErrors e = Inr (fs_total e mod SIZE_MOD)"
  using fs_size_exact [OF assms(2) assms(1), where ign = ignoreErrors and k = 0] by (auto simp: calculateDirSize_def getFsSize_def)

lemma dir_size_exact_witness:
  "calculateDirSize (\<lambda>_. False) True
     (Directory None [PlainFile (Inr 10), Directory None [PlainFile (Inr 5)] (Inr 4096)] (Inr 4096)) =
   Inr (8207 mod SIZE_MOD)"
  using dir_size_exact [of "Directory None [PlainFile (Inr 10), Directory None [PlainFile (Inr 5)] (Inr 4096)] (Inr 4096)"
      "\<lambda>_. False" True] by (simp add: size_or_zero_def)

text \<open>C34: When errors are ignored the computation always ends with a number, whatever fails and whenever it
  is interrupted, and that number is at most the total size.\<close>

theorem dir_size_bounded: "\<exists>n \<le> fs_total e. calculateDirSize poll True e = Inr n"
proof -
  obtain r k' where r: "getFsSizeSubProc poll True e 0 = (r, k')" by (cases "getFsSizeSubProc poll True e 0")
  then show ?thesis using fs_size_bounded [of poll e 0]
    by (cases r) (auto simp: calculateDirSize_def getFsSize_def catch_zero_def)
qed

end
