(* ===== verification/BufferClient.thy ===== *)
theory BufferClient
  imports BufferSystem
begin

text \<open>
  What the clients of \<open>OutputBuffer\<close> see. A \<open>session\<close> is the buffer together with what the other
  threads will do to it: a script that gives, for each call the client makes, the writes and
  closes that happen before the call takes the mutex, and, for a \<open>read\<close> that blocks, those that
  happen while it waits. The operations run the buffer's own methods. The locale
  \<open>output_source\<close> is the contract the clients rely on; the session operations satisfy it.
\<close>

section \<open>The contract\<close>

text \<open>
  What a read of \<open>cnt\<close> bytes from \<open>begin\<close> may deliver when the history is \<open>h\<close>: the end of the
  stream, nothing yet, or a piece of the history that starts at \<open>begin\<close> or later.
\<close>

definition delivers :: "cell list \<Rightarrow> int \<Rightarrow> nat \<Rightarrow> nat \<Rightarrow> read_result \<Rightarrow> cell list \<Rightarrow> bool" where
  "delivers h begin cnt len rr t \<longleftrightarrow>
     length t = len \<and>
     (rr = Closed \<or> rr = Timeout \<or>
      (\<exists>k n. rr = ReadResult k n \<and> n \<le> cnt \<and> k + n \<le> length h \<and> (0 < cnt \<longrightarrow> 0 < n) \<and>
         (0 \<le> begin \<longrightarrow> nat begin \<le> k) \<and> take n t = take n (drop k h)))"

definition extends :: "cell list \<Rightarrow> cell list \<Rightarrow> bool" where
  "extends h h' \<longleftrightarrow> (\<exists>d. h' = h @ d)"

lemma extends_refl [simp]: "extends h h"
  by (simp add: extends_def)

lemma extends_append [simp]: "extends h (h @ d)"
  by (simp add: extends_def)

lemma extends_trans: "extends a b \<Longrightarrow> extends b c \<Longrightarrow> extends a c"
  by (auto simp: extends_def)

lemma extends_slice: "extends h h' \<Longrightarrow> k + n \<le> length h \<Longrightarrow> take n (drop k h') = take n (drop k h)"
  by (auto simp: extends_def)

lemma extends_length: "extends h h' \<Longrightarrow> length h \<le> length h'"
  by (auto simp: extends_def)

lemma delivers_extends: "delivers h b n l rr t \<Longrightarrow> extends h h' \<Longrightarrow> delivers h' b n l rr t"
  using extends_slice extends_length unfolding delivers_def by (metis le_trans)

text \<open>
  What a \<open>read\<close> from a position promises beyond that, with a buffer of \<open>m\<close> bytes that is closed if \<open>fin\<close>: the
  end of the stream is only told to a reader that has all of it behind, and bytes are only
  skipped when they have dropped out of the buffer.
\<close>

definition nothing_lost :: "nat \<Rightarrow> bool \<Rightarrow> cell list \<Rightarrow> int \<Rightarrow> read_result \<Rightarrow> bool" where
  "nothing_lost m fin h begin rr \<longleftrightarrow> (0 \<le> begin \<longrightarrow>
     (rr = Closed \<longrightarrow> fin \<and> length h \<le> nat begin) \<and>
     (\<forall>k n. rr = ReadResult k n \<longrightarrow> k = nat begin \<or> k + m \<le> length h))"

lemma nothing_lost_extends:
  "nothing_lost m fin h b rr \<Longrightarrow> extends h h' \<Longrightarrow> (fin \<Longrightarrow> fin' \<and> h' = h) \<Longrightarrow> nothing_lost m fin' h' b rr"
  using extends_length [of h h'] by (fastforce simp: nothing_lost_def)

locale output_source =
  fixes hist :: "'s \<Rightarrow> cell list" and capacity :: "'s \<Rightarrow> nat" and bound :: "'s \<Rightarrow> nat" and ok :: "'s \<Rightarrow> bool"
    and tr :: "int \<Rightarrow> cell list \<Rightarrow> nat \<Rightarrow> 's \<Rightarrow> ((read_result \<times> cell list) \<times> 's) res"
  assumes hist_bound: "ok s \<Longrightarrow> length (hist s) \<le> bound s \<and> bound s < 2 ^ 63"
    and tr_ok: "ok s \<Longrightarrow> ssize_range begin \<Longrightarrow> cnt \<le> length target \<Longrightarrow>
      \<exists>rr t s'. tr begin target cnt s = Inr ((rr, t), s') \<and> ok s' \<and> extends (hist s) (hist s') \<and>
        bound s' \<le> bound s \<and> capacity s' = capacity s \<and> delivers (hist s') begin cnt (length target) rr t"

section \<open>Sessions\<close>

datatype env_action = EnvWrite "cell list" | EnvClose

record 'h session =
  se_sys :: "'h osys"
  se_script :: "env_action list list"
  se_next :: nat

fun env_act :: "'h heap_ops \<Rightarrow> env_action \<Rightarrow> 'h osys \<Rightarrow> 'h osys option" where
  "env_act H (EnvWrite d) s =
     (case ob_write H (os_buf s) d (length d) of
        None \<Rightarrow> None
      | Some (Inl _) \<Rightarrow> Some s
      | Some (Inr b) \<Rightarrow> Some (s\<lparr>os_buf := b, os_hist := os_hist s @ d\<rparr>))"
| "env_act H EnvClose s = map_option (\<lambda>b. s\<lparr>os_buf := b\<rparr>) (ob_close H (os_buf s))"

fun env_run :: "'h heap_ops \<Rightarrow> env_action list \<Rightarrow> 'h osys \<Rightarrow> 'h osys option" where
  "env_run H [] s = Some s"
| "env_run H (a # as) s = (case env_act H a s of None \<Rightarrow> None | Some s' \<Rightarrow> env_run H as s')"

text \<open>The next batch of the script runs before the call.\<close>

definition next_batch :: "'h session \<Rightarrow> env_action list" where
  "next_batch se = (case se_script se of [] \<Rightarrow> [] | b # _ \<Rightarrow> b)"

definition advance :: "'h heap_ops \<Rightarrow> 'h session \<Rightarrow> 'h session option" where
  "advance H se = map_option (\<lambda>s. se\<lparr>se_sys := s, se_script := tl (se_script se)\<rparr>)
     (env_run H (next_batch se) (se_sys se))"

definition ses_tryRead ::
  "'h heap_ops \<Rightarrow> int \<Rightarrow> cell list \<Rightarrow> nat \<Rightarrow> 'h session \<Rightarrow> ((read_result \<times> cell list) \<times> 'h session) res" where
  "ses_tryRead H begin target cnt se0 =
     (case advance H se0 of
        None \<Rightarrow> Inl AssertFailed
      | Some se \<Rightarrow> rbind (ob_tryRead (os_buf (se_sys se)) begin target cnt) (\<lambda>r. Inr (r, se)))"

text \<open>
  A blocked \<open>read\<close> runs the next batch action by action until its request is signalled; when
  the batch is over it times out if it may, otherwise it waits for ever, which is \<open>None\<close>.
\<close>

definition signalled :: "'h osys \<Rightarrow> nat \<Rightarrow> bool" where
  "signalled s i = (case rl_store (os_list s) i of None \<Rightarrow> False | Some r \<Rightarrow> rq_signalled r)"

fun ses_wait ::
  "'h heap_ops \<Rightarrow> nat \<Rightarrow> req_ptr \<Rightarrow> int option \<Rightarrow> cell list \<Rightarrow> env_action list \<Rightarrow> 'h osys \<Rightarrow>
   ((read_result \<times> cell list) \<times> 'h osys) option" where
  "ses_wait H i p to t [] s =
     (case to of
        None \<Rightarrow> None
      | Some _ \<Rightarrow>
          (let (b, rr) = read_timeout H (os_buf s) p
           in Some ((rr, t), s\<lparr>os_buf := b, os_waits := (os_waits s)(i := None)\<rparr>)))"
| "ses_wait H i p to t (a # as) s =
     (case env_act H a s of
        None \<Rightarrow> None
      | Some s1 \<Rightarrow>
          (if signalled s1 i then
             (case (read_wake (os_buf s1) i, env_run H as (s1\<lparr>os_waits := (os_waits s1)(i := None)\<rparr>)) of
                (Some r, Some s2) \<Rightarrow> Some (r, s2)
              | _ \<Rightarrow> None)
           else ses_wait H i p to t as s1))"

definition ses_read ::
  "'h heap_ops \<Rightarrow> int \<Rightarrow> cell list \<Rightarrow> nat \<Rightarrow> int \<Rightarrow> 'h session \<Rightarrow>
   ((read_result \<times> cell list) \<times> 'h session) res option" where
  "ses_read H begin target cnt timeout se0 =
     (case advance H se0 of
        None \<Rightarrow> None
      | Some se \<Rightarrow>
          (case read_enter H (os_buf (se_sys se)) begin target cnt timeout (se_next se) of
             Inl e \<Rightarrow> Some (Inl e)
           | Inr (b, ReadReturns rr t) \<Rightarrow> Some (Inr ((rr, t), se\<lparr>se_sys := (se_sys se)\<lparr>os_buf := b\<rparr>\<rparr>))
           | Inr (b, ReadWaits p to) \<Rightarrow>
               map_option (\<lambda>(r, s). Inr (r, se\<lparr>se_sys := s, se_script := tl (se_script se), se_next := se_next se + 1\<rparr>))
                 (ses_wait H (se_next se) p to target (next_batch se)
                   ((se_sys se)\<lparr>os_buf := b, os_waits := (os_waits (se_sys se))(se_next se \<mapsto> (p, to))\<rparr>))))"

section \<open>Sessions keep the contract\<close>

fun act_bytes :: "env_action \<Rightarrow> nat" where
  "act_bytes (EnvWrite d) = length d"
| "act_bytes EnvClose = 0"

definition batch_bytes :: "env_action list \<Rightarrow> nat" where
  "batch_bytes as = sum_list (map act_bytes as)"

definition se_hist :: "'h session \<Rightarrow> cell list" where
  "se_hist se = os_hist (se_sys se)"

abbreviation se_capacity :: "'h session \<Rightarrow> nat" where
  "se_capacity se \<equiv> ob_maxCapacity (os_buf (se_sys se))"

abbreviation se_closed :: "'h session \<Rightarrow> bool" where
  "se_closed se \<equiv> ob_closed (os_buf (se_sys se))"

text \<open>All bytes there will be: those written and those the script writes.\<close>

definition se_bound :: "'h session \<Rightarrow> nat" where
  "se_bound se = length (se_hist se) + sum_list (map batch_bytes (se_script se))"

definition se_ok :: "'h heap_ops \<Rightarrow> ('h \<Rightarrow> bool) \<Rightarrow> 'h session \<Rightarrow> bool" where
  "se_ok H invar se \<longleftrightarrow>
     os_ok H invar (ob_maxCapacity (os_buf (se_sys se))) (se_sys se) \<and> se_bound se < 2 ^ 63 \<and>
     (\<forall>i \<ge> se_next se. rl_store (os_list (se_sys se)) i = None)"

lemma batch_bytes_simps [simp]: "batch_bytes [] = 0" "batch_bytes (a # as) = act_bytes a + batch_bytes as"
  by (simp_all add: batch_bytes_def)

text \<open>The requests keep their identity, position, count and size of target.\<close>

definition same_request :: "read_request \<Rightarrow> read_request \<Rightarrow> bool" where
  "same_request r r' \<longleftrightarrow> rq_begin r' = rq_begin r \<and> rq_count r' = rq_count r \<and>
     length (rq_target r') = length (rq_target r)"

definition keeps_requests :: "'h reader_list \<Rightarrow> 'h reader_list \<Rightarrow> bool" where
  "keeps_requests rl rl' \<longleftrightarrow> (\<forall>i. rel_option same_request (rl_store rl i) (rl_store rl' i))"

lemma same_request_refl [simp]: "same_request r r"
  by (simp add: same_request_def)

lemma keeps_refl [simp]: "keeps_requests rl rl"
  by (simp add: keeps_requests_def option.rel_refl)

lemma same_request_trans: "same_request x y \<Longrightarrow> same_request y z \<Longrightarrow> same_request x z"
  by (simp add: same_request_def)

lemma keeps_trans:
  assumes "keeps_requests a b" "keeps_requests b c"
  shows "keeps_requests a c"
  unfolding keeps_requests_def
proof
  fix i
  have "rel_option same_request (rl_store a i) (rl_store b i)" "rel_option same_request (rl_store b i) (rl_store c i)"
    using assms unfolding keeps_requests_def by simp_all
  then show "rel_option same_request (rl_store a i) (rl_store c i)"
    by (cases "rl_store a i"; cases "rl_store b i"; cases "rl_store c i") (auto dest: same_request_trans)
qed

lemma keeps_Some:
  "keeps_requests rl rl' \<Longrightarrow> rl_store rl i = Some r \<Longrightarrow> \<exists>r'. rl_store rl' i = Some r' \<and> same_request r r'"
  unfolding keeps_requests_def by (metis option_rel_Some1)

lemma keeps_None: "keeps_requests rl rl' \<Longrightarrow> rl_store rl i = None \<Longrightarrow> rl_store rl' i = None"
  unfolding keeps_requests_def by (metis rel_option_None1)

text \<open>A closed buffer does not change any more.\<close>

lemma env_act_closed: "ob_closed (os_buf s) \<Longrightarrow> env_act H a s = Some s' \<Longrightarrow> s' = s"
  by (cases a) (auto simp: ob_write_def ob_close_def)

lemma env_run_closed: "ob_closed (os_buf s) \<Longrightarrow> env_run H as s = Some s' \<Longrightarrow> s' = s"
  by (induction as arbitrary: s) (auto split: option.splits dest: env_act_closed)

context min_heap
begin

lemma env_act_ok:
  assumes ok: "os_ok H invar m s" and room: "length (os_hist s) + act_bytes a < 2 ^ 63"
  shows "\<exists>s'. env_act H a s = Some s' \<and> os_ok H invar m s' \<and> extends (os_hist s) (os_hist s') \<and>
    length (os_hist s') \<le> length (os_hist s) + act_bytes a \<and>
    keeps_requests (os_list s) (os_list s') \<and> os_waits s' = os_waits s"
proof (cases a)
  case (EnvWrite d)
  note U = os_ok_unpack [OF ok]
  show ?thesis
  proof (cases "ob_closed (os_buf s)")
    case True
    then show ?thesis using EnvWrite ok by (simp add: ob_write_def)
  next
    case False
    have room': "length (os_hist s) + length d < 2 ^ 63" using room EnvWrite by simp
    let ?h = "os_hist s @ d"
    obtain b where b: "ob_write H (os_buf s) d (length d) = Some (Inr b)"
      "rl_store (ob_readerList b) = rl_served H (length ?h) (answer ?h) (os_list s)"
      using write_ok [OF U(3,1,4) False le_refl room'] by auto
    have "os_ok H invar m (s\<lparr>os_buf := b, os_hist := ?h\<rparr>)"
      using os_write_ok [OF ok le_refl room' False] b(1) by auto
    moreover have "rel_option same_request (rl_store (os_list s) i) (rl_store (ob_readerList b) i)" for i
    proof (cases "rl_store (os_list s) i")
      case (Some r)
      have "same_request r ((answer ?h r)\<lparr>rq_signalled := True\<rparr>)"
        if item: "(rq_begin r, i) \<in> set (rl_items H (os_list s))" "rq_begin r < length ?h"
      proof -
        obtain r' where "rl_store (os_list s) i = Some r'" "rq_count r' \<le> length (rq_target r')"
          using ready_item [OF U(4) item(1)] by auto
        then show ?thesis using Some item(2) answer_target_length [of r ?h] by (simp add: same_request_def)
      qed
      then show ?thesis using Some by (simp add: b(2) rl_served_def)
    qed (simp add: b(2) rl_served_def)
    ultimately show ?thesis using EnvWrite b(1) by (simp add: keeps_requests_def)
  qed
next
  case EnvClose
  note U = os_ok_unpack [OF ok]
  obtain b where b: "ob_close H (os_buf s) = Some b" "os_ok H invar m (s\<lparr>os_buf := b\<rparr>)"
    using os_close_ok [OF ok] by blast
  moreover have "keeps_requests (os_list s) (ob_readerList b)"
  proof (cases "ob_closed (os_buf s)")
    case True
    then show ?thesis using b(1) by (simp add: ob_close_def)
  next
    case False
    obtain rl' where rl': "rl_close H (os_list s) = Some rl'"
      "rl_store rl' = (\<lambda>i. if i \<in> snd ` set (rl_items H (os_list s))
        then map_option (\<lambda>r. r\<lparr>rq_result := Closed, rq_signalled := True\<rparr>) (rl_store (os_list s) i)
        else rl_store (os_list s) i)"
      using close_ok [OF U(3,5)] by blast
    have "rel_option same_request (rl_store (os_list s) i) (rl_store rl' i)" for i
      by (cases "rl_store (os_list s) i") (simp_all add: rl'(2) same_request_def)
    then show ?thesis using False b(1) rl'(1) by (auto simp: ob_close_def keeps_requests_def)
  qed
  ultimately show ?thesis using EnvClose by simp
qed

lemma env_run_ok:
  assumes "os_ok H invar m s" "length (os_hist s) + batch_bytes as < 2 ^ 63"
  shows "\<exists>s'. env_run H as s = Some s' \<and> os_ok H invar m s' \<and> extends (os_hist s) (os_hist s') \<and>
    length (os_hist s') \<le> length (os_hist s) + batch_bytes as \<and>
    keeps_requests (os_list s) (os_list s') \<and> os_waits s' = os_waits s"
  using assms
proof (induction as arbitrary: s)
  case (Cons a as)
  obtain s1 where s1: "env_act H a s = Some s1" "os_ok H invar m s1" "extends (os_hist s) (os_hist s1)"
    "length (os_hist s1) \<le> length (os_hist s) + act_bytes a" "keeps_requests (os_list s) (os_list s1)"
    "os_waits s1 = os_waits s"
    using env_act_ok [OF Cons.prems(1), of a] Cons.prems(2) by auto
  obtain s2 where s2: "env_run H as s1 = Some s2" "os_ok H invar m s2" "extends (os_hist s1) (os_hist s2)"
    "length (os_hist s2) \<le> length (os_hist s1) + batch_bytes as" "keeps_requests (os_list s1) (os_list s2)"
    "os_waits s2 = os_waits s1"
    using Cons.IH [OF s1(2)] s1(4) Cons.prems(2) by auto
  show ?case
  proof (intro exI [of _ s2] conjI)
    show "env_run H (a # as) s = Some s2" using s1 s2 by simp
    show "extends (os_hist s) (os_hist s2)" using s1 s2 extends_trans by blast
    show "keeps_requests (os_list s) (os_list s2)" using s1 s2 keeps_trans by blast
    show "length (os_hist s2) \<le> length (os_hist s) + batch_bytes (a # as)" using s1(4) s2(4) by simp
  qed (use s1 s2 in simp_all)
qed (simp add: extends_def)

lemma advance_ok:
  assumes "se_ok H invar se"
  shows "\<exists>se'. advance H se = Some se' \<and> se_ok H invar se' \<and> extends (se_hist se) (se_hist se') \<and>
    se_bound se' \<le> se_bound se \<and> se_next se' = se_next se \<and>
    ob_maxCapacity (os_buf (se_sys se')) = ob_maxCapacity (os_buf (se_sys se)) \<and>
    os_waits (se_sys se') = os_waits (se_sys se) \<and> se_script se' = tl (se_script se)"
proof -
  let ?m = "ob_maxCapacity (os_buf (se_sys se))"
  have ok: "os_ok H invar ?m (se_sys se)" using assms by (simp add: se_ok_def)
  have bound: "se_bound se = length (se_hist se) + batch_bytes (next_batch se) +
      sum_list (map batch_bytes (tl (se_script se)))"
    by (cases "se_script se") (simp_all add: se_bound_def next_batch_def)
  obtain s' where s': "env_run H (next_batch se) (se_sys se) = Some s'" "os_ok H invar ?m s'"
    "extends (os_hist (se_sys se)) (os_hist s')"
    "length (os_hist s') \<le> length (os_hist (se_sys se)) + batch_bytes (next_batch se)"
    "keeps_requests (os_list (se_sys se)) (os_list s')" "os_waits s' = os_waits (se_sys se)"
    using env_run_ok [OF ok, of "next_batch se"] assms bound by (auto simp: se_ok_def se_hist_def)
  have m': "ob_maxCapacity (os_buf s') = ?m" using os_ok_unpack(2) [OF s'(2)] .
  let ?se' = "se\<lparr>se_sys := s', se_script := tl (se_script se)\<rparr>"
  have "se_bound ?se' \<le> se_bound se"
    using s'(4) unfolding bound by (simp add: se_bound_def se_hist_def)
  moreover have "\<forall>i \<ge> se_next se. rl_store (os_list s') i = None"
    using assms keeps_None [OF s'(5)] by (simp add: se_ok_def)
  ultimately have "se_ok H invar ?se'"
    using assms s'(2) m' by (simp add: se_ok_def)
  then show ?thesis
    using s' m' \<open>se_bound ?se' \<le> se_bound se\<close> by (auto simp: advance_def se_hist_def)
qed

end

lemma delivers_result:
  assumes "length t = len" "n \<le> cnt" "k + n \<le> length h" "0 < cnt \<Longrightarrow> 0 < n"
    "0 \<le> begin \<Longrightarrow> nat begin \<le> k" "take n t = take n (drop k h)"
  shows "delivers h begin cnt len (ReadResult k n) t"
  unfolding delivers_def using assms by blast

lemma spec_read_delivers:
  assumes "cnt \<le> length target" "0 < m"
  shows "delivers h begin cnt (length target) (fst (spec_read m h c (spec_begin h begin) target cnt))
      (snd (spec_read m h c (spec_begin h begin) target cnt))"
proof (cases "spec_begin h begin < length h")
  case True
  define k where "k = max (spec_begin h begin) (first_kept m h)"
  define n where "n = min cnt (length h - k)"
  have k: "k < length h" using True assms(2) by (auto simp: k_def first_kept_def)
  then have n: "k + n \<le> length h" "0 < cnt \<Longrightarrow> 0 < n" "n \<le> length target" "n \<le> cnt"
    using assms(1) by (auto simp: n_def)
  have "0 \<le> begin \<Longrightarrow> nat begin \<le> k" by (auto simp: k_def spec_begin_def)
  moreover have "spec_read m h c (spec_begin h begin) target cnt =
      (ReadResult k n, take n (drop k h) @ drop n target)"
    using True by (simp add: spec_read_def k_def n_def Let_def)
  ultimately show ?thesis using n by (simp add: delivers_result)
next
  case False
  then show ?thesis by (simp add: spec_read_def delivers_def)
qed

lemma spec_read_lost:
  "nothing_lost m c h begin (fst (spec_read m h c (spec_begin h begin) target cnt))"
  by (auto simp: nothing_lost_def spec_read_def spec_begin_def first_kept_def Let_def ReadResult_def Closed_def
      Timeout_def max_def min_def split: if_splits)

lemma ring_rel_capacity: "ring_rel b h \<Longrightarrow> 0 < ob_maxCapacity b"
  by (auto simp: ring_rel_def ring_inv_def)

text \<open>The answer of a signalled request, for the read that made it.\<close>

lemma answered_delivers:
  assumes "answered h c r" "rq_count r = cnt" "length (rq_target r) = len" "rq_begin r = k"
    and "0 \<le> begin \<Longrightarrow> k = nat begin"
  shows "delivers h begin cnt len (rq_result r) (rq_target r)"
  using assms unfolding answered_def delivers_def by (metis le_refl)

lemma answered_lost:
  assumes "answered h c r" "rq_begin r = k" "0 \<le> begin \<Longrightarrow> k = nat begin"
  shows "nothing_lost m c h begin (rq_result r)"
  using assms by (auto simp: answered_def nothing_lost_def ReadResult_def Closed_def)

context min_heap
begin

lemma tryRead_ses_ok:
  assumes ok: "se_ok H invar se" and r: "ssize_range begin" and len: "cnt \<le> length target"
  shows "\<exists>rr t se'. ses_tryRead H begin target cnt se = Inr ((rr, t), se') \<and> se_ok H invar se' \<and>
    extends (se_hist se) (se_hist se') \<and> se_bound se' \<le> se_bound se \<and> se_capacity se' = se_capacity se \<and>
    delivers (se_hist se') begin cnt (length target) rr t"
proof -
  obtain se' where se': "advance H se = Some se'" "se_ok H invar se'" "extends (se_hist se) (se_hist se')"
    "se_bound se' \<le> se_bound se" "se_capacity se' = se_capacity se"
    using advance_ok [OF ok] by blast
  have rel: "ring_rel (os_buf (se_sys se')) (se_hist se')"
    using se'(2) os_ok_unpack(1) by (auto simp: se_ok_def se_hist_def)
  define sr where "sr = spec_read (se_capacity se') (se_hist se')
    (ob_closed (os_buf (se_sys se'))) (spec_begin (se_hist se') begin) target cnt"
  have "ses_tryRead H begin target cnt se = Inr ((fst sr, snd sr), se')"
    using se'(1) ob_tryRead_ok [OF rel r len] by (simp add: ses_tryRead_def sr_def)
  moreover have "delivers (se_hist se') begin cnt (length target) (fst sr) (snd sr)"
    unfolding sr_def by (rule spec_read_delivers [OF len ring_rel_capacity [OF rel]])
  ultimately show ?thesis using se' by blast
qed

text \<open>While the reader \<open>i\<close> waits for the byte at \<open>k\<close> or later ones.\<close>

lemma ses_wait_ok:
  assumes "os_ok H invar m s" "length (os_hist s) + batch_bytes as < 2 ^ 63"
    and "os_waits s i = Some ((k, i), to)" "\<not> signalled s i"
    and "rl_store (os_list s) i = Some r" "same_request (ReadRequest k target cnt) r"
    and "0 \<le> begin \<Longrightarrow> k = nat begin"
  shows "(to = None \<and> ses_wait H i (k, i) to target as s = None) \<or>
    (\<exists>rr t s'. ses_wait H i (k, i) to target as s = Some ((rr, t), s') \<and> os_ok H invar m s' \<and>
       extends (os_hist s) (os_hist s') \<and> length (os_hist s') \<le> length (os_hist s) + batch_bytes as \<and>
       delivers (os_hist s') begin cnt (length target) rr t \<and>
       nothing_lost m (ob_closed (os_buf s')) (os_hist s') begin rr \<and> (rr = Timeout \<longrightarrow> to \<noteq> None) \<and>
       (\<forall>j. rl_store (os_list s) j = None \<longrightarrow> rl_store (os_list s') j = None))"
  using assms(1-6)
proof (induction as arbitrary: s r)
  case Nil
  show ?case
  proof (cases to)
    case (Some ms)
    have "rl_store (rl_cancel H (k, i) (os_list s)) = (rl_store (os_list s))(i \<mapsto> r\<lparr>rq_cancelled := True\<rparr>)"
      using cancel_ok(3) [OF os_ok_unpack(3,5) [OF Nil.prems(1)], of "(k, i)" r] Nil.prems(5) by simp
    then show ?thesis using os_timeout_ok(1) [OF Nil.prems(1,3)] Some Nil.prems(5)
      by (simp add: read_timeout_def delivers_def nothing_lost_def ReadResult_def Closed_def Timeout_def)
  qed simp
next
  case (Cons a as)
  obtain s1 where s1: "env_act H a s = Some s1" "os_ok H invar m s1" "extends (os_hist s) (os_hist s1)"
    "length (os_hist s1) \<le> length (os_hist s) + act_bytes a" "keeps_requests (os_list s) (os_list s1)"
    "os_waits s1 = os_waits s"
    using env_act_ok [OF Cons.prems(1), of a] Cons.prems(2) by auto
  obtain r1 where r1: "rl_store (os_list s1) i = Some r1" "same_request r r1"
    using keeps_Some [OF s1(5) Cons.prems(5)] by blast
  have same: "same_request (ReadRequest k target cnt) r1"
    using Cons.prems(6) r1(2) by (simp add: same_request_def)
  have w1: "os_waits s1 i = Some ((k, i), to)" using s1(6) Cons.prems(3) by simp
  have room: "length (os_hist s1) + batch_bytes as < 2 ^ 63" using s1(4) Cons.prems(2) by simp
  show ?case
  proof (cases "signalled s1 i")
    case True
    then have sg: "rq_signalled r1" using r1 by (simp add: signalled_def)
    note wake = os_wake_ok [OF s1(2) w1 r1(1) sg]
    let ?s1' = "s1\<lparr>os_waits := (os_waits s1)(i := None)\<rparr>"
    obtain s2 where s2: "env_run H as ?s1' = Some s2" "os_ok H invar m s2" "extends (os_hist s1) (os_hist s2)"
      "length (os_hist s2) \<le> length (os_hist s1) + batch_bytes as" "keeps_requests (os_list s1) (os_list s2)"
      using env_run_ok [OF wake(1), of as] room by auto
    have "rq_count r1 = cnt" "length (rq_target r1) = length target" and "rq_begin r1 = k"
      using same by (simp_all add: same_request_def ReadRequest_def)
    then have "delivers (os_hist s1) begin cnt (length target) (rq_result r1) (rq_target r1)"
      using answered_delivers [OF wake(2)] assms(7) by blast
    then have "delivers (os_hist s2) begin cnt (length target) (rq_result r1) (rq_target r1)"
      using delivers_extends s2(3) by blast
    moreover have "nothing_lost m (ob_closed (os_buf s2)) (os_hist s2) begin (rq_result r1)"
    proof (rule nothing_lost_extends [OF _ s2(3)])
      show "nothing_lost m (ob_closed (os_buf s1)) (os_hist s1) begin (rq_result r1)"
        using answered_lost [OF wake(2) \<open>rq_begin r1 = k\<close> assms(7)] .
      show "ob_closed (os_buf s2) \<and> os_hist s2 = os_hist s1" if "ob_closed (os_buf s1)"
        using env_run_closed [OF _ s2(1)] that by simp
    qed
    moreover have "rq_result r1 \<noteq> Timeout" using wake(2) by (auto simp: answered_def)
    moreover have "ses_wait H i (k, i) to target (a # as) s = Some ((rq_result r1, rq_target r1), s2)"
      using s1(1) True s2(1) r1(1) by (simp add: read_wake_def)
    moreover have "length (os_hist s2) \<le> length (os_hist s) + batch_bytes (a # as)"
      using s1(4) s2(4) by simp
    ultimately show ?thesis
      using s2(2) extends_trans [OF s1(3) s2(3)] keeps_None [OF keeps_trans [OF s1(5) s2(5)]] by blast
  next
    case False
    have step: "ses_wait H i (k, i) to target (a # as) s = ses_wait H i (k, i) to target as s1"
      using s1(1) False by simp
    show ?thesis
      using Cons.IH [OF s1(2) room w1 False r1(1) same]
    proof (elim disjE exE conjE)
      fix rr t s'
      assume IH: "ses_wait H i (k, i) to target as s1 = Some ((rr, t), s')" "os_ok H invar m s'"
        "extends (os_hist s1) (os_hist s')" "length (os_hist s') \<le> length (os_hist s1) + batch_bytes as"
        "delivers (os_hist s') begin cnt (length target) rr t"
        "nothing_lost m (ob_closed (os_buf s')) (os_hist s') begin rr" "rr = Timeout \<longrightarrow> to \<noteq> None"
        "\<forall>j. rl_store (os_list s1) j = None \<longrightarrow> rl_store (os_list s') j = None"
      have "length (os_hist s') \<le> length (os_hist s) + batch_bytes (a # as)" using IH(4) s1(4) by simp
      then show ?thesis unfolding step
        using IH extends_trans [OF s1(3) IH(3)] keeps_None [OF s1(5)] by blast
    qed (use step in metis)
  qed
qed

end

context min_heap
begin

lemma read_ses_ok:
  assumes ok: "se_ok H invar se" and r: "ssize_range begin" and len: "cnt \<le> length target"
  shows "(timeout \<le> 0 \<and> ses_read H begin target cnt timeout se = None) \<or>
    (\<exists>rr t se'. ses_read H begin target cnt timeout se = Some (Inr ((rr, t), se')) \<and> se_ok H invar se' \<and>
       extends (se_hist se) (se_hist se') \<and> se_bound se' \<le> se_bound se \<and> se_capacity se' = se_capacity se \<and>
       delivers (se_hist se') begin cnt (length target) rr t \<and>
       nothing_lost (se_capacity se') (se_closed se') (se_hist se') begin rr \<and> (rr = Timeout \<longrightarrow> 0 < timeout))"
proof -
  obtain se1 where se1: "advance H se = Some se1" "se_ok H invar se1" "extends (se_hist se) (se_hist se1)"
    "se_bound se1 \<le> se_bound se" "se_capacity se1 = se_capacity se"
    using advance_ok [OF ok] by blast
  define m where "m = se_capacity se1"
  define h where "h = se_hist se1"
  define i where "i = se_next se1"
  define kb where "kb = spec_begin h begin"
  have ok1: "os_ok H invar m (se_sys se1)" using se1(2) by (simp add: se_ok_def m_def)
  have rel: "ring_rel (os_buf (se_sys se1)) h"
    using os_ok_unpack(1) [OF ok1] by (simp add: h_def se_hist_def)
  have fresh: "rl_store (os_list (se_sys se1)) i = None" using se1(2) by (simp add: se_ok_def i_def)
  show ?thesis
  proof (cases "kb < length h \<or> ob_closed (os_buf (se_sys se1))")
    case True
    define sr where "sr = spec_read m h (ob_closed (os_buf (se_sys se1))) kb target cnt"
    have "read_enter H (os_buf (se_sys se1)) begin target cnt timeout i =
        Inr (os_buf (se_sys se1), ReadReturns (fst sr) (snd sr))"
      using read_enter_eq [OF rel r len, of H timeout i] True by (simp add: sr_def m_def kb_def)
    then have "ses_read H begin target cnt timeout se = Some (Inr ((fst sr, snd sr), se1))"
      using se1(1) by (simp add: ses_read_def i_def)
    moreover have "delivers h begin cnt (length target) (fst sr) (snd sr)"
      unfolding sr_def kb_def m_def by (rule spec_read_delivers [OF len ring_rel_capacity [OF rel]])
    moreover have "nothing_lost (se_capacity se1) (se_closed se1) h begin (fst sr)"
      unfolding sr_def kb_def m_def by (rule spec_read_lost)
    moreover have "fst sr \<noteq> Timeout" using True by (auto simp: sr_def spec_read_def Let_def)
    ultimately show ?thesis using se1 unfolding h_def by blast
  next
    case False
    define to where "to = (if timeout \<le> 0 then None else Some timeout)"
    define rl where "rl = rl_add H (kb, i) ((os_list (se_sys se1))\<lparr>rl_store :=
        (rl_store (os_list (se_sys se1)))(i \<mapsto> ReadRequest kb target cnt)\<rparr>)"
    define s where "s = (se_sys se1)\<lparr>os_buf := (os_buf (se_sys se1))\<lparr>ob_readerList := rl\<rparr>,
        os_waits := (os_waits (se_sys se1))(i \<mapsto> ((kb, i), to))\<rparr>"
    have enter: "read_enter H (os_buf (se_sys se1)) begin target cnt timeout i =
        Inr ((os_buf (se_sys se1))\<lparr>ob_readerList := rl\<rparr>, ReadWaits (kb, i) to)"
      using read_enter_eq [OF rel r len, of H timeout i] False by (simp add: rl_def kb_def to_def)
    have oks: "os_ok H invar m s"
      using os_block_ok(1) [OF ok1 len, of kb i to] False fresh
      by (simp add: s_def rl_def h_def se_hist_def)
    have store: "rl_store rl = (rl_store (os_list (se_sys se1)))(i \<mapsto> ReadRequest kb target cnt)"
      by (simp add: rl_def rl_add_def)
    have room: "length (os_hist s) + batch_bytes (next_batch se1) +
        sum_list (map batch_bytes (tl (se_script se1))) = se_bound se1"
      by (cases "se_script se1") (simp_all add: s_def se_bound_def se_hist_def next_batch_def)
    then have room': "length (os_hist s) + batch_bytes (next_batch se1) < 2 ^ 63"
      using se1(2) by (simp add: se_ok_def)
    have pos: "0 \<le> begin \<Longrightarrow> kb = nat begin" by (simp add: kb_def spec_begin_def)
    have W: "os_waits s i = Some ((kb, i), to)" "\<not> signalled s i"
      "rl_store (os_list s) i = Some (ReadRequest kb target cnt)"
      by (simp_all add: s_def signalled_def store ReadRequest_def)
    have run: "ses_read H begin target cnt timeout se =
        map_option (\<lambda>(r, s). Inr (r, se1\<lparr>se_sys := s, se_script := tl (se_script se1), se_next := se_next se1 + 1\<rparr>))
          (ses_wait H i (kb, i) to target (next_batch se1) s)"
      using se1(1) enter by (simp add: ses_read_def i_def s_def)
    have "(to = None \<and> ses_wait H i (kb, i) to target (next_batch se1) s = None) \<or>
      (\<exists>rr t s'. ses_wait H i (kb, i) to target (next_batch se1) s = Some ((rr, t), s') \<and> os_ok H invar m s' \<and>
         extends (os_hist s) (os_hist s') \<and>
         length (os_hist s') \<le> length (os_hist s) + batch_bytes (next_batch se1) \<and>
         delivers (os_hist s') begin cnt (length target) rr t \<and>
         nothing_lost m (ob_closed (os_buf s')) (os_hist s') begin rr \<and> (rr = Timeout \<longrightarrow> to \<noteq> None) \<and>
         (\<forall>j. rl_store (os_list s) j = None \<longrightarrow> rl_store (os_list s') j = None))"
      by (rule ses_wait_ok [OF oks room' W same_request_refl]) (rule pos)
    then show ?thesis
    proof (elim disjE exE conjE)
      assume "to = None" "ses_wait H i (kb, i) to target (next_batch se1) s = None"
      then show ?thesis by (simp add: run to_def split: if_splits)
    next
      fix rr t s'
      assume ws: "ses_wait H i (kb, i) to target (next_batch se1) s = Some ((rr, t), s')" "os_ok H invar m s'"
        "extends (os_hist s) (os_hist s')"
        "length (os_hist s') \<le> length (os_hist s) + batch_bytes (next_batch se1)"
        "delivers (os_hist s') begin cnt (length target) rr t"
        "nothing_lost m (ob_closed (os_buf s')) (os_hist s') begin rr" "rr = Timeout \<longrightarrow> to \<noteq> None"
        "\<forall>j. rl_store (os_list s) j = None \<longrightarrow> rl_store (os_list s') j = None"
      let ?se' = "se1\<lparr>se_sys := s', se_script := tl (se_script se1), se_next := se_next se1 + 1\<rparr>"
      have m': "ob_maxCapacity (os_buf s') = m" using os_ok_unpack(2) [OF ws(2)] .
      have bound: "se_bound ?se' \<le> se_bound se1"
        using ws(4) unfolding room [symmetric] by (simp add: se_bound_def se_hist_def)
      have "rl_store (os_list s') j = None" if "se_next se1 + 1 \<le> j" for j
      proof -
        have "j \<noteq> i" using that by (simp add: i_def)
        then have "rl_store (os_list s) j = None"
          using that se1(2) by (simp add: s_def store se_ok_def)
        then show ?thesis using ws(8) by blast
      qed
      then have ok': "se_ok H invar ?se'" using ws(2) m' bound se1(2) by (simp add: se_ok_def)
      have "extends (se_hist se) (se_hist ?se')"
        using extends_trans [OF se1(3)] ws(3) by (simp add: se_hist_def s_def)
      moreover have "rr = Timeout \<longrightarrow> 0 < timeout" using ws(7) by (auto simp: to_def split: if_splits)
      moreover have "ses_read H begin target cnt timeout se = Some (Inr ((rr, t), ?se'))"
        by (simp add: run ws(1))
      ultimately show ?thesis
        using ok' bound se1(4,5) ws(5,6) m' by (intro disjI2 exI [of _ rr] exI [of _ t] exI [of _ ?se'])
          (simp add: se_hist_def m_def)
    qed
  qed
qed

end

sublocale min_heap < ses: output_source se_hist se_capacity se_bound "se_ok H invar" "ses_tryRead H"
proof
  fix s assume "se_ok H invar s"
  then show "length (se_hist s) \<le> se_bound s \<and> se_bound s < 2 ^ 63"
    by (simp add: se_ok_def se_bound_def)
next
  fix s "begin" cnt and target :: "cell list"
  assume "se_ok H invar s" "ssize_range begin" "cnt \<le> length target"
  then show "\<exists>rr t s'. ses_tryRead H begin target cnt s = Inr ((rr, t), s') \<and> se_ok H invar s' \<and>
      extends (se_hist s) (se_hist s') \<and> se_bound s' \<le> se_bound s \<and> se_capacity s' = se_capacity s \<and>
      delivers (se_hist s') begin cnt (length target) rr t"
    by (rule tryRead_ses_ok)
qed

end
