(* ===== verification/SavedOutput.thy ===== *)
theory SavedOutput
  imports IOController Utils BufferClient
begin

text \<open>
  What \<open>MainApp::runApp\<close> writes to the output file once the program has ended and the buffer is
  closed (src/src/main.cpp): a line that says how much was discarded, then all that was kept.
\<close>

section \<open>Writing the file\<close>

definition discard_header :: "(nat \<Rightarrow> nat \<Rightarrow> string) \<Rightarrow> (nat \<Rightarrow> string) \<Rightarrow> nat \<Rightarrow> nat \<Rightarrow> string res" where
  "discard_header fmt2 dec writtenBytes bufSize =
     (if writtenBytes > bufSize then
        (let dSize = sz_sub writtenBytes bufSize in
         rbind (formatSize fmt2 dec dSize) (\<lambda>dSizeFormatted.
           if dSizeFormatted \<noteq> [] \<and> last dSizeFormatted \<noteq> CHR ''B''
           then Inr (''['' @ dec dSize @ '' ('' @ dSizeFormatted @ '') bytes discarded]'' @ endl)
           else Inr (''['' @ dec dSize @ '' bytes discarded]'' @ endl)))
      else Inr [])"

text \<open>The loop; \<open>None\<close> is a call of \<open>read\<close> that blocks for ever, or a loop that never ends.\<close>

partial_function (option) save_loop ::
  "'h heap_ops \<Rightarrow> nat \<Rightarrow> nat \<Rightarrow> nat \<Rightarrow> cell list \<Rightarrow> cell list \<Rightarrow> 'h output_buffer \<Rightarrow> cell list res option" where
  "save_loop H bufferSize i begin buffer out b =
     (case read_enter H b (to_ssize begin) buffer bufferSize 0 i of
        Inl e \<Rightarrow> Some (Inl e)
      | Inr (b', ReadWaits p to) \<Rightarrow> None
      | Inr (b', ReadReturns readResult t) \<Rightarrow>
          (if rr_isClosed readResult then Some (Inr out)
           else save_loop H bufferSize i (sz_add (rr_begin readResult) (rr_count readResult)) t
                  (out @ take (rr_count readResult) t) b'))"

definition save_output ::
  "'h heap_ops \<Rightarrow> (nat \<Rightarrow> nat \<Rightarrow> string) \<Rightarrow> (nat \<Rightarrow> string) \<Rightarrow> nat \<Rightarrow> 'h output_buffer \<Rightarrow> cell list res option" where
  "save_output H fmt2 dec i b =
     (case discard_header fmt2 dec (ob_writtenBytes b) (ob_size b) of
        Inl e \<Rightarrow> Some (Inl e)
      | Inr header \<Rightarrow> save_loop H 8192 i 0 (malloc 8192) (htext header) b)"

text \<open>What \<open>runApp\<close> does when the IO thread has ended: it closes the buffer and saves the output.\<close>

definition finish_output ::
  "'h heap_ops \<Rightarrow> (nat \<Rightarrow> nat \<Rightarrow> string) \<Rightarrow> (nat \<Rightarrow> string) \<Rightarrow> nat \<Rightarrow> 'h osys \<Rightarrow> cell list res option" where
  "finish_output H fmt2 dec i s =
     (case ob_close H (os_buf s) of
        None \<Rightarrow> None
      | Some b \<Rightarrow> save_output H fmt2 dec i b)"

section \<open>The file is the kept part of the history\<close>

lemma save_loop_ok:
  assumes rel: "ring_rel b h" and closed: "ob_closed b" and size: "length buffer = n" "0 < n"
    and k: "k \<le> length h"
  shows "save_loop H n i k buffer out b = Some (Inr (out @ drop (max k (first_kept (ob_maxCapacity b) h)) h))"
  using size(1) k
proof (induction "length h - k" arbitrary: k buffer out rule: less_induct)
  case less
  define m where "m = ob_maxCapacity b"
  have h: "length h < 2 ^ 63" using rel by (simp add: ring_rel_def)
  have m: "0 < m" using ring_rel_capacity [OF rel] by (simp add: m_def)
  have k: "to_ssize k = int k" "ssize_range (int k)" "spec_begin h (int k) = k"
    using less.prems(2) h by (simp_all add: to_ssize_def SIZE_MOD_def ssize_range_def spec_begin_def)
  have enter: "read_enter H b (to_ssize k) buffer n 0 i =
      Inr (b, ReadReturns (fst (spec_read m h True k buffer n)) (snd (spec_read m h True k buffer n)))"
    using read_enter_eq [OF rel k(2), of n buffer H 0 i] less.prems(1) closed by (simp add: k m_def)
  show ?case
  proof (cases "k < length h")
    case False
    then have "spec_read m h True k buffer n = (Closed, buffer)" by (simp add: spec_read_def)
    then show ?thesis using enter less.prems(2) False by (subst save_loop.simps) (simp add: Closed_def)
  next
    case True
    define b0 where "b0 = max k (first_kept m h)"
    define c where "c = min n (length h - b0)"
    have b0: "b0 < length h" using True m by (auto simp: b0_def first_kept_def)
    have c: "0 < c" "b0 + c \<le> length h" using b0 size(2) by (auto simp: c_def)
    let ?t = "take c (drop b0 h) @ drop c buffer"
    have read: "spec_read m h True k buffer n = (ReadResult b0 c, ?t)"
      using True by (simp add: spec_read_def b0_def c_def Let_def)
    have t: "length ?t = n" "take c ?t = take c (drop b0 h)"
      using c less.prems(1) by (auto simp: c_def)
    have "save_loop H n i k buffer out b = save_loop H n i (b0 + c) ?t (out @ take c (drop b0 h)) b"
      using enter read t(2) c(2) h
      by (subst save_loop.simps) (simp add: ReadResult_def sz_add_eq SIZE_MOD_def)
    also have "\<dots> = Some (Inr ((out @ take c (drop b0 h)) @ drop (max (b0 + c) (first_kept m h)) h))"
      unfolding m_def by (rule less.hyps) (use b0 c t(1) True in \<open>auto simp: b0_def\<close>)
    also have "(out @ take c (drop b0 h)) @ drop (max (b0 + c) (first_kept m h)) h = out @ drop b0 h"
      by (simp add: max_def b0_def) (metis append_take_drop_id drop_drop add.commute)
    finally show ?thesis by (simp add: b0_def m_def)
  qed
qed

text \<open>The line that tells the reader of the file that \<open>d\<close> bytes are missing.\<close>

definition header_spec :: "(nat \<Rightarrow> nat \<Rightarrow> string) \<Rightarrow> (nat \<Rightarrow> string) \<Rightarrow> nat \<Rightarrow> string" where
  "header_spec fmt2 dec d =
     (if d = 0 then []
      else if d < 1000 then ''['' @ dec d @ '' bytes discarded]'' @ endl
      else ''['' @ dec d @ '' ('' @ projr (formatSize fmt2 dec d) @ '') bytes discarded]'' @ endl)"

lemma discard_header_ok:
  assumes "ring_rel b h"
  shows "discard_header fmt2 dec (ob_writtenBytes b) (ob_size b) =
    Inr (header_spec fmt2 dec (first_kept (ob_maxCapacity b) h))"
proof (cases "first_kept (ob_maxCapacity b) h = 0")
  case True
  then show ?thesis using assms by (simp add: ring_rel_def discard_header_def header_spec_def first_kept_def)
next
  case False
  define d where "d = first_kept (ob_maxCapacity b) h"
  have gt: "ob_size b < ob_writtenBytes b" and sub: "sz_sub (ob_writtenBytes b) (ob_size b) = d"
    using assms False by (auto simp: ring_rel_def first_kept_def d_def sz_sub_eq SIZE_MOD_def)
  obtain p c where f: "formatSize fmt2 dec d = Inr (p @ [c])" "c = CHR ''B'' \<longleftrightarrow> d < 1000"
    using formatSize_last by blast
  show ?thesis
    using False gt f unfolding discard_header_def header_spec_def d_def [symmetric] sub by simp
qed

lemma save_output_ok:
  assumes "ring_rel b h" "ob_closed b"
  shows "save_output H fmt2 dec i b = Some (Inr (htext (header_spec fmt2 dec (first_kept (ob_maxCapacity b) h)) @
    drop (first_kept (ob_maxCapacity b) h) h))"
  using save_loop_ok [OF assms, of "malloc 8192" 8192 0] discard_header_ok [OF assms(1)]
  by (simp add: save_output_def)

lemma finish_output_ok:
  assumes "min_heap H invar" "0 < m" "m < 2 ^ 63" "0 < c" "os_reachable H m c s"
  shows "let d = length (os_hist s) - m
    in finish_output H fmt2 dec i s = Some (Inr (htext (header_spec fmt2 dec d) @ drop d (os_hist s)))"
proof -
  have "os_ok H invar m s"
    using min_heap.os_reachable_inv [OF assms(1,5,2-4)] by (simp add: os_inv_def)
  then obtain b where b: "ob_close H (os_buf s) = Some b" "ob_closed b" "os_ok H invar m (s\<lparr>os_buf := b\<rparr>)"
    using min_heap.os_close_ok [OF assms(1)] by blast
  have "ring_rel b (os_hist s)" "ob_maxCapacity b = m"
    using min_heap.os_ok_unpack(1,2) [OF assms(1) b(3)] by simp_all
  moreover have "first_kept m (os_hist s) = length (os_hist s) - m" by (simp add: first_kept_def)
  ultimately show ?thesis using b(1,2) save_output_ok [of b] by (simp add: finish_output_def Let_def)
qed

section \<open>Properties\<close>

text \<open>C3: The output file is complete, whatever the readers of the buffer do meanwhile: the IO thread never
  ends by an exception and can always go on with what the next call of \<open>readOutput\<close> returns; and when
  the buffer is then closed and saved, that ends too, without an exception, and the file holds the last
  bytes of all that was captured, as many as the buffer keeps, after a line with the number of those
  discarded, if any.\<close>

theorem saved_file_complete:
  assumes "min_heap H invar" "0 < m" "m < 2 ^ 63" "0 < c"
    and "os_reachable H m c s" "\<not> ob_closed (os_buf s)"
    and "io_exec H bufferSize (IoReading, s) out (pc, s')"
  shows "(\<forall>e. pc \<noteq> IoThrew e) \<and>
    (pc = IoReading \<longrightarrow> (\<forall>r. read_ok bufferSize r \<and> length (os_hist s') + nat (fst r) < 2 ^ 63 \<longrightarrow>
      (\<exists>y. io_step H bufferSize (pc, s') (chunk r) y))) \<and>
    (let h = os_hist s @ out; d = length h - m
     in finish_output H fmt2 dec i s' = Some (Inr (htext (header_spec fmt2 dec d) @ drop d h)))"
proof -
  have S: "pc = IoReading \<or> pc = IoEnded" "os_reachable H m c s'" "\<not> ob_closed (os_buf s')" "os_hist s' = os_hist s @ out"
    using io_exec_ok [OF assms(1-4,7) refl assms(5,6)] by simp_all
  have "\<exists>y. io_step H bufferSize (IoReading, s') (chunk r) y"
    if "read_ok bufferSize r" "length (os_hist s') + nat (fst r) < 2 ^ 63" for r
    using io_round [OF assms(1-4) S(2,3) that] io_step.round [OF that] by blast
  then show ?thesis using S(1) finish_output_ok [OF assms(1-4) S(2)] by (auto simp: S(4))
qed

lemma saved_file_complete_witness:
  "\<exists>pc s'. io_exec pairing_heap 3 (IoReading, os_init pairing_heap 2 1) (map Some [1, 2, 3]) (pc, s') \<and>
    finish_output pairing_heap (\<lambda>_ _. ''1.00'') (\<lambda>_. ''1'') 0 s' =
      Some (Inr (htext (''[1 bytes discarded]'' @ endl) @ map Some [2, 3]))"
proof -
  let ?s = "os_init pairing_heap 2 1" and ?r = "(3, map Some [1, 2, 3]) :: int \<times> cell list"
  have s: "os_reachable pairing_heap 2 1 ?s" "\<not> ob_closed (os_buf ?s)" "os_hist ?s = []"
    by (rule os_reachable.init) (simp_all add: os_init_def OutputBuffer_new_def)
  have r: "read_ok 3 ?r" "length (os_hist ?s) + nat (fst ?r) < 2 ^ 63" "chunk ?r = map Some [1, 2, 3]"
    by (simp_all add: read_ok_def os_init_def chunk_def)
  obtain pc s' where "io_run pairing_heap [?r] ?s = Some (pc, s')"
    using io_round [OF ph.min_heap_axioms _ _ _ s(1,2) r(1,2)] by auto
  from io_exec.more [OF io_exec.nothing io_step.round [OF r(1,2) this]]
  have run: "io_exec pairing_heap 3 (IoReading, ?s) (map Some [1, 2, 3]) (pc, s')"
    unfolding r(3) by (simp only: append_Nil)
  have "header_spec (\<lambda>_ _. ''1.00'') (\<lambda>_. ''1'') 1 = ''[1 bytes discarded]'' @ endl" by (simp add: header_spec_def)
  then show ?thesis
    using run saved_file_complete [OF ph.min_heap_axioms _ _ _ s(1,2) run, of "\<lambda>_ _. ''1.00''" "\<lambda>_. ''1''" 0]
    by (auto simp: s(3) [unfolded One_nat_def] Let_def)
qed

end
