(* ===== verification/ProgramExecutor.thy ===== *)
theory ProgramExecutor
  imports Prelude
begin

unbundle bit_operations_syntax

text \<open>
  The class \<open>ProgramExecutor\<close> (src/src/ProgramExecutor.h, src/src/ProgramExecutor.cpp), which
  forks the user program, waits for it on a background thread and kills it. First the object and
  its operations, one function per critical section; the theory \<open>ExecutorSystem\<close> interleaves them.
  What the operating system answers (\<open>pipe\<close>, \<open>fork\<close>, \<open>chdir\<close>, \<open>execvp\<close>, \<open>waitpid\<close>) is an
  argument; the system calls made are logged in \<open>pe_calls\<close>.
\<close>

section \<open>State\<close>

datatype ProgramStatus = NOT_STARTED | RUNNING | EXITED | SIGNALLED | CANNOT_KILL

datatype sys_call =
    SysClose int
  | SysDup2 int int
  | SysChdir string
  | SysExecvp string "string list"
  | SysExit int
  | SysKill int int

text \<open>A \<open>std::map\<close> of strings, as the list of its entries.\<close>

type_synonym environ_map = "(string \<times> string) list"

record executor =
  pe_captureOutput :: bool
  pe_loggingTag :: string
  pe_args :: "string list"
  pe_environ :: environ_map
  pe_workDir :: string
  pe_status :: ProgramStatus
  pe_waitStatus :: "32 word"
  pe_processId :: int
  pe_pipeFd :: int
  pe_calls :: "sys_call list"

definition SIGINT :: int where "SIGINT = 2"

definition SIGKILL :: int where "SIGKILL = 9"

definition sys :: "sys_call list \<Rightarrow> executor \<Rightarrow> executor" where
  "sys cs ex = ex\<lparr>pe_calls := pe_calls ex @ cs\<rparr>"

definition ProgramExecutor_new ::
  "string list \<Rightarrow> environ_map \<Rightarrow> string \<Rightarrow> bool \<Rightarrow> string \<Rightarrow> executor res" where
  "ProgramExecutor_new args environMap workDir captureOutput loggingTag =
     (if args = [] then Inl (InvalidArgument ''`args` must not be empty.'')
      else Inr \<lparr>pe_captureOutput = captureOutput, pe_loggingTag = loggingTag, pe_args = args,
        pe_environ = environMap, pe_workDir = workDir, pe_status = NOT_STARTED, pe_waitStatus = 0,
        pe_processId = - 1, pe_pipeFd = 0, pe_calls = []\<rparr>)"

section \<open>Wait statuses\<close>

text \<open>The macros of \<open><sys/wait.h>\<close>; \<open>WIFSIGNALED\<close> shifts a \<open>signed char\<close>.\<close>

definition WTERMSIG :: "32 word \<Rightarrow> int" where
  "WTERMSIG status = uint (status AND 0x7F)"

definition WEXITSTATUS :: "32 word \<Rightarrow> int" where
  "WEXITSTATUS status = uint (drop_bit 8 (status AND 0xFF00))"

definition WIFEXITED :: "32 word \<Rightarrow> bool" where
  "WIFEXITED status \<longleftrightarrow> WTERMSIG status = 0"

definition WIFSIGNALED :: "32 word \<Rightarrow> bool" where
  "WIFSIGNALED status \<longleftrightarrow>
     sint (signed_drop_bit 1 (ucast ((status AND 0x7F) + 1) :: 8 word)) > 0"

definition exitCode :: "executor \<Rightarrow> int" where
  "exitCode ex = (if pe_status ex = EXITED then WEXITSTATUS (pe_waitStatus ex) else - 1)"

definition exitSignal :: "executor \<Rightarrow> int" where
  "exitSignal ex = (if pe_status ex = SIGNALLED then WTERMSIG (pe_waitStatus ex) else - 1)"

section \<open>Starting\<close>

text \<open>
  \<open>char*\<close> values: the array that \<open>start\<close> hands to \<open>execvp\<close> is filled cell by cell.
\<close>

datatype char_ptr = Uninit | Nullptr | CStr string

definition copyAsCString :: "string \<Rightarrow> string" where
  "copyAsCString s = s @ [CHR 0x00]"

text \<open>What a reader of the C string sees: everything before the first NUL.\<close>

definition c_str :: "string \<Rightarrow> string" where
  "c_str = takeWhile (\<lambda>c. c \<noteq> CHR 0x00)"

definition program_args :: "string list \<Rightarrow> char_ptr list" where
  "program_args args =
     (let a0 = (replicate (length args + 1) Uninit)
                 [0 := CStr (copyAsCString (args ! 0)), length args := Nullptr]
      in fold (\<lambda>i a. a[i := CStr (copyAsCString (args ! i))]) [1..<length args] a0)"

text \<open>What \<open>execvp\<close> reads from the array: the strings up to the null pointer.\<close>

fun read_argv :: "char_ptr list \<Rightarrow> string list res" where
  "read_argv [] = Inl OutOfBounds"
| "read_argv (Nullptr # ps) = Inr []"
| "read_argv (CStr s # ps) = rbind (read_argv ps) (\<lambda>as. Inr (c_str s # as))"
| "read_argv (Uninit # ps) = Inl OutOfBounds"

definition getDefaultEnvironMap :: environ_map where
  "getDefaultEnvironMap = [(''PYTHONUNBUFFERED'', ''1'')]"

text \<open>
  The environment of the child: the defaults that are not set yet, then the entries given.
\<close>

definition child_environ :: "environ_map \<Rightarrow> (string \<Rightarrow> string option) \<Rightarrow> (string \<Rightarrow> string option)" where
  "child_environ environMap env0 =
     (let env1 = fold (\<lambda>(k, v) env. if env k = None then env(k \<mapsto> v) else env) getDefaultEnvironMap env0
      in fold (\<lambda>(k, v) env. env(k \<mapsto> v)) environMap env1)"

record child_run =
  cr_calls :: "sys_call list"
  cr_environ :: "string \<Rightarrow> string option"

text \<open>
  The child's side of \<open>start\<close>: \<open>chdirOk\<close> and \<open>execOk\<close> are what the two calls return. A successful
  \<open>execvp\<close> does not return.
\<close>

definition start_child ::
  "executor \<Rightarrow> int \<times> int \<Rightarrow> (string \<Rightarrow> string option) \<Rightarrow> bool \<Rightarrow> bool \<Rightarrow> child_run res" where
  "start_child ex pfd env0 chdirOk execOk =
     (let redirect = (if pe_captureOutput ex
            then [SysClose (fst pfd), SysDup2 (snd pfd) 1, SysDup2 (snd pfd) 2] else []);
          chdir = (if pe_workDir ex \<noteq> [] then [SysChdir (c_str (copyAsCString (pe_workDir ex)))] else [])
      in if pe_workDir ex \<noteq> [] \<and> \<not> chdirOk
         then Inr \<lparr>cr_calls = redirect @ chdir @ [SysExit (- 1)], cr_environ = env0\<rparr>
         else
           (let programFile = copyAsCString (pe_args ex ! 0) in
            rbind (read_argv (program_args (pe_args ex))) (\<lambda>argv.
              Inr \<lparr>cr_calls = redirect @ chdir @ [SysExecvp (c_str programFile) argv] @
                     (if execOk then [] else [SysExit (- 1)]),
                   cr_environ = child_environ (pe_environ ex) env0\<rparr>)))"

text \<open>
  The parent's side: \<open>pip\<close> is what \<open>pipe\<close> returns (\<open>None\<close> for a failure, then \<open>err\<close> is the message),
  \<open>forkRet\<close> the value of \<open>fork\<close>, which is not 0 in the parent. It also starts the background
  thread that runs \<open>_waitInBackground\<close>.
\<close>

definition start_parent ::
  "(int \<times> int) option \<Rightarrow> string \<Rightarrow> int \<Rightarrow> executor \<Rightarrow> executor res" where
  "start_parent pip err forkRet ex =
     (if pe_status ex \<noteq> NOT_STARTED then Inl (IllegalState ''Process is already started.'')
      else if pe_captureOutput ex \<and> pip = None then Inl (SystemError (''Failed to open pipe: '' @ err))
      else
        (let pfd = (if pe_captureOutput ex then the pip else (0, 0));
             ex1 = ex\<lparr>pe_processId := forkRet\<rparr>;
             ex2 = (if pe_captureOutput ex
                    then (sys [SysClose (snd pfd)] ex1)\<lparr>pe_pipeFd := fst pfd\<rparr> else ex1)
         in Inr (ex2\<lparr>pe_status := RUNNING\<rparr>)))"

section \<open>Waiting and killing\<close>

text \<open>
  The critical section of \<open>_waitInBackground\<close>, given what \<open>waitpid\<close> returned. The flag says
  whether \<open>_waitCond\<close> is broadcast.
\<close>

definition wait_publish :: "int \<Rightarrow> 32 word \<Rightarrow> executor \<Rightarrow> executor \<times> bool" where
  "wait_publish waitRet status ex =
     (if waitRet > 0 then
        (if WIFEXITED status then (ex\<lparr>pe_status := EXITED, pe_waitStatus := status\<rparr>, True)
         else if WIFSIGNALED status then (ex\<lparr>pe_status := SIGNALLED, pe_waitStatus := status\<rparr>, True)
         else (ex, False))
      else (ex, False))"

text \<open>What \<open>wait\<close> does when it holds the mutex: return, or block (for ever, or for some time).\<close>

datatype wait_step = WaitReturns bool | WaitBlocks "int option"

definition wait_enter :: "int \<Rightarrow> executor \<Rightarrow> wait_step res" where
  "wait_enter timeout ex =
     (if pe_status ex = NOT_STARTED then Inl (IllegalState ''Program has not started.'')
      else if pe_status ex = RUNNING
        then Inr (WaitBlocks (if timeout \<le> 0 then None else Some timeout))
      else Inr (WaitReturns True))"

definition killIfRunning :: "int \<Rightarrow> executor \<Rightarrow> executor" where
  "killIfRunning signal ex =
     (if pe_status ex = RUNNING then sys [SysKill (pe_processId ex) signal] ex else ex)"

text \<open>The last resort of \<open>kill\<close>; it also broadcasts \<open>_waitCond\<close>.\<close>

definition give_up :: "executor \<Rightarrow> executor" where
  "give_up ex = sys [SysClose (pe_pipeFd ex)] (ex\<lparr>pe_status := CANNOT_KILL\<rparr>)"

text \<open>The default waits of \<open>kill\<close>, in seconds.\<close>

definition KILL_PROGRAM_FIRST_WAIT_SECONDS :: int where
  [simp]: "KILL_PROGRAM_FIRST_WAIT_SECONDS = 10"

definition KILL_PROGRAM_SECOND_WAIT_SECONDS :: int where
  [simp]: "KILL_PROGRAM_SECOND_WAIT_SECONDS = 20"

definition KILL_PROGRAM_FINAL_WAIT_SECONDS :: int where
  [simp]: "KILL_PROGRAM_FINAL_WAIT_SECONDS = 60"

text \<open>The waits of the argumentless \<open>kill\<close>; \<open>tryParse\<close> is \<open>Poco::NumberParser::tryParse\<close>.\<close>

definition tryParseEnv ::
  "(string \<Rightarrow> int option) \<Rightarrow> (string \<Rightarrow> string option) \<Rightarrow> string \<Rightarrow> int \<Rightarrow> int" where
  "tryParseEnv tryParse env key defaultValue =
     (case env key of
        None \<Rightarrow> defaultValue
      | Some v \<Rightarrow> (case tryParse v of None \<Rightarrow> defaultValue | Some n \<Rightarrow> n))"

definition kill_waits ::
  "(string \<Rightarrow> int option) \<Rightarrow> (string \<Rightarrow> string option) \<Rightarrow> int \<times> int \<times> int" where
  "kill_waits tryParse env =
     (tryParseEnv tryParse env ''ML_GRIDENGINE_KILL_PROGRAM_FIRST_WAIT_SECONDS'' KILL_PROGRAM_FIRST_WAIT_SECONDS,
      tryParseEnv tryParse env ''ML_GRIDENGINE_KILL_PROGRAM_SECOND_WAIT_SECONDS'' KILL_PROGRAM_SECOND_WAIT_SECONDS,
      tryParseEnv tryParse env ''ML_GRIDENGINE_KILL_PROGRAM_FINAL_WAIT_SECONDS'' KILL_PROGRAM_FINAL_WAIT_SECONDS)"

text \<open>
  Reading the output: \<open>rd\<close> is the system call \<open>read\<close>, which gives the number of bytes and the array.
\<close>

definition readOutput ::
  "(int \<Rightarrow> cell list \<Rightarrow> nat \<Rightarrow> int \<times> cell list) \<Rightarrow> executor \<Rightarrow> cell list \<Rightarrow> nat \<Rightarrow> int \<times> cell list" where
  "readOutput rd ex target cnt = rd (pe_pipeFd ex) target cnt"

text \<open>
  The destructor: \<open>kill\<close> is the method (theory \<open>ExecutorSystem\<close> has its steps), \<open>joined\<close> what \<open>tryJoin(3000)\<close> gives
  for the background thread. The second result is the warning that is logged.
\<close>

definition ProgramExecutor_destroy ::
  "(executor \<Rightarrow> executor) \<Rightarrow> bool \<Rightarrow> executor \<Rightarrow> executor \<times> string option" where
  "ProgramExecutor_destroy kill joined ex =
     ((if pe_status ex = RUNNING then kill ex else ex),
      (if \<not> joined then Some ''The background waiting thread cannot be stopped.'' else None))"

section \<open>Properties\<close>

lemma fold_list_update:
  "length (fold (\<lambda>i a. a[i := f i]) [m..<n] a0) = length a0 \<and>
   (\<forall>i < length a0. fold (\<lambda>i a. a[i := f i]) [m..<n] a0 ! i = (if m \<le> i \<and> i < n then f i else a0 ! i))"
proof (induction n)
  case (Suc n)
  then show ?case by (cases "m \<le> n") (auto simp: nth_list_update less_Suc_eq)
qed simp

lemma program_args_eq:
  assumes "args \<noteq> []"
  shows "program_args args = map (CStr \<circ> copyAsCString) args @ [Nullptr]"
proof -
  let ?n = "length args"
  define a0 where "a0 = (replicate (?n + 1) Uninit)[0 := CStr (copyAsCString (args ! 0)), ?n := Nullptr]"
  have a0: "length a0 = ?n + 1" "a0 ! 0 = CStr (copyAsCString (args ! 0))" "a0 ! ?n = Nullptr"
    using assms unfolding a0_def by (simp_all only: length_list_update length_replicate nth_list_update) simp_all
  have "program_args args = fold (\<lambda>i a. a[i := CStr (copyAsCString (args ! i))]) [1..<?n] a0"
    by (simp add: program_args_def a0_def Let_def)
  then have P: "length (program_args args) = ?n + 1"
    "\<And>i. i < ?n + 1 \<Longrightarrow> program_args args ! i =
      (if 1 \<le> i \<and> i < ?n then CStr (copyAsCString (args ! i)) else a0 ! i)"
    using fold_list_update [of "\<lambda>i. CStr (copyAsCString (args ! i))" 1 ?n a0] a0(1) by simp_all
  show ?thesis
  proof (rule nth_equalityI)
    fix i assume "i < length (program_args args)"
    then have "i < ?n \<or> i = ?n" using P(1) by auto
    then show "program_args args ! i = (map (CStr \<circ> copyAsCString) args @ [Nullptr]) ! i"
      using P(2) a0 assms by (cases "i = 0") (auto simp: nth_append)
  qed (simp add: P(1))
qed

lemma read_argv_map: "read_argv (map (CStr \<circ> f) xs @ [Nullptr]) = Inr (map (c_str \<circ> f) xs)"
  by (induction xs) simp_all

lemma c_str_copy: "CHR 0x00 \<notin> set s \<Longrightarrow> c_str (copyAsCString s) = s"
  by (auto simp: c_str_def copyAsCString_def takeWhile_append)

lemma fold_put: "fold (\<lambda>(k, v) env. env(k \<mapsto> v)) xs m k =
    (case map_of (rev xs) k of None \<Rightarrow> m k | Some v \<Rightarrow> Some v)"
  by (induction xs arbitrary: m) (auto simp: map_add_def split: option.splits)

text \<open>The wait statuses that the kernel reports.\<close>

definition exit_status :: "int \<Rightarrow> 32 word" where
  "exit_status c = word_of_int (c * 256)"

definition signal_status :: "int \<Rightarrow> bool \<Rightarrow> 32 word" where
  "signal_status s core = word_of_int (s + (if core then 128 else 0))"

lemma exit_status_macros:
  "c \<in> {0..255} \<Longrightarrow> WTERMSIG (exit_status c) = 0 \<and> WEXITSTATUS (exit_status c) = c"
proof -
  have "\<forall>c \<in> set [0..255]. WTERMSIG (exit_status c) = 0 \<and> WEXITSTATUS (exit_status c) = c"
    by code_simp
  then show "c \<in> {0..255} \<Longrightarrow> WTERMSIG (exit_status c) = 0 \<and> WEXITSTATUS (exit_status c) = c"
    unfolding set_upto by blast
qed

lemma signal_status_macros:
  "s \<in> {1..126} \<Longrightarrow> WTERMSIG (signal_status s core) = s \<and> WIFSIGNALED (signal_status s core)"
proof -
  have "\<forall>s \<in> set [1..126]. \<forall>core \<in> {True, False}.
      WTERMSIG (signal_status s core) = s \<and> WIFSIGNALED (signal_status s core)"
    by code_simp
  moreover have "core \<in> {True, False}" by simp
  ultimately show "s \<in> {1..126} \<Longrightarrow>
      WTERMSIG (signal_status s core) = s \<and> WIFSIGNALED (signal_status s core)"
    unfolding set_upto by blast
qed

text \<open>C23: What the parent reports is what the child did: once \<open>_waitInBackground\<close> has got a wait status
  that stands for an exit with code \<open>c\<close>, the object is \<open>EXITED\<close> with \<open>exitCode\<close> \<open>c\<close> and no
  \<open>exitSignal\<close>; for a death by signal \<open>s\<close>, with or without a core dump, it is \<open>SIGNALLED\<close> with
  \<open>exitSignal\<close> \<open>s\<close> and no \<open>exitCode\<close>. Both wake every waiter.\<close>

theorem exit_reported:
  assumes "0 < pid" "c \<in> {0..255}" "s \<in> {1..126}"
  shows "(\<exists>ex'. wait_publish pid (exit_status c) ex = (ex', True) \<and>
      pe_status ex' = EXITED \<and> exitCode ex' = c \<and> exitSignal ex' = - 1) \<and>
    (\<exists>ex'. wait_publish pid (signal_status s core) ex = (ex', True) \<and>
      pe_status ex' = SIGNALLED \<and> exitSignal ex' = s \<and> exitCode ex' = - 1)"
  using exit_status_macros [OF assms(2)] signal_status_macros [OF assms(3), of core] assms(1,3)
  by (simp add: wait_publish_def WIFEXITED_def exitCode_def exitSignal_def)

lemma exit_reported_witness:
  "\<forall>ex. \<exists>ex'. wait_publish 4711 (exit_status 3) ex = (ex', True) \<and> pe_status ex' = EXITED \<and> exitCode ex' = 3"
proof
  fix ex
  show "\<exists>ex'. wait_publish 4711 (exit_status 3) ex = (ex', True) \<and> pe_status ex' = EXITED \<and> exitCode ex' = 3"
    using exit_reported [of 4711 3 9 ex False] by auto
qed

text \<open>C21: The child process runs the program asked for: if its working directory cannot be entered it exits
  and never calls \<open>execvp\<close>; otherwise it calls \<open>execvp\<close> once, on the first argument, with an argument
  vector that is null terminated and reads as exactly the arguments given, in an environment
  where an entry given wins over one inherited, and one inherited over a default.\<close>

theorem child_runs_program:
  assumes "pe_args ex \<noteq> []" "\<forall>a \<in> set (pe_args ex). CHR 0x00 \<notin> set a" "CHR 0x00 \<notin> set (pe_workDir ex)"
    and "distinct (map fst (pe_environ ex))"
  shows "\<exists>cr. start_child ex pfd env0 chdirOk execOk = Inr cr \<and>
    (if pe_workDir ex \<noteq> [] \<and> \<not> chdirOk
     then last (cr_calls cr) = SysExit (- 1) \<and> (\<forall>f as. SysExecvp f as \<notin> set (cr_calls cr))
     else cr_calls cr =
        (if pe_captureOutput ex then [SysClose (fst pfd), SysDup2 (snd pfd) 1, SysDup2 (snd pfd) 2] else []) @
        (if pe_workDir ex = [] then [] else [SysChdir (pe_workDir ex)]) @
        [SysExecvp (hd (pe_args ex)) (pe_args ex)] @ (if execOk then [] else [SysExit (- 1)]) \<and>
       (\<forall>k. cr_environ cr k =
          (case map_of (pe_environ ex) k of
             Some v \<Rightarrow> Some v
           | None \<Rightarrow> (case env0 k of Some v \<Rightarrow> Some v | None \<Rightarrow> map_of getDefaultEnvironMap k))))"
proof -
  have args: "read_argv (program_args (pe_args ex)) = Inr (pe_args ex)"
  proof -
    have "map (c_str \<circ> copyAsCString) (pe_args ex) = pe_args ex"
      using assms(2) by (intro map_idI) (simp add: c_str_copy)
    then show ?thesis by (simp add: program_args_eq [OF assms(1)] read_argv_map)
  qed
  have prog: "c_str (copyAsCString (pe_args ex ! 0)) = hd (pe_args ex)"
    using assms(1,2) by (simp add: hd_conv_nth [symmetric] c_str_copy)
  have env: "child_environ (pe_environ ex) env0 k =
      (case map_of (pe_environ ex) k of
         Some v \<Rightarrow> Some v
       | None \<Rightarrow> (case env0 k of Some v \<Rightarrow> Some v | None \<Rightarrow> map_of getDefaultEnvironMap k))" for k
  proof -
    have "map_of (rev (pe_environ ex)) = map_of (pe_environ ex)"
      using assms(4) by (intro map_of_eqI) (auto intro!: map_of_eq_Some_iff [THEN iffD2] simp flip: rev_map)
    then show ?thesis
      by (auto simp: child_environ_def Let_def fold_put getDefaultEnvironMap_def split: option.split)
  qed
  show ?thesis
    using args prog env c_str_copy [OF assms(3)] by (auto simp: start_child_def Let_def)
qed

definition sample_executor :: executor where
  "sample_executor = \<lparr>pe_captureOutput = True, pe_loggingTag = ''Program'', pe_args = [''sh'', ''-c'', ''ls''],
     pe_environ = [(''A'', ''1'')], pe_workDir = ''/tmp'', pe_status = NOT_STARTED, pe_waitStatus = 0,
     pe_processId = - 1, pe_pipeFd = 0, pe_calls = []\<rparr>"

lemma sample_executor_sel [simp]:
  "pe_captureOutput sample_executor = True" "pe_args sample_executor = [''sh'', ''-c'', ''ls'']"
  "pe_environ sample_executor = [(''A'', ''1'')]" "pe_workDir sample_executor = ''/tmp''"
  "pe_status sample_executor = NOT_STARTED" "pe_calls sample_executor = []"
  by (simp_all add: sample_executor_def)

lemma child_runs_program_witness:
  "\<exists>cr. start_child sample_executor (3, 4) (\<lambda>_. None) True True = Inr cr \<and>
     cr_calls cr = [SysClose 3, SysDup2 4 1, SysDup2 4 2, SysChdir ''/tmp'',
       SysExecvp ''sh'' [''sh'', ''-c'', ''ls'']] \<and>
     cr_environ cr ''A'' = Some ''1'' \<and> cr_environ cr ''PYTHONUNBUFFERED'' = Some ''1''"
  using child_runs_program [of sample_executor "(3, 4)" "\<lambda>_. None" True True]
  by (auto simp: getDefaultEnvironMap_def split: if_splits)

end
