(* ===== verification/PersistCallback.thy ===== *)
theory PersistCallback
  imports ProgramExecutor
begin

text \<open>
  The class \<open>PersistAndCallbackManager\<close> (src/src/PersistAndCallbackManager.h, .cpp): it saves the status of
  the program to a file and posts events to the callback API, with retries. What it uses of Poco is an
  argument, bundled in the record \<open>services\<close>: the parts of a URI, Base64, JSON and number printing, whether a
  file can be written, and what the server answers to each request. What it does is the log \<open>wo_actions\<close>.
\<close>

section \<open>Documents, requests and services\<close>

text \<open>
  A JSON object is the sequence of its \<open>set\<close> calls, or one that was parsed from a file.
\<close>

datatype 'j json = JString string | JInt int | JObject "(string \<times> 'j json) list" | JParsed 'j

record http_post =
  hp_host :: string
  hp_port :: int
  hp_path :: string
  hp_timeout :: int
  hp_method :: string
  hp_contentType :: string
  hp_contentLength :: nat
  hp_auth :: "string option"
  hp_body :: string

text \<open>What comes back: a network exception, or the status and reason of the response.\<close>

datatype answer = NetError string | Answer int string

datatype pc_action = ASave string string | APost http_post | ASleep "32 word"

record world =
  wo_actions :: "pc_action list"
  wo_posts :: nat

record 'j services =
  sv_uri :: "string \<Rightarrow> (string \<times> int \<times> string) res"
  sv_base64 :: "string \<Rightarrow> string"
  sv_stringify :: "'j json \<Rightarrow> string"
  sv_dec :: "int \<Rightarrow> string"
  sv_saveFails :: "string \<Rightarrow> err option"
  sv_answer :: "nat \<Rightarrow> answer"

section \<open>Posting\<close>

definition encodeToken :: "'j services \<Rightarrow> string \<Rightarrow> string" where
  "encodeToken sv token = sv_base64 sv token"

definition jsonToString :: "'j services \<Rightarrow> 'j json \<Rightarrow> string" where
  "jsonToString sv doc = sv_stringify sv doc"

definition saveFile :: "'j services \<Rightarrow> string \<Rightarrow> string \<Rightarrow> world \<Rightarrow> world res" where
  "saveFile sv path doc w =
     (case sv_saveFails sv path of
        Some e \<Rightarrow> Inl e
      | None \<Rightarrow> Inr (w\<lparr>wo_actions := wo_actions w @ [ASave path doc]\<rparr>))"

definition post_request :: "'j services \<Rightarrow> string \<times> int \<times> string \<Rightarrow> string \<Rightarrow> int \<Rightarrow> string \<Rightarrow> http_post" where
  "post_request sv uri token timeout doc =
     (case uri of (host, port, pathAndQuery) \<Rightarrow>
        \<lparr>hp_host = host, hp_port = port, hp_path = (if pathAndQuery = [] then ''/'' else pathAndQuery),
         hp_timeout = timeout * 1000, hp_method = ''POST'', hp_contentType = ''application/json'',
         hp_contentLength = length doc,
         hp_auth = (if token \<noteq> [] then Some (''TOKEN '' @ encodeToken sv token) else None), hp_body = doc\<rparr>)"

text \<open>The exception of a response carries its status, and a message of status and reason.\<close>

definition response_error :: "'j services \<Rightarrow> int \<Rightarrow> string \<Rightarrow> err" where
  "response_error sv status reason =
     HttpException (HTTPError_new status (sv_dec sv status @ '' '' @ reason))"

definition post :: "'j services \<Rightarrow> string \<Rightarrow> string \<Rightarrow> int \<Rightarrow> string \<Rightarrow> world \<Rightarrow> unit res \<times> world" where
  "post sv uri token timeout doc w =
     (case sv_uri sv uri of
        Inl e \<Rightarrow> (Inl e, w)
      | Inr u \<Rightarrow>
          (let w' = \<lparr>wo_actions = wo_actions w @ [APost (post_request sv u token timeout doc)],
                     wo_posts = Suc (wo_posts w)\<rparr>
           in case sv_answer sv (wo_posts w) of
                NetError msg \<Rightarrow> (Inl (SystemError msg), w')
              | Answer status reason \<Rightarrow>
                  (if status \<noteq> 200 then (Inl (response_error sv status reason), w') else (Inr (), w'))))"

section \<open>The manager\<close>

record pc_manager =
  pc_statusFile :: string
  pc_uri :: string
  pc_token :: string
  pc_maxRetry :: "32 word"
  pc_timeout :: int
  pc_hostName :: string
  pc_port :: int
  pc_lastPosted :: "string \<Rightarrow> string option"

definition CALLBACK_MAX_RETRY :: "32 word" where
  "CALLBACK_MAX_RETRY = 5"

text \<open>
  \<open>env\<close> is the environment and \<open>tryParseUnsigned\<close> the number parser. \<open>_maxRetry\<close> is an \<open>int\<close> that is
  compared as an \<open>unsigned int\<close>: the bits stay the same. \<open>_port\<close> is not initialised: \<open>port0\<close>.
\<close>

definition PersistAndCallbackManager_new ::
  "(string \<Rightarrow> string option) \<Rightarrow> (string \<Rightarrow> 32 word option) \<Rightarrow> int \<Rightarrow> string \<Rightarrow> string \<Rightarrow> string \<Rightarrow> int \<Rightarrow>
   pc_manager" where
  "PersistAndCallbackManager_new env tryParseUnsigned port0 statusFile uri token timeout =
     \<lparr>pc_statusFile = statusFile, pc_uri = uri, pc_token = token,
      pc_maxRetry = (case env ''ML_GRIDENGINE_CALLBACK_MAX_RETRY'' of
          None \<Rightarrow> CALLBACK_MAX_RETRY
        | Some maxRetryStr \<Rightarrow>
            (case tryParseUnsigned maxRetryStr of None \<Rightarrow> CALLBACK_MAX_RETRY | Some maxRetry \<Rightarrow> maxRetry)),
      pc_timeout = timeout, pc_hostName = [], pc_port = port0, pc_lastPosted = (\<lambda>_. None)\<rparr>"

definition enabled :: "pc_manager \<Rightarrow> bool" where
  "enabled p \<longleftrightarrow> pc_statusFile p \<noteq> [] \<or> pc_uri p \<noteq> []"

text \<open>
  There are no background jobs: \<open>wait\<close> and \<open>interrupt\<close> have empty bodies, and a call that posts with its retries is
  shortened by neither.
\<close>

definition PersistAndCallbackManager_wait :: "pc_manager \<Rightarrow> pc_manager" where
  [simp]: "PersistAndCallbackManager_wait p = p"

definition PersistAndCallbackManager_interrupt :: "pc_manager \<Rightarrow> pc_manager" where
  [simp]: "PersistAndCallbackManager_interrupt p = p"

definition add_sleep :: "32 word \<Rightarrow> world \<Rightarrow> world" where
  "add_sleep t w = w\<lparr>wo_actions := wo_actions w @ [ASleep t]\<rparr>"

text \<open>The loop of \<open>_postEvent\<close>; \<open>None\<close> is a loop that never ends.\<close>

partial_function (option) post_retry ::
  "'j services \<Rightarrow> pc_manager \<Rightarrow> string \<Rightarrow> 32 word \<Rightarrow> 32 word \<Rightarrow> 32 word \<Rightarrow> world \<Rightarrow> world option" where
  "post_retry sv p payload i sleepTime nextSleepTime w =
     (if i \<le> pc_maxRetry p then
        (case post sv (pc_uri p) (pc_token p) (pc_timeout p) payload w of
           (Inr _, w') \<Rightarrow> Some w'
         | (Inl e, w') \<Rightarrow>
             (if i < pc_maxRetry p
              then post_retry sv p payload (i + 1) nextSleepTime (sleepTime + nextSleepTime)
                     (add_sleep sleepTime w')
              else post_retry sv p payload (i + 1) sleepTime nextSleepTime w'))
      else Some w)"

definition postEvent :: "'j services \<Rightarrow> pc_manager \<Rightarrow> string \<Rightarrow> 'j json \<Rightarrow> world \<Rightarrow> world option" where
  "postEvent sv p eventType doc w =
     (if pc_uri p \<noteq> [] then
        post_retry sv p (jsonToString sv (JObject [(''eventType'', JString eventType), (''data'', doc)])) 0 5 8 w
      else Some w)"

text \<open>Saves the document if a file is configured, then posts it if an API is configured.\<close>

definition publish :: "'j services \<Rightarrow> pc_manager \<Rightarrow> 'j json \<Rightarrow> world \<Rightarrow> world res option" where
  "publish sv p doc w =
     (case (if pc_statusFile p \<noteq> [] then saveFile sv (pc_statusFile p) (jsonToString sv doc) w else Inr w) of
        Inl e \<Rightarrow> Some (Inl e)
      | Inr w' \<Rightarrow>
          (if pc_uri p \<noteq> [] then map_option Inr (postEvent sv p ''statusUpdated'' doc w') else Some (Inr w')))"

definition started_doc :: "string \<Rightarrow> int \<Rightarrow> 'j json" where
  "started_doc hostName port = JObject
     [(''executor.hostname'', JString hostName), (''executor.port'', JInt port), (''status'', JString ''RUNNING'')]"

definition programStarted ::
  "'j services \<Rightarrow> string \<Rightarrow> int \<Rightarrow> pc_manager \<Rightarrow> world \<Rightarrow> (pc_manager \<times> world) res option" where
  "programStarted sv hostName port p w =
     (let p' = p\<lparr>pc_hostName := hostName, pc_port := port\<rparr>
      in map_option (map_sum id (\<lambda>w'. (p', w'))) (publish sv p' (started_doc hostName port) w))"

definition fileGenerated ::
  "'j services \<Rightarrow> string \<Rightarrow> 'j json \<Rightarrow> pc_manager \<times> world \<Rightarrow> (pc_manager \<times> world) option" where
  "fileGenerated sv fileTag jsonObject pw =
     (case pw of (p, w) \<Rightarrow>
        (if pc_uri p \<noteq> [] then
           (let serializedDoc = jsonToString sv jsonObject in
            if pc_lastPosted p fileTag = None \<or> pc_lastPosted p fileTag \<noteq> Some serializedDoc
            then map_option (\<lambda>w'. (p\<lparr>pc_lastPosted := (pc_lastPosted p)(fileTag \<mapsto> serializedDoc)\<rparr>, w'))
                   (postEvent sv p (''fileGenerated:'' @ fileTag) jsonObject w)
            else Some (p, w))
         else Some (p, w)))"

text \<open>
  The end is read twice: first the status, then the exit code or the signal, from an executor whose status
  other threads may have changed in the meantime.
\<close>

type_synonym end_view = "ProgramStatus \<times> executor"

definition finished_doc :: "pc_manager \<Rightarrow> end_view \<Rightarrow> int \<Rightarrow> 'j json" where
  "finished_doc p v workDirSize = JObject
     ([(''executor.hostname'', JString (pc_hostName p)), (''executor.port'', JInt (pc_port p)),
       (''workDirSize'', JInt workDirSize)] @
      (case fst v of
         EXITED \<Rightarrow> [(''status'', JString ''EXITED''), (''exitCode'', JInt (exitCode (snd v)))]
       | SIGNALLED \<Rightarrow> [(''status'', JString ''SIGNALLED''), (''exitSignal'', JInt (exitSignal (snd v)))]
       | CANNOT_KILL \<Rightarrow> [(''status'', JString ''CANNOT_KILL'')]
       | _ \<Rightarrow> []))"

definition programFinished ::
  "'j services \<Rightarrow> end_view \<Rightarrow> int \<Rightarrow> pc_manager \<Rightarrow> world \<Rightarrow> world res option" where
  "programFinished sv v workDirSize p w = publish sv p (finished_doc p v workDirSize) w"

section \<open>The retry loop\<close>

text \<open>The pauses: 5, 8, 13, 21, ... seconds, modulo 2^32.\<close>

fun sleeps :: "32 word \<Rightarrow> 32 word \<Rightarrow> nat \<Rightarrow> 32 word" where
  "sleeps a b 0 = a"
| "sleeps a b (Suc n) = sleeps b (a + b) n"

definition answered_ok :: "'j services \<Rightarrow> nat \<Rightarrow> bool" where
  "answered_ok sv k \<longleftrightarrow> (\<exists>reason. sv_answer sv k = Answer 200 reason)"

text \<open>\<open>f\<close> failed requests, each followed by its pause, and then one more request.\<close>

definition attempts :: "http_post \<Rightarrow> 32 word \<Rightarrow> 32 word \<Rightarrow> nat \<Rightarrow> pc_action list" where
  "attempts req a b f = concat (map (\<lambda>j. [APost req, ASleep (sleeps a b j)]) [0..<f]) @ [APost req]"

lemma attempts_0 [simp]: "attempts req a b 0 = [APost req]"
  by (simp add: attempts_def)

lemma attempts_Suc: "attempts req a b (Suc f) = APost req # ASleep a # attempts req b (a + b) f"
  unfolding attempts_def upt_conv_Cons [OF zero_less_Suc] map_Suc_upt [symmetric]
  by (simp add: comp_def del: upt_Suc)

lemma unat_inc: "i \<noteq> - 1 \<Longrightarrow> unat (i + 1) = Suc (unat (i :: 32 word))"
  using unatSuc [of i] by (metis add.commute eq_neg_iff_add_eq_0)

lemma post_eq:
  assumes "sv_uri sv uri = Inr u"
  shows "\<exists>r. post sv uri token timeout doc w =
      (r, \<lparr>wo_actions = wo_actions w @ [APost (post_request sv u token timeout doc)], wo_posts = Suc (wo_posts w)\<rparr>) \<and>
    (isl r \<longleftrightarrow> \<not> answered_ok sv (wo_posts w))"
  using assms by (cases "sv_answer sv (wo_posts w)") (auto simp: post_def answered_ok_def Let_def)

lemma post_retry_ok:
  fixes payload :: string
  assumes "pc_maxRetry p \<noteq> - 1" "sv_uri sv (pc_uri p) = Inr u" "unat i \<le> unat (pc_maxRetry p)"
  defines "req \<equiv> post_request sv u (pc_token p) (pc_timeout p) payload"
  shows "\<exists>f \<le> unat (pc_maxRetry p) - unat i.
    post_retry sv p payload i a b w = Some (w\<lparr>wo_actions := wo_actions w @ attempts req a b f,
      wo_posts := wo_posts w + f + 1\<rparr>) \<and>
    (\<forall>j < f. \<not> answered_ok sv (wo_posts w + j)) \<and>
    (f = unat (pc_maxRetry p) - unat i \<or> answered_ok sv (wo_posts w + f))"
  using assms(3)
proof (induction "unat (pc_maxRetry p) - unat i" arbitrary: i a b w)
  let ?w = "\<lambda>w. \<lparr>wo_actions = wo_actions w @ [APost req], wo_posts = Suc (wo_posts w)\<rparr>"
  {
    case 0
    obtain r where r: "post sv (pc_uri p) (pc_token p) (pc_timeout p) payload w = (r, ?w w)"
      "isl r \<longleftrightarrow> \<not> answered_ok sv (wo_posts w)"
      using post_eq [OF assms(2)] unfolding req_def by metis
    have i: "i = pc_maxRetry p" using 0 by (intro antisym) (simp_all add: word_le_nat_alt)
    have stop: "\<not> i + 1 \<le> pc_maxRetry p" using unat_inc [OF assms(1)] by (simp add: i word_le_nat_alt)
    have stopped: "post_retry sv p payload (i + 1) a b w' = Some w'" for w'
      using stop by (subst post_retry.simps) simp
    show ?case
      by (intro exI [of _ 0], subst post_retry.simps, cases r) (use r i stopped in \<open>simp_all add: world.defs\<close>)
  next
    case (Suc n)
    obtain r where r: "post sv (pc_uri p) (pc_token p) (pc_timeout p) payload w = (r, ?w w)"
      "isl r \<longleftrightarrow> \<not> answered_ok sv (wo_posts w)"
      using post_eq [OF assms(2)] unfolding req_def by metis
    have i: "i < pc_maxRetry p" using Suc.hyps(2) by (simp add: word_less_nat_alt)
    show ?case
    proof (cases r)
      case (Inr x)
      then show ?thesis using i r
        by (intro exI [of _ 0], subst post_retry.simps) (simp add: world.defs order.strict_implies_order)
    next
      case (Inl e)
      have i1: "unat (i + 1) = Suc (unat i)" by (rule unat_inc) (use i in auto)
      let ?w2 = "add_sleep a (?w w)"
      have h: "n = unat (pc_maxRetry p) - unat (i + 1)" "unat (i + 1) \<le> unat (pc_maxRetry p)"
        using Suc.hyps(2) i1 by simp_all
      obtain f where f: "f \<le> n" "post_retry sv p payload (i + 1) b (a + b) ?w2 =
          Some (?w2\<lparr>wo_actions := wo_actions ?w2 @ attempts req b (a + b) f, wo_posts := wo_posts ?w2 + f + 1\<rparr>)"
        "\<forall>j < f. \<not> answered_ok sv (wo_posts ?w2 + j)" "f = n \<or> answered_ok sv (wo_posts ?w2 + f)"
        using Suc.hyps(1) [OF h, of b "a + b" ?w2] unfolding h(1) [symmetric] by blast
      have "post_retry sv p payload i a b w = post_retry sv p payload (i + 1) b (a + b) ?w2"
        using i r Inl by (subst post_retry.simps) (simp add: order.strict_implies_order)
      moreover have "\<not> answered_ok sv (wo_posts w)" using r Inl by simp
      moreover have "\<forall>j < Suc f. \<not> answered_ok sv (wo_posts w + j)"
        using f(3) calculation(2) by (auto simp: add_sleep_def less_Suc_eq_0_disj)
      ultimately show ?thesis using f Suc.hyps(2)
        by (intro exI [of _ "Suc f"]) (auto simp: add_sleep_def attempts_Suc)
    qed
  }
qed

lemma post_fails: "\<not> answered_ok sv (wo_posts w) \<Longrightarrow> \<exists>e w'. post sv uri token timeout d w = (Inl e, w')"
  by (auto simp: post_def answered_ok_def Let_def split: sum.splits answer.splits)

lemma post_retry_never:
  assumes "post_retry sv p payload i a b w = Some w'"
  shows "pc_maxRetry p \<noteq> - 1 \<or> (\<exists>k. answered_ok sv k)"
proof (rule post_retry.raw_induct [where P = "\<lambda>sv p _ _ _ _ _ _. pc_maxRetry p \<noteq> - 1 \<or> (\<exists>k. answered_ok sv k)", OF _ assms])
  fix f sv p payload i a b w w'
  assume IH: "\<And>sv p payload i a b w w'. f sv p payload i a b w = Some w' \<Longrightarrow>
      pc_maxRetry p \<noteq> - 1 \<or> (\<exists>k. answered_ok sv k)"
    and run: "(if i \<le> pc_maxRetry p then
        case post sv (pc_uri p) (pc_token p) (pc_timeout p) payload w of
          (Inl e, w') \<Rightarrow> if i < pc_maxRetry p then f sv p payload (i + 1) b (a + b) (add_sleep a w')
            else f sv p payload (i + 1) a b w'
        | (Inr x, w') \<Rightarrow> Some w'
      else Some w) = Some w'"
  show "pc_maxRetry p \<noteq> - 1 \<or> (\<exists>k. answered_ok sv k)"
  proof (rule disjCI)
    assume no: "\<not> (\<exists>k. answered_ok sv k)"
    then obtain e w1 where "post sv (pc_uri p) (pc_token p) (pc_timeout p) payload w = (Inl e, w1)"
      using post_fails by blast
    then show "pc_maxRetry p \<noteq> - 1" using run no by (auto split: if_splits dest: IH)
  qed
qed

text \<open>The request that posts an event.\<close>

definition event_request ::
  "'j services \<Rightarrow> pc_manager \<Rightarrow> string \<times> int \<times> string \<Rightarrow> string \<Rightarrow> 'j json \<Rightarrow> http_post" where
  "event_request sv p u eventType doc = post_request sv u (pc_token p) (pc_timeout p)
     (jsonToString sv (JObject [(''eventType'', JString eventType), (''data'', doc)]))"

lemma event_request_update [simp]:
  "event_request sv (p\<lparr>pc_lastPosted := l\<rparr>) = event_request sv p"
  "event_request sv (p\<lparr>pc_hostName := h\<rparr>) = event_request sv p"
  "event_request sv (p\<lparr>pc_port := n\<rparr>) = event_request sv p"
  by (simp_all add: event_request_def fun_eq_iff)

text \<open>A manager that posts to a well-formed address, with an end to its retries.\<close>

definition can_post :: "'j services \<Rightarrow> pc_manager \<Rightarrow> string \<times> int \<times> string \<Rightarrow> bool" where
  "can_post sv p u \<longleftrightarrow> pc_uri p \<noteq> [] \<and> sv_uri sv (pc_uri p) = Inr u \<and> pc_maxRetry p \<noteq> - 1"

definition max_retries :: "pc_manager \<Rightarrow> nat" where
  "max_retries p = unat (pc_maxRetry p)"

lemma can_post_update [simp]:
  "can_post sv (p\<lparr>pc_lastPosted := l\<rparr>) u = can_post sv p u"
  "can_post sv (p\<lparr>pc_hostName := h\<rparr>) u = can_post sv p u"
  "can_post sv (p\<lparr>pc_port := n\<rparr>) u = can_post sv p u"
  "max_retries (p\<lparr>pc_lastPosted := l\<rparr>) = max_retries p"
  "max_retries (p\<lparr>pc_hostName := h\<rparr>) = max_retries p"
  "max_retries (p\<lparr>pc_port := n\<rparr>) = max_retries p"
  by (simp_all add: can_post_def max_retries_def)

lemma postEvent_ok:
  assumes "can_post sv p u"
  shows "\<exists>f \<le> max_retries p.
    postEvent sv p eventType doc w = Some (w\<lparr>
      wo_actions := wo_actions w @ attempts (event_request sv p u eventType doc) 5 8 f,
      wo_posts := wo_posts w + f + 1\<rparr>) \<and>
    (\<forall>j < f. \<not> answered_ok sv (wo_posts w + j)) \<and>
    (f = max_retries p \<or> answered_ok sv (wo_posts w + f))"
  using post_retry_ok [of p sv u 0] assms
  by (simp add: can_post_def postEvent_def event_request_def max_retries_def)

section \<open>Publishing\<close>

lemma publish_ok:
  assumes "can_post sv p u" "pc_statusFile p \<noteq> []" "sv_saveFails sv (pc_statusFile p) = None"
  shows "\<exists>f \<le> max_retries p. publish sv p doc w = Some (Inr (w\<lparr>
    wo_actions := wo_actions w @ ASave (pc_statusFile p) (jsonToString sv doc) #
      attempts (event_request sv p u ''statusUpdated'' doc) 5 8 f,
    wo_posts := wo_posts w + f + 1\<rparr>))"
proof -
  let ?w = "w\<lparr>wo_actions := wo_actions w @ [ASave (pc_statusFile p) (jsonToString sv doc)]\<rparr>"
  obtain f where "f \<le> max_retries p" "postEvent sv p ''statusUpdated'' doc ?w = Some (?w\<lparr>
      wo_actions := wo_actions ?w @ attempts (event_request sv p u ''statusUpdated'' doc) 5 8 f,
      wo_posts := wo_posts ?w + f + 1\<rparr>)"
    using postEvent_ok [OF assms(1)] by blast
  then show ?thesis using assms by (intro exI [of _ f]) (simp add: publish_def saveFile_def can_post_def)
qed

text \<open>With limited retries the loop ends whatever the URI is, and only a file that cannot be written throws.\<close>

lemma post_retry_returns: "pc_maxRetry p \<noteq> - 1 \<Longrightarrow> \<exists>w'. post_retry sv p payload i a b w = Some w'"
proof (induction "if i \<le> pc_maxRetry p then Suc (unat (pc_maxRetry p) - unat i) else 0" arbitrary: i a b w rule: less_induct)
  case less
  obtain r w1 where r: "post sv (pc_uri p) (pc_token p) (pc_timeout p) payload w = (r, w1)" by fastforce
  have next_round: "\<exists>w'. post_retry sv p payload (i + 1) a' b' v = Some w'" if i: "i \<le> pc_maxRetry p" for a' b' v
  proof (rule less.hyps)
    have "i \<noteq> - 1" using i less.prems by (metis word_order.extremum_unique word_n1_ge antisym)
    then show "(if i + 1 \<le> pc_maxRetry p then Suc (unat (pc_maxRetry p) - unat (i + 1)) else 0)
        < (if i \<le> pc_maxRetry p then Suc (unat (pc_maxRetry p) - unat i) else 0)"
      using i by (auto simp: unat_inc word_le_nat_alt)
  qed (rule less.prems)
  show ?case by (subst post_retry.simps, cases r) (use r next_round in auto)
qed

lemma publish_returns:
  assumes "pc_maxRetry p \<noteq> - 1" "pc_statusFile p = [] \<or> sv_saveFails sv (pc_statusFile p) = None"
  shows "\<exists>w'. publish sv p doc w = Some (Inr w')"
proof -
  have "\<exists>w'. postEvent sv p t doc v = Some w'" for t v
    by (auto simp: postEvent_def post_retry_returns [OF assms(1)])
  then show ?thesis using assms(2) by (fastforce simp: publish_def saveFile_def)
qed

section \<open>Generated files\<close>

fun generated_run ::
  "'j services \<Rightarrow> (string \<times> 'j json) list \<Rightarrow> pc_manager \<times> world \<Rightarrow> (pc_manager \<times> world) option" where
  "generated_run sv [] pw = Some pw"
| "generated_run sv ((t, d) # xs) pw =
     (case fileGenerated sv t d pw of None \<Rightarrow> None | Some pw' \<Rightarrow> generated_run sv xs pw')"

text \<open>Which of the files differ from what was last posted under their tag.\<close>

fun changed :: "('a \<Rightarrow> string) \<Rightarrow> (string \<Rightarrow> string option) \<Rightarrow> (string \<times> 'a) list \<Rightarrow> (string \<times> 'a) list" where
  "changed ser last_posted [] = []"
| "changed ser last_posted ((t, d) # xs) =
     (if last_posted t = Some (ser d) then changed ser last_posted xs
      else (t, d) # changed ser (last_posted(t \<mapsto> ser d)) xs)"

definition latest :: "('a \<Rightarrow> string) \<Rightarrow> (string \<times> 'a) list \<Rightarrow> (string \<Rightarrow> string option) \<Rightarrow> string \<Rightarrow> string option" where
  "latest ser xs m = fold (\<lambda>(t, d) m. m(t \<mapsto> ser d)) xs m"

lemma latest_simps [simp]:
  "latest ser [] m = m" "latest ser ((t, d) # xs) m = latest ser xs (m(t \<mapsto> ser d))"
  by (simp_all add: latest_def)

definition generated_actions ::
  "'j services \<Rightarrow> pc_manager \<Rightarrow> string \<times> int \<times> string \<Rightarrow> (string \<times> 'j json) \<times> nat \<Rightarrow> pc_action list" where
  "generated_actions sv p u x =
     attempts (event_request sv p u (''fileGenerated:'' @ fst (fst x)) (snd (fst x))) 5 8 (snd x)"

lemma fileGenerated_ok:
  assumes "can_post sv p u"
  shows "if pc_lastPosted p t = Some (jsonToString sv d) then fileGenerated sv t d (p, w) = Some (p, w)
    else \<exists>w' f. f \<le> max_retries p \<and>
      fileGenerated sv t d (p, w) = Some (p\<lparr>pc_lastPosted := (pc_lastPosted p)(t \<mapsto> jsonToString sv d)\<rparr>, w') \<and>
      wo_actions w' = wo_actions w @ generated_actions sv p u ((t, d), f)"
proof -
  obtain f where "f \<le> max_retries p" "postEvent sv p (''fileGenerated:'' @ t) d w = Some (w\<lparr>
      wo_actions := wo_actions w @ attempts (event_request sv p u (''fileGenerated:'' @ t) d) 5 8 f,
      wo_posts := wo_posts w + f + 1\<rparr>)"
    using postEvent_ok [OF assms] by blast
  then show ?thesis using assms
    by (auto simp: fileGenerated_def can_post_def Let_def generated_actions_def)
qed

lemma generated_run_ok:
  assumes "can_post sv p u"
  shows "\<exists>w' fs. generated_run sv xs (p, w) =
      Some (p\<lparr>pc_lastPosted := latest (jsonToString sv) xs (pc_lastPosted p)\<rparr>, w') \<and>
    length fs = length (changed (jsonToString sv) (pc_lastPosted p) xs) \<and>
    (\<forall>f \<in> set fs. f \<le> max_retries p) \<and>
    wo_actions w' = wo_actions w @
      concat (map (generated_actions sv p u) (zip (changed (jsonToString sv) (pc_lastPosted p) xs) fs))"
  using assms
proof (induction xs arbitrary: p w)
  case (Cons x xs)
  obtain t d where x: "x = (t, d)" by (cases x)
  show ?case
  proof (cases "pc_lastPosted p t = Some (jsonToString sv d)")
    case True
    then have "(pc_lastPosted p)(t \<mapsto> jsonToString sv d) = pc_lastPosted p" by (simp add: fun_upd_idem)
    then show ?thesis using True Cons fileGenerated_ok [OF Cons.prems, of t d w] by (simp add: x)
  next
    case False
    let ?p = "p\<lparr>pc_lastPosted := (pc_lastPosted p)(t \<mapsto> jsonToString sv d)\<rparr>"
    have ga: "generated_actions sv ?p u = generated_actions sv p u"
      by (simp add: generated_actions_def fun_eq_iff)
    obtain w1 f where w1: "f \<le> max_retries p" "fileGenerated sv t d (p, w) = Some (?p, w1)"
      "wo_actions w1 = wo_actions w @ generated_actions sv p u ((t, d), f)"
      using fileGenerated_ok [OF Cons.prems, of t d w] False by auto
    have cp: "can_post sv ?p u" using Cons.prems by simp
    obtain w' fs where IH: "generated_run sv xs (?p, w1) =
        Some (?p\<lparr>pc_lastPosted := latest (jsonToString sv) xs (pc_lastPosted ?p)\<rparr>, w')"
      "length fs = length (changed (jsonToString sv) (pc_lastPosted ?p) xs)"
      "\<forall>f \<in> set fs. f \<le> max_retries ?p"
      "wo_actions w' = wo_actions w1 @
        concat (map (generated_actions sv ?p u) (zip (changed (jsonToString sv) (pc_lastPosted ?p) xs) fs))"
      using Cons.IH [OF cp, of w1] by blast
    then show ?thesis using False w1 unfolding ga
      by (intro exI [of _ w'] exI [of _ "f # fs"]) (simp add: x)
  qed
qed simp

section \<open>What is saved\<close>

text \<open>The documents written to files, with their paths, oldest first.\<close>

fun saves :: "pc_action list \<Rightarrow> (string \<times> string) list" where
  "saves [] = []"
| "saves (ASave path doc # as) = (path, doc) # saves as"
| "saves (a # as) = saves as"

lemma saves_append [simp]: "saves (as @ bs) = saves as @ saves bs"
  by (induction as rule: saves.induct) simp_all

abbreviation saved :: "world \<Rightarrow> (string \<times> string) list" where
  "saved w \<equiv> saves (wo_actions w)"

lemma post_saves: "post sv uri token timeout doc w = (r, w') \<Longrightarrow> saved w' = saved w"
  by (auto simp: post_def Let_def split: sum.splits answer.splits if_splits)

lemma post_retry_saves:
  assumes "post_retry sv p payload i a b w = Some w'"
  shows "saved w' = saved w"
proof (rule post_retry.raw_induct [where P = "\<lambda>sv p payload i a b w w'. saved w' = saved w", OF _ assms])
  fix f sv p payload i a b w w'
  assume IH: "\<And>sv p payload i a b w w'. f sv p payload i a b w = Some w' \<Longrightarrow> saved w' = saved w"
    and run: "(if i \<le> pc_maxRetry p then
        case post sv (pc_uri p) (pc_token p) (pc_timeout p) payload w of
          (Inl e, w') \<Rightarrow> if i < pc_maxRetry p then f sv p payload (i + 1) b (a + b) (add_sleep a w')
            else f sv p payload (i + 1) a b w'
        | (Inr x, w') \<Rightarrow> Some w'
      else Some w) = Some w'"
  obtain r w1 where r: "post sv (pc_uri p) (pc_token p) (pc_timeout p) payload w = (r, w1)" by fastforce
  show "saved w' = saved w"
    using run post_saves [OF r] by (auto simp: r add_sleep_def split: if_splits sum.splits dest!: IH)
qed

lemma postEvent_saves: "postEvent sv p eventType doc w = Some w' \<Longrightarrow> saved w' = saved w"
  by (auto simp: postEvent_def split: if_splits dest: post_retry_saves)

lemma publish_saves:
  "publish sv p doc w = Some (Inr w') \<Longrightarrow>
   saved w' = saved w @ (if pc_statusFile p = [] then [] else [(pc_statusFile p, jsonToString sv doc)])"
  by (auto simp: publish_def saveFile_def split: if_splits option.splits dest!: postEvent_saves)

lemma fileGenerated_saves:
  "fileGenerated sv t d (p, w) = Some (p', w') \<Longrightarrow>
   saved w' = saved w \<and> (\<exists>l. p' = p\<lparr>pc_lastPosted := l\<rparr>)"
  by (auto simp: fileGenerated_def Let_def split: if_splits dest: postEvent_saves)
    (metis pc_manager.surjective pc_manager.update_convs(8))+

section \<open>Properties\<close>

text \<open>Services whose server refuses the first request, and a manager that uses them.\<close>

definition sample_services :: "unit services" where
  "sample_services = \<lparr>sv_uri = (\<lambda>_. Inr (''localhost'', 8080, [])), sv_base64 = (\<lambda>t. t),
     sv_stringify = (\<lambda>_. ''{}''), sv_dec = (\<lambda>_. ''500''), sv_saveFails = (\<lambda>_. None),
     sv_answer = (\<lambda>k. if k = 0 then Answer 500 ''error'' else Answer 200 ''OK'')\<rparr>"

definition dead_services :: "unit services" where
  "dead_services = sample_services\<lparr>sv_answer := (\<lambda>_. NetError ''timeout'')\<rparr>"

definition sample_manager :: pc_manager where
  "sample_manager = PersistAndCallbackManager_new (\<lambda>_. None) (\<lambda>_. None) 0 ''/tmp/status.json''
     ''http://localhost:8080'' ''token'' 60000"

lemma sample_manager_sel [simp]:
  "pc_uri sample_manager = ''http://localhost:8080''" "pc_maxRetry sample_manager = 5"
  "pc_statusFile sample_manager = ''/tmp/status.json''" "pc_lastPosted sample_manager = (\<lambda>_. None)"
  by (simp_all add: sample_manager_def PersistAndCallbackManager_new_def CALLBACK_MAX_RETRY_def)

lemma sample_services_sel [simp]:
  "sv_uri sample_services v = Inr (''localhost'', 8080, [])" "sv_saveFails sample_services f = None"
  "sv_stringify sample_services j = ''{}''" "sv_uri dead_services v = Inr (''localhost'', 8080, [])"
  "sv_answer dead_services k = NetError ''timeout''" "sv_stringify dead_services j = ''{}''"
  by (simp_all add: sample_services_def dead_services_def)

definition empty_world :: world where
  "empty_world = \<lparr>wo_actions = [], wo_posts = 0\<rparr>"

text \<open>C15: An event is posted until the server answers 200, at most \<open>_maxRetry\<close> times more after the first
  attempt: all attempts are the same request, the pauses between them are 5, 8, 13, ... seconds, all
  but the last fail, and the last succeeds unless the retries are used up. The call then returns.\<close>

theorem post_event_attempts:
  assumes "pc_uri p \<noteq> []" "sv_uri sv (pc_uri p) = Inr u" "pc_maxRetry p \<noteq> - 1"
  shows "\<exists>f \<le> unat (pc_maxRetry p).
    postEvent sv p eventType doc w = Some (w\<lparr>
      wo_actions := wo_actions w @ attempts (event_request sv p u eventType doc) 5 8 f,
      wo_posts := wo_posts w + f + 1\<rparr>) \<and>
    (\<forall>j < f. \<not> answered_ok sv (wo_posts w + j)) \<and>
    (f = unat (pc_maxRetry p) \<or> answered_ok sv (wo_posts w + f))"
  using postEvent_ok [of sv p u] assms by (simp add: can_post_def max_retries_def)

text \<open>C38: With \<open>_maxRetry\<close> at the largest unsigned value and a server that never answers 200 the call never
  returns: the counter wraps to 0.\<close>

theorem post_event_forever:
  assumes "pc_uri p \<noteq> []" "pc_maxRetry p = - 1" "\<And>k. \<not> answered_ok sv k"
  shows "postEvent sv p eventType doc w = None"
proof -
  have "post_retry sv p payload i a b w = None" for payload i a b
    using post_retry_never [of sv p payload i a b w] assms(2,3)
    by (cases "post_retry sv p payload i a b w") auto
  then show ?thesis using assms(1) by (simp add: postEvent_def)
qed

lemma post_event_attempts_witness:
  "\<exists>f \<le> 5. postEvent sample_services sample_manager ''e'' (JInt 1) empty_world = Some (empty_world\<lparr>
      wo_actions := attempts (event_request sample_services sample_manager (''localhost'', 8080, []) ''e'' (JInt 1)) 5 8 f,
      wo_posts := f + 1\<rparr>) \<and> (f = 5 \<or> answered_ok sample_services f)"
  using post_event_attempts [of sample_manager sample_services "(''localhost'', 8080, [])" "''e''" "JInt 1" empty_world]
  by (auto simp: empty_world_def)

lemma post_event_forever_witness:
  "postEvent dead_services (sample_manager\<lparr>pc_maxRetry := - 1\<rparr>) ''e'' (JInt 1) empty_world = None"
  by (rule post_event_forever) (simp_all add: answered_ok_def)

text \<open>C17: Of a sequence of generated files exactly those are posted whose text differs from what was posted
  last under the same tag, in order, each with its own retries; afterwards the latest text of every
  tag is remembered.\<close>

theorem generated_files_posted:
  assumes "pc_uri p \<noteq> []" "sv_uri sv (pc_uri p) = Inr u" "pc_maxRetry p \<noteq> - 1"
  shows "\<exists>w' fs. generated_run sv xs (p, w) =
      Some (p\<lparr>pc_lastPosted := latest (jsonToString sv) xs (pc_lastPosted p)\<rparr>, w') \<and>
    length fs = length (changed (jsonToString sv) (pc_lastPosted p) xs) \<and>
    (\<forall>f \<in> set fs. f \<le> unat (pc_maxRetry p)) \<and>
    wo_actions w' = wo_actions w @
      concat (map (generated_actions sv p u) (zip (changed (jsonToString sv) (pc_lastPosted p) xs) fs))"
  using generated_run_ok [of sv p u xs w] assms by (simp add: can_post_def max_retries_def)

lemma generated_files_posted_witness:
  "\<exists>w' f. generated_run sample_services [(''config'', JInt 1), (''config'', JInt 2)] (sample_manager, empty_world) =
      Some (sample_manager\<lparr>pc_lastPosted := (\<lambda>_. None)(''config'' \<mapsto> ''{}'')\<rparr>, w') \<and>
    wo_actions w' = generated_actions sample_services sample_manager (''localhost'', 8080, [])
      ((''config'', JInt 1), f)"
  using generated_files_posted [of sample_manager sample_services "(''localhost'', 8080, [])"
      "[(''config'', JInt 1), (''config'', JInt 2)]" empty_world]
  by (auto simp: jsonToString_def empty_world_def length_Suc_conv simp del: generated_run.simps)

text \<open>C18: Both status documents are saved before they are posted, the first with the host, the port and
  RUNNING, the second with the same host and port, the size of the working directory and the final
  status; nothing else is written or sent in between.\<close>

theorem status_saved_then_posted:
  assumes "pc_uri p \<noteq> []" "sv_uri sv (pc_uri p) = Inr u" "pc_maxRetry p \<noteq> - 1"
    and "pc_statusFile p \<noteq> []" "sv_saveFails sv (pc_statusFile p) = None"
  shows "\<exists>w1 w2 f1 f2. programStarted sv host port p w =
      Some (Inr (p\<lparr>pc_hostName := host, pc_port := port\<rparr>, w1)) \<and>
    programFinished sv v workDirSize (p\<lparr>pc_hostName := host, pc_port := port\<rparr>) w1 = Some (Inr w2) \<and>
    wo_actions w2 = wo_actions w @
      ASave (pc_statusFile p) (jsonToString sv (started_doc host port)) #
      attempts (event_request sv p u ''statusUpdated'' (started_doc host port)) 5 8 f1 @
      ASave (pc_statusFile p) (jsonToString sv (finished_doc (p\<lparr>pc_hostName := host, pc_port := port\<rparr>) v workDirSize)) #
      attempts (event_request sv p u ''statusUpdated''
        (finished_doc (p\<lparr>pc_hostName := host, pc_port := port\<rparr>) v workDirSize)) 5 8 f2"
proof -
  let ?p = "p\<lparr>pc_hostName := host, pc_port := port\<rparr>"
  have cp: "can_post sv ?p u" using assms by (simp add: can_post_def)
  have sf: "pc_statusFile ?p \<noteq> []" "sv_saveFails sv (pc_statusFile ?p) = None" using assms by simp_all
  obtain w1 f1 where w1: "publish sv ?p (started_doc host port) w = Some (Inr w1)"
    "wo_actions w1 = wo_actions w @ ASave (pc_statusFile p) (jsonToString sv (started_doc host port)) #
      attempts (event_request sv p u ''statusUpdated'' (started_doc host port)) 5 8 f1"
    using publish_ok [OF cp sf, of "started_doc host port" w] by auto
  obtain w2 f2 where w2: "publish sv ?p (finished_doc ?p v workDirSize) w1 = Some (Inr w2)"
    "wo_actions w2 = wo_actions w1 @ ASave (pc_statusFile p) (jsonToString sv (finished_doc ?p v workDirSize)) #
      attempts (event_request sv p u ''statusUpdated'' (finished_doc ?p v workDirSize)) 5 8 f2"
    using publish_ok [OF cp sf, of "finished_doc ?p v workDirSize" w1] by auto
  show ?thesis
    by (intro exI [of _ w1] exI [of _ w2] exI [of _ f1] exI [of _ f2])
      (simp add: programStarted_def programFinished_def w1 w2)
qed

lemma status_saved_then_posted_witness:
  "\<exists>w1 w2 f1 f2. programFinished sample_services (CANNOT_KILL, sample_executor) 7
      (sample_manager\<lparr>pc_hostName := ''h'', pc_port := 80\<rparr>) w1 = Some (Inr w2) \<and>
    wo_actions w2 = ASave ''/tmp/status.json'' ''{}'' #
      attempts (event_request sample_services sample_manager (''localhost'', 8080, []) ''statusUpdated'' (started_doc ''h'' 80)) 5 8 f1 @
      ASave ''/tmp/status.json'' ''{}'' #
      attempts (event_request sample_services sample_manager (''localhost'', 8080, []) ''statusUpdated''
        (finished_doc (sample_manager\<lparr>pc_hostName := ''h'', pc_port := 80\<rparr>) (CANNOT_KILL, sample_executor) 7)) 5 8 f2"
  using status_saved_then_posted [of sample_manager sample_services "(''localhost'', 8080, [])" "''h''" 80
      empty_world "(CANNOT_KILL, sample_executor)" 7]
  by (auto simp: jsonToString_def empty_world_def)

text \<open>A generated file that could not be posted is remembered as posted: when every attempt failed, the
  same file is not posted again.\<close>

theorem failed_post_forgotten:
  assumes "pc_uri p \<noteq> []" "sv_uri sv (pc_uri p) = Inr u" "pc_maxRetry p \<noteq> - 1"
    and "\<And>k. \<not> answered_ok sv k" "pc_lastPosted p t = None"
  shows "\<exists>p' w'. fileGenerated sv t d (p, w) = Some (p', w') \<and>
    wo_actions w' = wo_actions w @
      attempts (event_request sv p u (''fileGenerated:'' @ t) d) 5 8 (unat (pc_maxRetry p)) \<and>
    fileGenerated sv t d (p', w') = Some (p', w')"
proof -
  have cp: "can_post sv p u" using assms by (simp add: can_post_def)
  obtain w' where w': "postEvent sv p (''fileGenerated:'' @ t) d w = Some w'" "wo_actions w' = wo_actions w @
      attempts (event_request sv p u (''fileGenerated:'' @ t) d) 5 8 (max_retries p)"
    using postEvent_ok [OF cp, of "''fileGenerated:'' @ t" d w] assms(4) by auto
  then show ?thesis using assms(1,5)
    by (intro exI [of _ "p\<lparr>pc_lastPosted := (pc_lastPosted p)(t \<mapsto> jsonToString sv d)\<rparr>"] exI [of _ w'])
      (simp add: fileGenerated_def max_retries_def Let_def)
qed

lemma failed_post_forgotten_witness:
  "\<exists>p' w'. fileGenerated dead_services ''config'' (JInt 1) (sample_manager, empty_world) = Some (p', w') \<and>
    length (wo_actions w') = 11 \<and> fileGenerated dead_services ''config'' (JInt 1) (p', w') = Some (p', w')"
  using failed_post_forgotten [of sample_manager dead_services "(''localhost'', 8080, [])" "''config''" "JInt 1" empty_world]
  by (auto simp: answered_ok_def empty_world_def attempts_def length_concat comp_def sum_list_triv)

end
