(* ===== verification/FilesWatcher.thy ===== *)
theory FilesWatcher
  imports PersistCallback
begin

text \<open>
  The class \<open>GeneratedFilesWatcher\<close> (src/src/GeneratedFilesWatcher.h, .cpp), which reports JSON files that the
  program writes to its working directory. The directory watcher of Poco is outside: its events are the
  calls of \<open>onFileUpdated\<close>. What reading and parsing a file gives, the last part of a path, its
  extension by a name and whether it is a plain file are arguments.
\<close>

section \<open>State and operations\<close>

record files_watcher =
  gw_workDir :: string
  gw_watching :: bool
  gw_fileNamesToTags :: "(string \<times> string) list"

text \<open>The map in the order of its keys, in which \<open>collectAll\<close> visits it.\<close>

definition fileNamesToTags :: "(string \<times> string) list" where
  "fileNamesToTags =
     [(''config.defaults.json'', ''defConfig''), (''config.json'', ''config''), (''result.json'', ''result''),
      (''webui.json'', ''webUI'')]"

definition GeneratedFilesWatcher_new :: "string \<Rightarrow> files_watcher" where
  "GeneratedFilesWatcher_new workDir =
     \<lparr>gw_workDir = workDir, gw_watching = False, gw_fileNamesToTags = fileNamesToTags\<rparr>"

text \<open>\<open>fails\<close> is the exception of the constructor of the directory watcher, if any.\<close>

definition gw_start :: "err option \<Rightarrow> files_watcher \<Rightarrow> files_watcher res" where
  "gw_start fails gw = (case fails of Some e \<Rightarrow> Inl e | None \<Rightarrow> Inr (gw\<lparr>gw_watching := True\<rparr>))"

definition gw_stop :: "files_watcher \<Rightarrow> files_watcher" where
  "gw_stop gw = (if gw_watching gw then gw\<lparr>gw_watching := False\<rparr> else gw)"

definition GeneratedFilesWatcher_destroy :: "files_watcher \<Rightarrow> files_watcher" where
  "GeneratedFilesWatcher_destroy gw = (if gw_watching gw then gw_stop gw else gw)"

definition loadJsonFile :: "(string \<Rightarrow> string res) \<Rightarrow> (string \<Rightarrow> 'j json res) \<Rightarrow> string \<Rightarrow> 'j json res" where
  "loadJsonFile read parse jsonFilePath = rbind (read jsonFilePath) parse"

text \<open>The handler gives its new state and the exception it threw, if any; \<open>None\<close> if it never returns.\<close>

type_synonym ('j, 's) watch_handler = "string \<Rightarrow> 'j json \<Rightarrow> 's \<Rightarrow> ('s \<times> err option) option"

definition processFile :: "(string \<Rightarrow> 'j json res) \<Rightarrow> ('j, 's) watch_handler \<Rightarrow> string \<Rightarrow> string \<Rightarrow> 's \<Rightarrow> 's option" where
  "processFile load handler filePath fileTag s =
     (case load filePath of
        Inl _ \<Rightarrow> Some s
      | Inr jsonObject \<Rightarrow> map_option fst (handler fileTag jsonObject s))"

definition onFileUpdated ::
  "(string \<Rightarrow> string) \<Rightarrow> (string \<Rightarrow> 'j json res) \<Rightarrow> ('j, 's) watch_handler \<Rightarrow> files_watcher \<Rightarrow> string \<Rightarrow> 's \<Rightarrow>
   's option" where
  "onFileUpdated getFileName load handler gw path s =
     (case map_of (gw_fileNamesToTags gw) (getFileName path) of
        Some fileTag \<Rightarrow> processFile load handler path fileTag s
      | None \<Rightarrow> Some s)"

fun collect_files ::
  "(string \<Rightarrow> string \<Rightarrow> string) \<Rightarrow> (string \<Rightarrow> bool) \<Rightarrow> (string \<Rightarrow> 'j json res) \<Rightarrow> ('j, 's) watch_handler \<Rightarrow> string \<Rightarrow>
   (string \<times> string) list \<Rightarrow> 's \<Rightarrow> 's option" where
  "collect_files appendTo isFile load handler workDir [] s = Some s"
| "collect_files appendTo isFile load handler workDir ((name, fileTag) # its) s =
     (let filePath = appendTo workDir name in
      case (if isFile filePath then processFile load handler filePath fileTag s else Some s) of
        None \<Rightarrow> None
      | Some s' \<Rightarrow> collect_files appendTo isFile load handler workDir its s')"

definition collectAll ::
  "(string \<Rightarrow> string \<Rightarrow> string) \<Rightarrow> (string \<Rightarrow> bool) \<Rightarrow> (string \<Rightarrow> 'j json res) \<Rightarrow> ('j, 's) watch_handler \<Rightarrow>
   files_watcher \<Rightarrow> 's \<Rightarrow> 's option" where
  "collectAll appendTo isFile load handler gw s =
     collect_files appendTo isFile load handler (gw_workDir gw) (gw_fileNamesToTags gw) s"

text \<open>
  The handler that \<open>runApp\<close> installs, and a whole session: the updates seen while the program ran,
  each with what could be read at that moment, then \<open>stop\<close> and \<open>collectAll\<close>.
\<close>

definition report_handler :: "'j services \<Rightarrow> ('j, pc_manager \<times> world) watch_handler" where
  "report_handler sv fileTag jsonObject s = map_option (\<lambda>s'. (s', None)) (fileGenerated sv fileTag jsonObject s)"

fun watch_updates ::
  "(string \<Rightarrow> string) \<Rightarrow> ('j, 's) watch_handler \<Rightarrow> files_watcher \<Rightarrow> (string \<times> 'j json res) list \<Rightarrow> 's \<Rightarrow> 's option" where
  "watch_updates getFileName handler gw [] s = Some s"
| "watch_updates getFileName handler gw ((path, content) # us) s =
     (case onFileUpdated getFileName (\<lambda>_. content) handler gw path s of
        None \<Rightarrow> None
      | Some s' \<Rightarrow> watch_updates getFileName handler gw us s')"

definition watch_session ::
  "(string \<Rightarrow> string) \<Rightarrow> (string \<Rightarrow> string \<Rightarrow> string) \<Rightarrow> (string \<Rightarrow> bool) \<Rightarrow> (string \<Rightarrow> 'j json res) \<Rightarrow>
   ('j, 's) watch_handler \<Rightarrow> files_watcher \<Rightarrow> (string \<times> 'j json res) list \<Rightarrow> 's \<Rightarrow> 's option" where
  "watch_session getFileName appendTo isFile load handler gw us s =
     (case watch_updates getFileName handler gw us s of
        None \<Rightarrow> None
      | Some s' \<Rightarrow> collectAll appendTo isFile load handler (gw_stop gw) s')"

section \<open>A session is a sequence of reports\<close>

text \<open>What is reported: the updates of watched files that could be parsed, and the files found at the end.\<close>

fun updates_reported :: "(string \<Rightarrow> string) \<Rightarrow> (string \<times> 'j json res) list \<Rightarrow> (string \<times> 'j json) list" where
  "updates_reported getFileName [] = []"
| "updates_reported getFileName ((path, content) # us) =
     (case (map_of fileNamesToTags (getFileName path), content) of
        (Some t, Inr j) \<Rightarrow> [(t, j)]
      | _ \<Rightarrow> []) @ updates_reported getFileName us"

fun files_found ::
  "(string \<Rightarrow> string) \<Rightarrow> (string \<Rightarrow> bool) \<Rightarrow> (string \<Rightarrow> 'j json res) \<Rightarrow> (string \<times> string) list \<Rightarrow>
   (string \<times> 'j json) list" where
  "files_found path isFile load [] = []"
| "files_found path isFile load ((name, t) # its) =
     (if isFile (path name) then (case load (path name) of Inl _ \<Rightarrow> [] | Inr j \<Rightarrow> [(t, j)]) else []) @
     files_found path isFile load its"

lemma generated_run_append:
  "generated_run sv (xs @ ys) s = (case generated_run sv xs s of None \<Rightarrow> None | Some s' \<Rightarrow> generated_run sv ys s')"
  by (induction xs arbitrary: s) (auto split: option.splits)

lemma generated_run_one: "generated_run sv [(t, d)] s = fileGenerated sv t d s"
  by (simp split: option.splits)

lemma processFile_report:
  "processFile load (report_handler sv) path t s =
     generated_run sv (case load path of Inl _ \<Rightarrow> [] | Inr j \<Rightarrow> [(t, j)]) s"
  by (cases "load path")
    (simp_all add: processFile_def report_handler_def option.map_comp comp_def option.map_ident split: option.splits)

lemma watch_updates_report:
  "gw_fileNamesToTags gw = fileNamesToTags \<Longrightarrow>
   watch_updates getFileName (report_handler sv) gw us s = generated_run sv (updates_reported getFileName us) s"
proof (induction us arbitrary: s)
  case (Cons u us)
  obtain path content where u: "u = (path, content)" by (cases u)
  show ?case
    using Cons by (cases content)
      (auto simp: u onFileUpdated_def processFile_report generated_run_append split: option.splits)
qed simp

lemma collect_files_report:
  "collect_files appendTo isFile load (report_handler sv) workDir its s =
     generated_run sv (files_found (appendTo workDir) isFile load its) s"
proof (induction its arbitrary: s)
  case (Cons it its)
  obtain name t where it: "it = (name, t)" by (cases it)
  show ?case
    using Cons by (auto simp: it Let_def processFile_report generated_run_append split: option.splits)
qed simp

lemma watch_session_report:
  assumes "gw_fileNamesToTags gw = fileNamesToTags"
  shows "watch_session getFileName appendTo isFile load (report_handler sv) gw us s =
    generated_run sv (updates_reported getFileName us @
      files_found (appendTo (gw_workDir gw)) isFile load fileNamesToTags) s"
  using assms by (simp add: watch_session_def watch_updates_report collectAll_def gw_stop_def
      collect_files_report generated_run_append split: option.splits)

lemma latest_other: "t \<notin> fst ` set xs \<Longrightarrow> latest ser xs m t = m t"
  by (induction xs arbitrary: m) auto

lemma latest_append: "latest ser (xs @ ys) m = latest ser ys (latest ser xs m)"
  by (simp add: latest_def)

lemma files_found_tags: "fst ` set (files_found path isFile load its) \<subseteq> snd ` set its"
proof (induction its)
  case (Cons it its)
  obtain name t where it: "it = (name, t)" by (cases it)
  obtain xs where xs: "files_found path isFile load (it # its) = xs @ files_found path isFile load its"
      "xs = [] \<or> (\<exists>j. xs = [(t, j)])"
    by (cases "load (path name)") (simp_all add: it)
  show ?case unfolding xs(1) using xs(2) Cons by (auto simp: it simp del: files_found.simps)
qed simp

lemma files_found_latest:
  assumes "(name, t) \<in> set its" "distinct (map snd its)" "isFile (path name)" "load (path name) = Inr j"
  shows "latest ser (files_found path isFile load its) m t = Some (ser j)"
  using assms(1,2)
proof (induction its arbitrary: m)
  case (Cons it its)
  obtain name' t' where it: "it = (name', t')" by (cases it)
  show ?case
  proof (cases "(name, t) \<in> set its")
    case True
    then show ?thesis using Cons by (auto simp: it latest_append split: sum.splits)
  next
    case False
    then have "it = (name, t)" using Cons.prems(1) by auto
    moreover have "t \<notin> fst ` set (files_found path isFile load its)"
      using files_found_tags [of path isFile load its] Cons.prems(2) calculation by auto
    ultimately show ?thesis using assms(3,4) by (simp add: latest_other)
  qed
qed simp

section \<open>Properties\<close>

text \<open>C19: The watcher and the manager together report every watched file: the posts of a session are those of
  the updates seen and then of the files found at the end, without repetitions, and afterwards the
  current text of every watched file that exists and parses is the one reported last under its tag.
  Files that cannot be read or parsed are skipped.\<close>

theorem watched_files_reported:
  assumes "pc_uri p \<noteq> []" "sv_uri sv (pc_uri p) = Inr u" "pc_maxRetry p \<noteq> - 1"
  shows "let gw = GeneratedFilesWatcher_new workDir;
      xs = updates_reported getFileName us @ files_found (appendTo workDir) isFile load fileNamesToTags
    in \<exists>p' w' fs. watch_session getFileName appendTo isFile load (report_handler sv) gw us (p, w) = Some (p', w') \<and>
    length fs = length (changed (jsonToString sv) (pc_lastPosted p) xs) \<and>
    wo_actions w' = wo_actions w @
      concat (map (generated_actions sv p u) (zip (changed (jsonToString sv) (pc_lastPosted p) xs) fs)) \<and>
    (\<forall>(name, t) \<in> set fileNamesToTags. \<forall>j. isFile (appendTo workDir name) \<and> load (appendTo workDir name) = Inr j \<longrightarrow>
      pc_lastPosted p' t = Some (jsonToString sv j))"
proof -
  define gw where "gw = GeneratedFilesWatcher_new workDir"
  define xs where "xs = updates_reported getFileName us @ files_found (appendTo workDir) isFile load fileNamesToTags"
  have gw: "gw_fileNamesToTags gw = fileNamesToTags" "gw_workDir gw = workDir"
    by (simp_all add: gw_def GeneratedFilesWatcher_new_def)
  have cp: "can_post sv p u" using assms by (simp add: can_post_def)
  obtain w' fs where run: "generated_run sv xs (p, w) =
      Some (p\<lparr>pc_lastPosted := latest (jsonToString sv) xs (pc_lastPosted p)\<rparr>, w')"
    "length fs = length (changed (jsonToString sv) (pc_lastPosted p) xs)"
    "wo_actions w' = wo_actions w @
      concat (map (generated_actions sv p u) (zip (changed (jsonToString sv) (pc_lastPosted p) xs) fs))"
    using generated_run_ok [OF cp, of xs w] by blast
  have sess: "watch_session getFileName appendTo isFile load (report_handler sv) gw us (p, w) = generated_run sv xs (p, w)"
    using watch_session_report [OF gw(1)] by (simp add: gw(2) xs_def)
  have dist: "distinct (map snd fileNamesToTags)" by (simp add: fileNamesToTags_def)
  have "latest (jsonToString sv) xs (pc_lastPosted p) t = Some (jsonToString sv j)"
    if "(name, t) \<in> set fileNamesToTags" "isFile (appendTo workDir name)" "load (appendTo workDir name) = Inr j" for name t j
    unfolding xs_def latest_append 
    using files_found_latest [where path = "appendTo workDir", OF that(1) dist] that(2,3) by blast
  then show ?thesis unfolding Let_def gw_def [symmetric] xs_def [symmetric]
    using run sess
    by (intro exI [of _ "p\<lparr>pc_lastPosted := latest (jsonToString sv) xs (pc_lastPosted p)\<rparr>"] exI [of _ w'] exI [of _ fs])
      auto
qed

lemma watched_files_reported_witness:
  "\<exists>p' w'. watch_session (\<lambda>p. ''config.json'') (\<lambda>d n. n) (\<lambda>n. n = ''result.json'') (\<lambda>n. Inr (JInt 1))
      (report_handler sample_services) (GeneratedFilesWatcher_new ''/tmp'') [(''/tmp/config.json'', Inr (JInt 2))]
      (sample_manager, empty_world) = Some (p', w') \<and> pc_lastPosted p' ''result'' = Some ''{}''"
  using watched_files_reported [of sample_manager sample_services "(''localhost'', 8080, [])",
      where getFileName = "\<lambda>p. ''config.json''" and us = "[(''/tmp/config.json'', Inr (JInt 2))]"
        and appendTo = "\<lambda>d n. n" and workDir = "''/tmp''" and isFile = "\<lambda>n. n = ''result.json''"
        and load = "\<lambda>n. Inr (JInt 1)" and w = empty_world]
  by (auto simp: jsonToString_def fileNamesToTags_def Let_def)

end
