(* ===== verification/Logger.thy ===== *)
theory Logger
  imports ProgramExecutor
begin

text \<open>
  The root logger (src/src/Logger.h, src/src/Logger.cpp). Loggers are named by numbers, 0 is the null
  pointer; \<open>lg_stderr\<close> is what has been printed, oldest first. Printing is one critical section.
\<close>

record logger_state =
  lg_root :: nat
  lg_stderr :: "string list"

definition logger_init :: logger_state where
  "logger_init = \<lparr>lg_root = 1, lg_stderr = []\<rparr>"

text \<open>\<open>getLogger\<close> dereferences the root pointer.\<close>

definition getLogger :: "logger_state \<Rightarrow> nat res" where
  "getLogger s = (if lg_root s = 0 then Inl NullPointer else Inr (lg_root s))"

definition setRootLogger :: "nat \<Rightarrow> logger_state \<Rightarrow> nat \<times> logger_state" where
  "setRootLogger rootLogger s = (lg_root s, s\<lparr>lg_root := rootLogger\<rparr>)"

definition log_message :: "string \<Rightarrow> string \<Rightarrow> logger_state \<Rightarrow> logger_state" where
  "log_message level message s =
     s\<lparr>lg_stderr := lg_stderr s @ [''['' @ c_str (level @ [CHR 0x00]) @ ''] '' @ c_str (message @ [CHR 0x00]) @ endl]\<rparr>"

definition log_info :: "string \<Rightarrow> logger_state \<Rightarrow> logger_state" where
  "log_info = log_message ''INFO''"

definition log_warn :: "string \<Rightarrow> logger_state \<Rightarrow> logger_state" where
  "log_warn = log_message ''WARN''"

definition log_error :: "string \<Rightarrow> logger_state \<Rightarrow> logger_state" where
  "log_error = log_message ''ERROR''"

text \<open>The scoped replacement: its constructor gives the pointer its destructor restores.\<close>

definition ScopedRootLogger_new :: "nat \<Rightarrow> logger_state \<Rightarrow> nat \<times> logger_state" where
  "ScopedRootLogger_new rootLogger s = setRootLogger rootLogger s"

definition ScopedRootLogger_destroy :: "nat \<Rightarrow> logger_state \<Rightarrow> logger_state" where
  "ScopedRootLogger_destroy originalLogger s = snd (setRootLogger originalLogger s)"

text \<open>
  The overloads with arguments; \<open>fmt\<close> is \<open>Poco::format\<close>, given the arguments as they are printed.
\<close>

type_synonym formatter = "string \<Rightarrow> string list \<Rightarrow> string"

definition info1 :: "formatter \<Rightarrow> string \<Rightarrow> string \<Rightarrow> logger_state \<Rightarrow> logger_state" where
  "info1 fmt format arg1 = log_info (fmt format [arg1])"

definition info2 :: "formatter \<Rightarrow> string \<Rightarrow> string \<Rightarrow> string \<Rightarrow> logger_state \<Rightarrow> logger_state" where
  "info2 fmt format arg1 arg2 = log_info (fmt format [arg1, arg2])"

definition info3 :: "formatter \<Rightarrow> string \<Rightarrow> string \<Rightarrow> string \<Rightarrow> string \<Rightarrow> logger_state \<Rightarrow> logger_state" where
  "info3 fmt format arg1 arg2 arg3 = log_info (fmt format [arg1, arg2, arg3])"

definition warn1 :: "formatter \<Rightarrow> string \<Rightarrow> string \<Rightarrow> logger_state \<Rightarrow> logger_state" where
  "warn1 fmt format arg1 = log_warn (fmt format [arg1])"

definition warn2 :: "formatter \<Rightarrow> string \<Rightarrow> string \<Rightarrow> string \<Rightarrow> logger_state \<Rightarrow> logger_state" where
  "warn2 fmt format arg1 arg2 = log_warn (fmt format [arg1, arg2])"

definition error1 :: "formatter \<Rightarrow> string \<Rightarrow> string \<Rightarrow> logger_state \<Rightarrow> logger_state" where
  "error1 fmt format arg1 = log_error (fmt format [arg1])"

definition error2 :: "formatter \<Rightarrow> string \<Rightarrow> string \<Rightarrow> string \<Rightarrow> logger_state \<Rightarrow> logger_state" where
  "error2 fmt format arg1 arg2 = log_error (fmt format [arg1, arg2])"

text \<open>
  The class \<open>ErrorHandler\<close> of src/src/main.cpp, which Poco calls with the exception that ended a background
  thread: one of its own (with its \<open>displayText\<close>), one of the standard library (with \<open>what\<close>), or another.
\<close>

datatype thread_exception = PocoThread string | StdThread string | OtherThread

definition ErrorHandler_log :: "formatter \<Rightarrow> string \<Rightarrow> logger_state \<Rightarrow> logger_state" where
  "ErrorHandler_log fmt message = error1 fmt ''A thread was terminated by an unhandled exception: %s'' message"

fun ErrorHandler_exception :: "formatter \<Rightarrow> thread_exception \<Rightarrow> logger_state \<Rightarrow> logger_state" where
  "ErrorHandler_exception fmt (PocoThread displayText) = ErrorHandler_log fmt displayText"
| "ErrorHandler_exception fmt (StdThread whatText) = ErrorHandler_log fmt whatText"
| "ErrorHandler_exception fmt OtherThread = ErrorHandler_log fmt ''unknown exception''"

text \<open>Every exception of a thread is one line of the log, and the logger stays what it was.\<close>

lemma thread_exception_logged:
  "\<exists>line. lg_stderr (ErrorHandler_exception fmt e s) = lg_stderr s @ [line] \<and>
     lg_root (ErrorHandler_exception fmt e s) = lg_root s"
  by (cases e) (simp_all add: ErrorHandler_log_def error1_def log_error_def log_message_def)

text \<open>A scope, whose body only logs or opens scopes, leaves the root logger as it was.\<close>

lemma scoped_logger_restores:
  assumes "\<And>s. lg_root (body s) = lg_root s"
  shows "(case ScopedRootLogger_new l s of (orig, s1) \<Rightarrow>
      lg_root s1 = l \<and> lg_root (ScopedRootLogger_destroy orig (body s1)) = lg_root s)"
  using assms by (simp add: ScopedRootLogger_new_def ScopedRootLogger_destroy_def setRootLogger_def)

lemma log_root [simp]: "lg_root (log_message level message s) = lg_root s"
  by (simp add: log_message_def)

text \<open>A null root logger is not replaced by the default one: the next access is a fault.\<close>

lemma null_root_logger: "getLogger (snd (setRootLogger 0 s)) = Inl NullPointer"
  by (simp add: setRootLogger_def getLogger_def)

end
