(* ===== verification/WebServer.thy ===== *)
theory WebServer
  imports BufferClient ProgramExecutor
begin

text \<open>
  The HTTP interface (src/src/WebServerFactory.cpp): the routing of \<open>createRequestHandler\<close> and the
  handlers \<open>OutputPollHandler\<close>, \<open>KillHandler\<close> and \<open>NotFoundHandler\<close>. A response is what the handler
  has set and sent when it returns. The number parsers and \<open>Poco::format\<close> are arguments, and so
  are the two operations of the output buffer, so that the loops can be run on a session.
\<close>

section \<open>Responses\<close>

record http_response =
  hr_status :: int
  hr_chunked :: bool
  hr_contentType :: string
  hr_sent :: bool
  hr_body :: "cell list"

definition response :: "int \<Rightarrow> cell list \<Rightarrow> http_response" where
  "response status body = \<lparr>hr_status = status, hr_chunked = False, hr_contentType = [], hr_sent = True,
     hr_body = body\<rparr>"

definition NotFoundHandler :: http_response where
  "NotFoundHandler = response 404 (htext ''<h1>Not Found</h1>'')"

section \<open>Routing\<close>

datatype route = PollRoute | KillRoute | NotFoundRoute

definition createRequestHandler :: "string \<Rightarrow> route" where
  "createRequestHandler path =
     (if path = ''/output/_poll'' then PollRoute
      else if path = ''/_kill'' then KillRoute
      else NotFoundRoute)"

section \<open>Polling the output\<close>

definition CLIENT_READ_MAX_TIMEOUT_SECONDS :: int where
  "CLIENT_READ_MAX_TIMEOUT_SECONDS = 300"

definition CLIENT_READ_DEFAULT_TIMEOUT_SECONDS :: int where
  "CLIENT_READ_DEFAULT_TIMEOUT_SECONDS = 60"

record poll_params =
  pp_begin :: int
  pp_timeout :: int
  pp_readCount :: nat

definition poll_defaults :: poll_params where
  "poll_defaults = \<lparr>pp_begin = 0, pp_timeout = CLIENT_READ_DEFAULT_TIMEOUT_SECONDS * 1000,
     pp_readCount = 0\<rparr>"

text \<open>The factory, and what each handler takes from it: \<open>'e\<close> is the executor and \<open>'b\<close> the output buffer.\<close>

record ('e, 'b) web_factory =
  wf_executor :: 'e
  wf_outputBuffer :: 'b
  wf_requestBufferSize :: nat

definition WebServerFactory_new :: "'e \<Rightarrow> 'b \<Rightarrow> nat \<Rightarrow> ('e, 'b) web_factory" where
  "WebServerFactory_new ex ob requestBufferSize =
     \<lparr>wf_executor = ex, wf_outputBuffer = ob, wf_requestBufferSize = requestBufferSize\<rparr>"

record ('e, 'b) request_handler =
  rh_uri :: string
  rh_executor :: 'e
  rh_outputBuffer :: 'b
  rh_requestBufferSize :: nat

definition request_handler_new :: "string \<Rightarrow> ('e, 'b) web_factory \<Rightarrow> ('e, 'b) request_handler" where
  "request_handler_new uri f = \<lparr>rh_uri = uri, rh_executor = wf_executor f,
     rh_outputBuffer = wf_outputBuffer f, rh_requestBufferSize = wf_requestBufferSize f\<rparr>"

text \<open>The loop over the query parameters; \<open>None\<close> is the early return after a bad request.\<close>

fun poll_query ::
  "(string \<Rightarrow> int option) \<Rightarrow> (string \<Rightarrow> nat option) \<Rightarrow> (string \<times> string) list \<Rightarrow> poll_params \<Rightarrow>
   poll_params option" where
  "poll_query tryParse64 tryParseUnsigned [] p = Some p"
| "poll_query tryParse64 tryParseUnsigned ((key, val) # q) p =
     (if key = ''begin'' then
        (case tryParse64 val of
           None \<Rightarrow> None
         | Some beginValue \<Rightarrow> poll_query tryParse64 tryParseUnsigned q (p\<lparr>pp_begin := beginValue\<rparr>))
      else if key = ''timeout'' then
        (case tryParseUnsigned val of
           None \<Rightarrow> None
         | Some timeoutValue \<Rightarrow>
             poll_query tryParse64 tryParseUnsigned q
               (p\<lparr>pp_timeout := min (int timeoutValue * 1000) (CLIENT_READ_MAX_TIMEOUT_SECONDS * 1000)\<rparr>))
      else if key = ''count'' then
        (case tryParseUnsigned val of
           None \<Rightarrow> None
         | Some countValue \<Rightarrow> poll_query tryParse64 tryParseUnsigned q (p\<lparr>pp_readCount := countValue\<rparr>))
      else poll_query tryParse64 tryParseUnsigned q p)"

text \<open>
  The two loops that send the output that is fetchable at once. \<open>good k\<close> is what the \<open>k\<close>-th
  test of \<open>r.good()\<close> gives, \<open>out\<close> what has been sent.
\<close>

type_synonym 's try_read = "int \<Rightarrow> cell list \<Rightarrow> nat \<Rightarrow> 's \<Rightarrow> ((read_result \<times> cell list) \<times> 's) res"

partial_function (option) poll_counted ::
  "'s try_read \<Rightarrow> (nat \<Rightarrow> bool) \<Rightarrow> nat \<Rightarrow> nat \<Rightarrow> nat \<Rightarrow> int \<Rightarrow> nat \<Rightarrow> cell list \<Rightarrow> cell list \<Rightarrow> 's \<Rightarrow>
   (cell list \<times> 's) res option" where
  "poll_counted tr good bufferSize readCount k begin writtenBytes buffer out s =
     (if writtenBytes < readCount \<and> good k then
        (let newReadCount = min (sz_sub readCount writtenBytes) bufferSize in
         case tr begin buffer newReadCount s of
           Inl e \<Rightarrow> Some (Inl e)
         | Inr ((result, t), s') \<Rightarrow>
             (if rr_isTimeout result \<or> rr_isClosed result \<or> of_ssize begin \<noteq> rr_begin result
              then Some (Inr (out, s'))
              else poll_counted tr good bufferSize readCount (Suc k)
                     (to_ssize (sz_add (rr_begin result) (rr_count result)))
                     (sz_add writtenBytes (rr_count result)) t (out @ take (rr_count result) t) s'))
      else Some (Inr (out, s)))"

partial_function (option) poll_all ::
  "'s try_read \<Rightarrow> (nat \<Rightarrow> bool) \<Rightarrow> nat \<Rightarrow> nat \<Rightarrow> int \<Rightarrow> cell list \<Rightarrow> cell list \<Rightarrow> 's \<Rightarrow>
   (cell list \<times> 's) res option" where
  "poll_all tr good bufferSize k begin buffer out s =
     (if good k then
        (case tr begin buffer bufferSize s of
           Inl e \<Rightarrow> Some (Inl e)
         | Inr ((result, t), s') \<Rightarrow>
             (if rr_isTimeout result \<or> rr_isClosed result \<or> of_ssize begin \<noteq> rr_begin result
              then Some (Inr (out, s'))
              else poll_all tr good bufferSize (Suc k)
                     (to_ssize (sz_add (rr_begin result) (rr_count result)))
                     t (out @ take (rr_count result) t) s'))
      else Some (Inr (out, s)))"

type_synonym 's block_read =
  "int \<Rightarrow> cell list \<Rightarrow> nat \<Rightarrow> int \<Rightarrow> 's \<Rightarrow> ((read_result \<times> cell list) \<times> 's) res option"

text \<open>
  The reply to the first \<open>result\<close>, whose bytes are in \<open>t\<close>: \<open>fmtx\<close> is \<open>Poco::format\<close> with the pattern
  for a number in hexadecimal and a line end.
\<close>

definition poll_reply ::
  "'s try_read \<Rightarrow> (nat \<Rightarrow> string) \<Rightarrow> (nat \<Rightarrow> bool) \<Rightarrow> nat \<Rightarrow> nat \<Rightarrow> read_result \<Rightarrow> cell list \<Rightarrow> 's \<Rightarrow>
   (http_response \<times> 's) res option" where
  "poll_reply tr fmtx good bufferSize readCount result t s =
     (if rr_isClosed result
      then Some (Inr (response 410 (htext (''<h1>Program exited.</h1>'' @ endl)), s))
      else if rr_isTimeout result then Some (Inr (response 204 [], s))
      else
        (let begin = to_ssize (sz_add (rr_begin result) (rr_count result));
             first = take (rr_count result) t
         in map_option (\<lambda>r. rbind r (\<lambda>(out, s').
                Inr ((response 200 (htext (fmtx (rr_begin result)) @ out))\<lparr>hr_chunked := True\<rparr>, s')))
              (if readCount > 0
               then poll_counted tr good bufferSize readCount 0 begin (rr_count result) t first s
               else poll_all tr good bufferSize 0 begin t first s)))"

text \<open>\<open>OutputPollHandler::handleRequest\<close> after its parameters. \<open>None\<close> is a request that is never answered.\<close>

definition poll_run ::
  "'s block_read \<Rightarrow> 's try_read \<Rightarrow> (nat \<Rightarrow> string) \<Rightarrow> (nat \<Rightarrow> bool) \<Rightarrow> nat \<Rightarrow> poll_params \<Rightarrow> 's \<Rightarrow>
   (http_response \<times> 's) res option" where
  "poll_run rd tr fmtx good requestBufferSize p s =
     (let readCount = pp_readCount p;
          bufferSize = (if readCount > 0 then min requestBufferSize readCount else requestBufferSize)
      in case rd (pp_begin p) (malloc bufferSize) bufferSize (pp_timeout p) s of
           None \<Rightarrow> None
         | Some (Inl e) \<Rightarrow> Some (Inl e)
         | Some (Inr ((result, t), s')) \<Rightarrow> poll_reply tr fmtx good bufferSize readCount result t s')"

definition OutputPollHandler ::
  "'s block_read \<Rightarrow> 's try_read \<Rightarrow> (nat \<Rightarrow> string) \<Rightarrow> (string \<Rightarrow> int option) \<Rightarrow> (string \<Rightarrow> nat option) \<Rightarrow>
   (nat \<Rightarrow> bool) \<Rightarrow> nat \<Rightarrow> (string \<times> string) list \<Rightarrow> 's \<Rightarrow> (http_response \<times> 's) res option" where
  "OutputPollHandler rd tr fmtx tryParse64 tryParseUnsigned good requestBufferSize query s =
     (case poll_query tryParse64 tryParseUnsigned query poll_defaults of
        None \<Rightarrow> Some (Inr (response 400 (htext (''<h1>Bad Request</h1>'' @ endl)), s))
      | Some p \<Rightarrow> poll_run rd tr fmtx good requestBufferSize p s)"

section \<open>Killing the program\<close>

text \<open>
  \<open>KillHandler::handleRequest\<close> after its call of \<open>kill\<close>. It reads the executor up to seven times while other
  threads may change it: \<open>ex k\<close> is the executor at the read number \<open>k\<close>, in the order of the text. \<open>dec\<close> prints
  a number. A response that is never sent has \<open>hr_sent\<close> false.
\<close>

definition quote :: string where
  "quote = [CHR 0x22]"

definition KillHandler :: "(int \<Rightarrow> string) \<Rightarrow> (nat \<Rightarrow> executor) \<Rightarrow> http_response" where
  "KillHandler dec ex =
     (if pe_status (ex 0) \<noteq> EXITED \<and> pe_status (ex 1) \<noteq> SIGNALLED \<and> pe_status (ex 2) \<noteq> CANNOT_KILL
      then (response 500 [])\<lparr>hr_sent := False\<rparr>
      else
        (let r = (\<lambda>body. (response 200 (htext body))\<lparr>hr_contentType := ''text/json''\<rparr>);
             q = (\<lambda>s. quote @ s @ quote)
         in if pe_status (ex 3) = EXITED
            then r (''{'' @ q ''status'' @ '': '' @ q ''exited'' @ '', '' @ q ''exitCode'' @ '': '' @
                    dec (exitCode (ex 4)) @ ''}'')
            else if pe_status (ex 5) = SIGNALLED
            then r (''{'' @ q ''status'' @ '': '' @ q ''signalled'' @ '', '' @ q ''exitSignal'' @ '': '' @
                    dec (exitCode (ex 6)) @ ''}'')
            else r (''{'' @ q ''status'' @ '': '' @ q ''cannot_kill'' @ ''}'')))"

section \<open>The polling loops on any output source\<close>

lemma of_ssize_int: "k < 2 ^ 63 \<Longrightarrow> of_ssize (int k) = k"
  by (simp add: of_ssize_def SIZE_MOD_def)

lemma to_ssize_nat: "k < 2 ^ 63 \<Longrightarrow> to_ssize k = int k"
  by (simp add: to_ssize_def SIZE_MOD_def)

lemma slice_append:
  "take (m + n) (drop k h) = take m (drop k h) @ take n (drop (k + m) h)"
  by (simp add: take_add add.commute)

text \<open>What has been sent is the piece of the history from \<open>k0\<close> on.\<close>

definition sent_ok :: "cell list \<Rightarrow> nat \<Rightarrow> cell list \<Rightarrow> bool" where
  "sent_ok h k0 out \<longleftrightarrow> k0 + length out \<le> length h \<and> out = take (length out) (drop k0 h)"

lemma sent_extends: "sent_ok h k0 out \<Longrightarrow> extends h h' \<Longrightarrow> sent_ok h' k0 out"
  unfolding sent_ok_def using extends_slice extends_length by (metis le_trans)

lemma sent_more:
  assumes "sent_ok h k0 out" "k = k0 + length out" "k + n \<le> length h" "take n t = take n (drop k h)"
  shows "sent_ok h k0 (out @ take n t) \<and> length (take n t) = n"
proof -
  have len: "length (take n t) = n" using assms(3,4) by simp
  have "take (length out + n) (drop k0 h) = take (length out) (drop k0 h) @ take n (drop k h)"
    by (simp add: slice_append assms(2))
  then show ?thesis using assms len by (simp add: sent_ok_def add.assoc)
qed

lemma delivers_cases:
  assumes "delivers h begin cnt len rr t"
  obtains (stop) "rr_isTimeout rr \<or> rr_isClosed rr"
  | (data) k n where "rr = ReadResult k n" "n \<le> cnt" "k + n \<le> length h" "0 < cnt \<Longrightarrow> 0 < n"
      "take n t = take n (drop k h)" "length t = len"
  using assms unfolding delivers_def by (metis read_result_sel(5) read_result_sel(8))

context output_source
begin

lemma poll_counted_ok:
  assumes "ok s" "sent_ok (hist s) k0 out" "k = k0 + length out" "length buffer = bufferSize"
    "0 < bufferSize" "length out \<le> readCount" "readCount < 2 ^ 63"
  shows "\<exists>out' s'. poll_counted tr good bufferSize readCount i (int k) (length out) buffer out s =
      Some (Inr (out', s')) \<and> ok s' \<and> extends (hist s) (hist s') \<and> bound s' \<le> bound s \<and>
    capacity s' = capacity s \<and> sent_ok (hist s') k0 out' \<and> length out \<le> length out' \<and> length out' \<le> readCount"
  using assms
proof (induction "bound s - k" arbitrary: s out k buffer i rule: less_induct)
  case less
  note P = less.prems
  show ?case
  proof (cases "length out < readCount \<and> good i")
    case False
    then show ?thesis using P by (subst poll_counted.simps) auto
  next
    case True
    define c where "c = min (sz_sub readCount (length out)) bufferSize"
    have sub: "sz_sub readCount (length out) = readCount - length out"
      using P(6,7) by (intro sz_sub_eq) (simp_all add: SIZE_MOD_def)
    have c: "0 < c" "c \<le> length buffer" "length out + c \<le> readCount"
      using True P(4,5) sub by (auto simp: c_def)
    have hb: "length (hist s) \<le> bound s" "bound s < 2 ^ 63" using hist_bound [OF P(1)] by auto
    have k: "k \<le> length (hist s)" "k < 2 ^ 63"
      using P(2,3) hb by (auto simp: sent_ok_def)
    then have rng: "ssize_range (int k)" by (simp add: ssize_range_def)
    obtain rr t s1 where t1: "tr (int k) buffer c s = Inr ((rr, t), s1)" "ok s1"
      "extends (hist s) (hist s1)" "bound s1 \<le> bound s" "capacity s1 = capacity s"
      "delivers (hist s1) (int k) c (length buffer) rr t"
      using tr_ok [OF P(1) rng c(2)] by blast
    have sent1: "sent_ok (hist s1) k0 out" using sent_extends [OF P(2) t1(3)] .
    show ?thesis
    proof (cases "rr_isTimeout rr \<or> rr_isClosed rr \<or> of_ssize (int k) \<noteq> rr_begin rr")
      case stop: True
      then have "poll_counted tr good bufferSize readCount i (int k) (length out) buffer out s =
          Some (Inr (out, s1))"
        using True t1(1) by (subst poll_counted.simps) (simp add: c_def [symmetric])
      then show ?thesis using t1 sent1 P(6) by auto
    next
      case go: False
      from t1(6) obtain n where n: "rr = ReadResult k n" "n \<le> c" "k + n \<le> length (hist s1)" "0 < n"
        "take n t = take n (drop k (hist s1))" "length t = bufferSize"
        by (rule delivers_cases) (use go c(1) P(4) of_ssize_int [OF k(2)] in auto)
      note more = sent_more [OF sent1 P(3) n(3,5)]
      have b1: "k + n < 2 ^ 63" using n(3) hist_bound [OF t1(2)] by simp
      have adv: "to_ssize (sz_add k n) = int (k + n)" "sz_add (length out) n = length (out @ take n t)"
        using b1 c(3) n(2) P(7) more by (simp_all add: sz_add_eq SIZE_MOD_def to_ssize_nat)
      have dec: "bound s1 - (k + n) < bound s - k"
        using n(3,4) hist_bound [OF t1(2)] t1(4) by linarith
      have step: "poll_counted tr good bufferSize readCount i (int k) (length out) buffer out s =
          poll_counted tr good bufferSize readCount (Suc i) (int (k + n)) (length (out @ take n t)) t
            (out @ take n t) s1"
        using True go t1(1) n(1) adv by (subst poll_counted.simps) (simp add: c_def [symmetric])
      have len': "length (out @ take n t) = length out + n" using more by simp
      obtain out' s' where IH: "poll_counted tr good bufferSize readCount (Suc i) (int (k + n))
            (length (out @ take n t)) t (out @ take n t) s1 = Some (Inr (out', s'))" "ok s'"
        "extends (hist s1) (hist s')" "bound s' \<le> bound s1" "capacity s' = capacity s1" "sent_ok (hist s') k0 out'"
        "length (out @ take n t) \<le> length out'" "length out' \<le> readCount"
        using less.hyps [OF dec t1(2) conjunct1 [OF more] _ n(6) P(5) _ P(7), of "Suc i"]
          P(3) len' n(2) c(3) by auto
      then show ?thesis using step extends_trans [OF t1(3) IH(3)] t1(4,5) by auto
    qed
  qed
qed

lemma poll_all_ok:
  assumes "ok s" "sent_ok (hist s) k0 out" "k = k0 + length out" "length buffer = bufferSize" "0 < bufferSize"
  shows "\<exists>out' s'. poll_all tr good bufferSize i (int k) buffer out s = Some (Inr (out', s')) \<and> ok s' \<and>
    extends (hist s) (hist s') \<and> bound s' \<le> bound s \<and> capacity s' = capacity s \<and>
    sent_ok (hist s') k0 out' \<and> length out \<le> length out'"
  using assms
proof (induction "bound s - k" arbitrary: s out k buffer i rule: less_induct)
  case less
  note P = less.prems
  show ?case
  proof (cases "good i")
    case False
    then show ?thesis using P by (subst poll_all.simps) auto
  next
    case True
    have hb: "length (hist s) \<le> bound s" "bound s < 2 ^ 63" using hist_bound [OF P(1)] by auto
    have k: "k \<le> length (hist s)" "k < 2 ^ 63"
      using P(2,3) hb by (auto simp: sent_ok_def)
    then have rng: "ssize_range (int k)" by (simp add: ssize_range_def)
    have "bufferSize \<le> length buffer" using P(4) by simp
    then obtain rr t s1 where t1: "tr (int k) buffer bufferSize s = Inr ((rr, t), s1)" "ok s1"
      "extends (hist s) (hist s1)" "bound s1 \<le> bound s" "capacity s1 = capacity s"
      "delivers (hist s1) (int k) bufferSize (length buffer) rr t"
      using tr_ok [OF P(1) rng] by blast
    have sent1: "sent_ok (hist s1) k0 out" using sent_extends [OF P(2) t1(3)] .
    show ?thesis
    proof (cases "rr_isTimeout rr \<or> rr_isClosed rr \<or> of_ssize (int k) \<noteq> rr_begin rr")
      case stop: True
      then have "poll_all tr good bufferSize i (int k) buffer out s = Some (Inr (out, s1))"
        using True t1(1) by (subst poll_all.simps) simp
      then show ?thesis using t1 sent1 by auto
    next
      case go: False
      from t1(6) obtain n where n: "rr = ReadResult k n" "k + n \<le> length (hist s1)" "0 < n"
        "take n t = take n (drop k (hist s1))" "length t = bufferSize"
        by (rule delivers_cases) (use go P(4,5) of_ssize_int [OF k(2)] in auto)
      note more = sent_more [OF sent1 P(3) n(2,4)]
      have b1: "k + n < 2 ^ 63" using n(2) hist_bound [OF t1(2)] by simp
      have adv: "to_ssize (sz_add k n) = int (k + n)"
        using b1 by (simp add: sz_add_eq SIZE_MOD_def to_ssize_nat)
      have dec: "bound s1 - (k + n) < bound s - k"
        using n(2,3) hist_bound [OF t1(2)] t1(4) by linarith
      have step: "poll_all tr good bufferSize i (int k) buffer out s =
          poll_all tr good bufferSize (Suc i) (int (k + n)) t (out @ take n t) s1"
        using True go t1(1) n(1) adv by (subst poll_all.simps) simp
      obtain out' s' where IH: "poll_all tr good bufferSize (Suc i) (int (k + n)) t (out @ take n t) s1 =
          Some (Inr (out', s'))" "ok s'" "extends (hist s1) (hist s')" "bound s' \<le> bound s1" "capacity s' = capacity s1"
        "sent_ok (hist s') k0 out'" "length (out @ take n t) \<le> length out'"
        using less.hyps [OF dec t1(2) conjunct1 [OF more] _ n(5) P(5), of "Suc i"] P(3) more by auto
      then show ?thesis using step extends_trans [OF t1(3) IH(3)] t1(4,5) by auto
    qed
  qed
qed

end

section \<open>The handler on the buffer\<close>

text \<open>
  What a poll may answer when the output so far is \<open>h\<close>, of a buffer of \<open>m\<close> bytes that is closed if \<open>fin\<close>:
  gone, if the position it asks for is behind the end; no content; or a piece of the output, at
  the position or, if what is there has dropped out of the buffer, after it.
\<close>

definition poll_answer_ok ::
  "nat \<Rightarrow> bool \<Rightarrow> (nat \<Rightarrow> string) \<Rightarrow> poll_params \<Rightarrow> cell list \<Rightarrow> http_response \<Rightarrow> bool" where
  "poll_answer_ok m fin fmtx p h resp \<longleftrightarrow>
     resp = response 410 (htext (''<h1>Program exited.</h1>'' @ endl)) \<and>
       (0 \<le> pp_begin p \<longrightarrow> fin \<and> length h \<le> nat (pp_begin p)) \<or>
     resp = response 204 [] \<and> 0 < pp_timeout p \<or>
     (\<exists>k n. resp = (response 200 (htext (fmtx k) @ take n (drop k h)))\<lparr>hr_chunked := True\<rparr> \<and>
        0 < n \<and> k + n \<le> length h \<and> (0 < pp_readCount p \<longrightarrow> n \<le> pp_readCount p) \<and>
        (0 \<le> pp_begin p \<longrightarrow> nat (pp_begin p) \<le> k \<and> (k = nat (pp_begin p) \<or> k + m \<le> length h)))"

context min_heap
begin

lemma poll_run_ok:
  assumes ok: "se_ok H invar se" and size: "0 < requestBufferSize" "pp_readCount p < 2 ^ 63"
    and r: "ssize_range (pp_begin p)"
  shows "(poll_run (ses_read H) (ses_tryRead H) fmtx good requestBufferSize p se = None \<and> pp_timeout p \<le> 0) \<or>
    (\<exists>resp se'. poll_run (ses_read H) (ses_tryRead H) fmtx good requestBufferSize p se = Some (Inr (resp, se')) \<and>
       se_ok H invar se' \<and> extends (se_hist se) (se_hist se') \<and> se_capacity se' = se_capacity se \<and>
       poll_answer_ok (se_capacity se) (se_closed se') fmtx p (se_hist se') resp)"
proof -
  define rc where "rc = pp_readCount p"
  define bs where "bs = (if rc > 0 then min requestBufferSize rc else requestBufferSize)"
  define pr where "pr = poll_run (ses_read H) (ses_tryRead H) fmtx good requestBufferSize p se"
  have bs: "0 < bs" "0 < rc \<Longrightarrow> bs \<le> rc" using size(1) by (simp_all add: bs_def)
  have len: "bs \<le> length (malloc bs)" by simp
  have run: "pr = (case ses_read H (pp_begin p) (malloc bs) bs (pp_timeout p) se of
        None \<Rightarrow> None
      | Some (Inl e) \<Rightarrow> Some (Inl e)
      | Some (Inr ((result, t), s')) \<Rightarrow> poll_reply (ses_tryRead H) fmtx good bs rc result t s')"
    by (simp only: pr_def poll_run_def Let_def bs_def rc_def)
  from read_ses_ok [OF ok r len, of "pp_timeout p"] show ?thesis
  proof (elim disjE exE conjE)
    assume "pp_timeout p \<le> 0" "ses_read H (pp_begin p) (malloc bs) bs (pp_timeout p) se = None"
    then show ?thesis using run by (simp add: pr_def)
  next
    fix rr t se1
    assume rd: "ses_read H (pp_begin p) (malloc bs) bs (pp_timeout p) se = Some (Inr ((rr, t), se1))"
      "se_ok H invar se1" "delivers (se_hist se1) (pp_begin p) bs (length (malloc bs)) rr t"
      "rr = Timeout \<longrightarrow> 0 < pp_timeout p" "extends (se_hist se) (se_hist se1)" "se_capacity se1 = se_capacity se"
      "nothing_lost (se_capacity se1) (se_closed se1) (se_hist se1) (pp_begin p) rr"
    have reply: "pr = poll_reply (ses_tryRead H) fmtx good bs rc rr t se1"
      using run rd(1) by simp
    from rd(3) consider "rr = Closed" | "rr = Timeout"
      | (data) k n where "rr = ReadResult k n" "n \<le> bs" "k + n \<le> length (se_hist se1)" "0 < n"
        "0 \<le> pp_begin p \<longrightarrow> nat (pp_begin p) \<le> k" "take n t = take n (drop k (se_hist se1))" "length t = bs"
      using bs(1) unfolding delivers_def by auto
    then show ?thesis
    proof cases
      case 1
      then show ?thesis using reply rd(2,5,6,7) by (simp add: pr_def poll_reply_def poll_answer_ok_def nothing_lost_def)
    next
      case 2
      then show ?thesis using reply rd(2,4,5,6) by (simp add: pr_def poll_reply_def poll_answer_ok_def)
    next
      case data
      have l: "length (take n t) = n" using data(2,7) by simp
      have sent: "sent_ok (se_hist se1) k (take n t)"
        using data(3,6) l by (simp add: sent_ok_def)
      have b: "k + n < 2 ^ 63" using data(3) ses.hist_bound [OF rd(2)] by simp
      have adv: "to_ssize (sz_add k n) = int (k + n)"
        using b by (simp add: sz_add_eq SIZE_MOD_def to_ssize_nat)
      obtain out se' where loop: "(if rc > 0
          then poll_counted (ses_tryRead H) good bs rc 0 (int (k + n)) n t (take n t) se1
          else poll_all (ses_tryRead H) good bs 0 (int (k + n)) t (take n t) se1) = Some (Inr (out, se'))"
        "se_ok H invar se'" "sent_ok (se_hist se') k out" "n \<le> length out" "0 < rc \<longrightarrow> length out \<le> rc"
        "extends (se_hist se1) (se_hist se')" "se_capacity se' = se_capacity se1"
      proof (cases "rc > 0")
        case True
        have "n \<le> rc" using data(2) bs(2) True by simp
        then show ?thesis
          using ses.poll_counted_ok [OF rd(2) sent _ data(7) bs(1), of "k + n" rc good 0] that True l size(2)
          by (auto simp: rc_def)
      next
        case False
        then show ?thesis
          using ses.poll_all_ok [OF rd(2) sent _ data(7) bs(1), of "k + n" good 0] that l by auto
      qed
      have "pr = Some (Inr ((response 200 (htext (fmtx k) @ out))\<lparr>hr_chunked := True\<rparr>, se'))"
        using reply data(1) adv loop(1) by (cases "rc > 0") (simp_all add: poll_reply_def Let_def)
      moreover have "poll_answer_ok (se_capacity se) (se_closed se') fmtx p (se_hist se')
          ((response 200 (htext (fmtx k) @ out))\<lparr>hr_chunked := True\<rparr>)"
      proof -
        have "out = take (length out) (drop k (se_hist se'))" "k + length out \<le> length (se_hist se')"
          using loop(3) by (simp_all add: sent_ok_def)
        moreover have "0 < length out" using loop(4) data(4) by linarith
        moreover have "0 \<le> pp_begin p \<Longrightarrow> k = nat (pp_begin p) \<or> k + se_capacity se \<le> length (se_hist se')"
          using rd(6,7) data(1) extends_length [OF loop(6)] by (auto simp: nothing_lost_def)
        ultimately show ?thesis unfolding poll_answer_ok_def
          using loop(5) data(5) rc_def by metis
      qed
      ultimately show ?thesis using loop(2,7) rd(6) extends_trans [OF rd(5) loop(6)] by (auto simp: pr_def)
    qed
  qed
qed

end

section \<open>Properties\<close>

definition sample_session :: "env_action list list \<Rightarrow> pheap session" where
  "sample_session script = \<lparr>se_sys = os_init pairing_heap 8 4, se_script = script, se_next = 0\<rparr>"

lemma sample_session_ok:
  assumes "sum_list (map batch_bytes script) < 2 ^ 63"
  shows "se_ok pairing_heap ph_invar (sample_session script)"
proof -
  have "os_ok pairing_heap ph_invar 8 (os_init pairing_heap 8 4)"
    using ph.os_init_ok [of 8 4] by (simp add: os_inv_def)
  then show ?thesis using assms
    by (simp add: se_ok_def sample_session_def se_bound_def se_hist_def os_init_def OutputBuffer_new_def rl_new_def)
qed

lemma sample_session_capacity: "se_capacity (sample_session script) = 8"
  by (simp add: sample_session_def os_init_def OutputBuffer_new_def)

text \<open>C16: Whatever the program writes and whenever it ends while a poll is being served, the poll is
  answered with 410 (closed, and nothing is left behind a position that is not negative), 204 (nothing
  came within a positive timeout), or 200 and a body that is a position in hexadecimal followed by one
  gapless, non-empty piece of the output that starts there: with a \<open>count\<close> not longer than it, and exactly
  at the position asked for, or after it if the bytes between have dropped out of the buffer. Only a poll without a positive timeout may wait for ever; the loops that send more output end.\<close>

theorem poll_answers_piece:
  assumes "min_heap H invar" "se_ok H invar se" "0 < requestBufferSize"
    and "poll_query tryParse64 tryParseUnsigned query poll_defaults = Some p"
    and "ssize_range (pp_begin p)" "pp_readCount p < 2 ^ 32"
  shows "case OutputPollHandler (ses_read H) (ses_tryRead H) fmtx tryParse64 tryParseUnsigned good
      requestBufferSize query se of
        None \<Rightarrow> pp_timeout p \<le> 0
      | Some (Inl e) \<Rightarrow> False
      | Some (Inr (resp, se')) \<Rightarrow> se_ok H invar se' \<and>
          poll_answer_ok (se_capacity se) (se_closed se') fmtx p (se_hist se') resp"
proof -
  have "pp_readCount p < 2 ^ 63" using assms(6) by simp
  from min_heap.poll_run_ok [OF assms(1-3) this assms(5), of fmtx good] show ?thesis
    using assms(4) by (elim disjE exE conjE) (simp_all add: OutputPollHandler_def)
qed

lemma poll_answers_piece_witness:
  "case OutputPollHandler (ses_read pairing_heap) (ses_tryRead pairing_heap) (\<lambda>_. ''0'') (\<lambda>_. None) (\<lambda>_. Some 2)
       (\<lambda>_. True) 65536 [(''count'', ''2'')] (sample_session [[EnvWrite (map Some [1, 2, 3])]]) of
     None \<Rightarrow> False
   | Some (Inl e) \<Rightarrow> False
   | Some (Inr (resp, se')) \<Rightarrow> poll_answer_ok 8 (se_closed se') (\<lambda>_. ''0'') (poll_defaults\<lparr>pp_readCount := 2\<rparr>) (se_hist se') resp"
  using poll_answers_piece [OF ph.min_heap_axioms sample_session_ok, of "[[EnvWrite (map Some [1, 2, 3])]]"
      65536 "\<lambda>_. None" "\<lambda>_. Some 2" "[(''count'', ''2'')]" "poll_defaults\<lparr>pp_readCount := 2\<rparr>"
      "\<lambda>_. ''0''" "\<lambda>_. True"]
  by (simp add: sample_session_capacity poll_defaults_def ssize_range_def CLIENT_READ_DEFAULT_TIMEOUT_SECONDS_def
      split: option.splits sum.splits prod.splits)

text \<open>What a query means: of several values for one key the last one counts.\<close>

definition query_value :: "(string \<times> string) list \<Rightarrow> string \<Rightarrow> string option" where
  "query_value query key = map_of (rev query) key"

definition query_refused ::
  "(string \<Rightarrow> int option) \<Rightarrow> (string \<Rightarrow> nat option) \<Rightarrow> (string \<times> string) list \<Rightarrow> bool" where
  "query_refused tryParse64 tryParseUnsigned query \<longleftrightarrow>
     (\<exists>(key, val) \<in> set query. key = ''begin'' \<and> tryParse64 val = None \<or>
        (key = ''timeout'' \<or> key = ''count'') \<and> tryParseUnsigned val = None)"

definition query_params ::
  "(string \<Rightarrow> int option) \<Rightarrow> (string \<Rightarrow> nat option) \<Rightarrow> (string \<times> string) list \<Rightarrow> poll_params \<Rightarrow> poll_params" where
  "query_params tryParse64 tryParseUnsigned query p =
     p\<lparr>pp_begin := (case query_value query ''begin'' of None \<Rightarrow> pp_begin p | Some val \<Rightarrow> the (tryParse64 val)),
       pp_timeout := (case query_value query ''timeout'' of
           None \<Rightarrow> pp_timeout p | Some val \<Rightarrow> min (1000 * int (the (tryParseUnsigned val))) 300000),
       pp_readCount := (case query_value query ''count'' of
           None \<Rightarrow> pp_readCount p | Some val \<Rightarrow> the (tryParseUnsigned val))\<rparr>"

lemma query_value_Cons:
  "query_value ((key, val) # query) k = (case query_value query k of None \<Rightarrow> (if k = key then Some val else None) | r \<Rightarrow> r)"
  by (simp add: query_value_def map_add_def split: option.split)

lemma query_refused_Cons:
  "query_refused tryParse64 tryParseUnsigned ((key, val) # query) \<longleftrightarrow>
     key = ''begin'' \<and> tryParse64 val = None \<or> (key = ''timeout'' \<or> key = ''count'') \<and> tryParseUnsigned val = None \<or>
     query_refused tryParse64 tryParseUnsigned query"
  by (simp add: query_refused_def)

lemma poll_query_eq:
  "poll_query tryParse64 tryParseUnsigned query p =
     (if query_refused tryParse64 tryParseUnsigned query then None
      else Some (query_params tryParse64 tryParseUnsigned query p))"
proof (induction query arbitrary: p)
  case Nil
  then show ?case by (simp add: query_refused_def query_params_def query_value_def)
next
  case (Cons kv query)
  obtain key val where kv: "kv = (key, val)" by (cases kv)
  consider "key = ''begin''" | "key = ''timeout''" | "key = ''count''"
    | "key \<noteq> ''begin''" "key \<noteq> ''timeout''" "key \<noteq> ''count''" by blast
  then show ?case
    by cases (auto simp: kv Cons.IH query_refused_Cons query_params_def query_value_Cons CLIENT_READ_MAX_TIMEOUT_SECONDS_def
        mult.commute split: option.split)
qed

text \<open>C36: What a poll request asks for: when one of the values that count does not parse the request is answered with 400 and
  the buffer is not touched; otherwise the buffer is polled with the parameters given, of which the last value counts: the
  position (0 if there is none), the number of bytes (0, which means all), and the timeout in milliseconds, capped
  at 300 seconds (60 seconds if there is none).\<close>

theorem poll_query_checked:
  "OutputPollHandler rd tr fmtx tryParse64 tryParseUnsigned good requestBufferSize query s =
    (if \<exists>(key, val) \<in> set query. key = ''begin'' \<and> tryParse64 val = None \<or>
         (key = ''timeout'' \<or> key = ''count'') \<and> tryParseUnsigned val = None
     then Some (Inr (response 400 (htext (''<h1>Bad Request</h1>'' @ endl)), s))
     else poll_run rd tr fmtx good requestBufferSize
       \<lparr>pp_begin = (case query_value query ''begin'' of None \<Rightarrow> 0 | Some val \<Rightarrow> the (tryParse64 val)),
        pp_timeout = (case query_value query ''timeout'' of
            None \<Rightarrow> 60000 | Some val \<Rightarrow> min (1000 * int (the (tryParseUnsigned val))) 300000),
        pp_readCount = (case query_value query ''count'' of None \<Rightarrow> 0 | Some val \<Rightarrow> the (tryParseUnsigned val))\<rparr> s)"
  unfolding OutputPollHandler_def poll_query_eq query_refused_def
  by (simp add: query_params_def poll_defaults_def CLIENT_READ_DEFAULT_TIMEOUT_SECONDS_def cong: option.case_cong)

text \<open>The cap of 300 seconds does not hold for \<open>timeout=0\<close>: when there is nothing to read and the
  program neither writes nor ends any more, such a poll is never answered.\<close>

theorem poll_zero_waits_forever:
  assumes "min_heap H invar" "se_ok H invar se" "se_script se = []" "\<not> ob_closed (os_buf (se_sys se))"
    and "tryParseUnsigned ''0'' = Some 0" "se_hist se = []"
  shows "OutputPollHandler (ses_read H) (ses_tryRead H) fmtx tryParse64 tryParseUnsigned good
      requestBufferSize [(''timeout'', ''0'')] se = None"
proof -
  have adv: "advance H se = Some se" using assms(3) by (simp add: advance_def next_batch_def)
  have rel: "ring_rel (os_buf (se_sys se)) []"
    using min_heap.os_ok_unpack(1) [OF assms(1), of _ "se_sys se"] assms(2,6)
    unfolding se_ok_def se_hist_def by metis
  have "ses_read H 0 (malloc requestBufferSize) requestBufferSize 0 se = None"
    using adv assms(3,4) read_enter_eq [OF rel, of 0 requestBufferSize "malloc requestBufferSize" H 0 "se_next se"]
    by (simp add: ses_read_def ssize_range_def spec_begin_def next_batch_def)
  then show ?thesis
    using assms(5) by (simp add: OutputPollHandler_def poll_run_def poll_defaults_def
        CLIENT_READ_MAX_TIMEOUT_SECONDS_def)
qed

lemma poll_zero_waits_forever_witness:
  "OutputPollHandler (ses_read pairing_heap) (ses_tryRead pairing_heap) (\<lambda>_. ''0'') (\<lambda>_. None) (\<lambda>_. Some 0)
     (\<lambda>_. True) 65536 [(''timeout'', ''0'')] (sample_session []) = None"
  using poll_zero_waits_forever [OF ph.min_heap_axioms sample_session_ok, of "[]"]
  by (simp add: sample_session_def se_hist_def os_init_def OutputBuffer_new_def)

text \<open>The answer to a kill request: for a program that was killed by a signal it prints -1 for the
  signal (the code asks \<open>exitCode\<close> where it means \<open>exitSignal\<close>), and for one that is still running
  or was never started the status 500 is set but no response is sent.\<close>

theorem kill_answer_wrong_signal:
  "(pe_status ex = SIGNALLED \<longrightarrow> hr_sent (KillHandler dec (\<lambda>_. ex)) \<and>
      hr_body (KillHandler dec (\<lambda>_. ex)) = htext (''{'' @ quote @ ''status'' @ quote @ '': '' @ quote @ ''signalled'' @ quote @
        '', '' @ quote @ ''exitSignal'' @ quote @ '': '' @ dec (- 1) @ ''}'')) \<and>
    (pe_status ex = RUNNING \<or> pe_status ex = NOT_STARTED \<longrightarrow>
      hr_status (KillHandler dec (\<lambda>_. ex)) = 500 \<and> \<not> hr_sent (KillHandler dec (\<lambda>_. ex)))"
  by (auto simp: KillHandler_def response_def exitCode_def Let_def)

lemma kill_answer_wrong_signal_witness:
  "\<not> hr_sent (KillHandler (\<lambda>_. ''-1'') (\<lambda>_. sample_executor))"
  using kill_answer_wrong_signal [of sample_executor "\<lambda>_. ''-1''"] by simp

end
