(* ===== verification/ExecutorSystem.thy ===== *)
theory ExecutorSystem
  imports ProgramExecutor
begin

text \<open>
  The threads around one \<open>ProgramExecutor\<close>: the child process, the background thread that waits
  for it, any number of threads in \<open>wait\<close>, and the callers of \<open>kill\<close>, which the mutex
  \<open>_killMutex\<close> lets in one at a time. One event is one critical section (or one action of the
  system); \<open>px_event\<close> executes it, \<open>None\<close> when it is not enabled. The argument \<open>W\<close> gives the
  three waits of \<open>kill\<close> in milliseconds.
\<close>

section \<open>The system\<close>

datatype child = NoChild | Alive | Zombie "32 word" | Reaped "32 word"

text \<open>The background thread: before \<open>waitpid\<close> returns, with its result, and when it is done.\<close>

datatype bg_thread = BgNone | BgWaits | BgHas int "32 word" | BgDone

text \<open>
  The thread in \<open>kill\<close>, \<open>n\<close> counting its attempts: about to send the signal, about to wait,
  blocked (and signalled or not), and about to give up.
\<close>

datatype kill_pc = K_idle | K_send nat | K_wait nat | K_block nat bool | K_giveup

record psys =
  px_exec :: executor
  px_child :: child
  px_bg :: bg_thread
  px_kill :: kill_pc
  px_queue :: nat
  px_sends :: "int list"
  px_waits :: "nat \<Rightarrow> (int option \<times> bool) option"

definition psys_init :: "executor \<Rightarrow> psys" where
  "psys_init ex = \<lparr>px_exec = ex, px_child = NoChild, px_bg = BgNone, px_kill = K_idle, px_queue = 0,
     px_sends = [], px_waits = (\<lambda>_. None)\<rparr>"

definition broadcast :: "psys \<Rightarrow> psys" where
  "broadcast s = s\<lparr>px_waits := (\<lambda>i. map_option (\<lambda>(to, _). (to, True)) (px_waits s i)),
     px_kill := (case px_kill s of K_block n _ \<Rightarrow> K_block n True | k \<Rightarrow> k)\<rparr>"

text \<open>The signal of the \<open>n\<close>-th attempt.\<close>

definition kill_signal :: "nat \<Rightarrow> int" where
  "kill_signal n = (if n \<le> 2 then SIGINT else SIGKILL)"

lemma kill_signal_cases: "kill_signal n = SIGINT \<or> kill_signal n = SIGKILL"
  by (simp add: kill_signal_def)

definition terminated :: "32 word \<Rightarrow> bool" where
  "terminated status \<longleftrightarrow> WIFEXITED status \<or> WIFSIGNALED status"

datatype pevent =
    PStart "(int \<times> int) option" string int
  | PChildExit "32 word"
  | PReap
  | PWaitFails int "32 word"
  | PPublish
  | PKillCall
  | PKillLock
  | PKillSend
  | PKillEnter
  | PKillWoken
  | PKillTimeout
  | PKillGiveUp
  | PWait nat int
  | PWoken nat
  | PTimeout nat

fun kill_event :: "(nat \<Rightarrow> int) \<Rightarrow> pevent \<Rightarrow> psys \<Rightarrow> psys option" where
  "kill_event W PKillCall s =
     (if pe_status (px_exec s) = RUNNING then Some (s\<lparr>px_queue := px_queue s + 1\<rparr>) else None)"
| "kill_event W PKillLock s =
     (if px_queue s > 0 \<and> px_kill s = K_idle
      then Some (s\<lparr>px_queue := px_queue s - 1, px_kill := K_send 1, px_sends := []\<rparr>) else None)"
| "kill_event W PKillSend s =
     (case px_kill s of
        K_send n \<Rightarrow>
          Some (s\<lparr>px_exec := killIfRunning (kill_signal n) (px_exec s), px_kill := K_wait n,
            px_sends := (if pe_status (px_exec s) = RUNNING then px_sends s @ [kill_signal n]
                         else px_sends s)\<rparr>)
      | _ \<Rightarrow> None)"
| "kill_event W PKillEnter s =
     (case px_kill s of
        K_wait n \<Rightarrow>
          (case wait_enter (W n) (px_exec s) of
             Inl _ \<Rightarrow> None
           | Inr (WaitReturns _) \<Rightarrow> Some (s\<lparr>px_kill := K_idle\<rparr>)
           | Inr (WaitBlocks _) \<Rightarrow> Some (s\<lparr>px_kill := K_block n False\<rparr>))
      | _ \<Rightarrow> None)"
| "kill_event W PKillWoken s =
     (case px_kill s of K_block n True \<Rightarrow> Some (s\<lparr>px_kill := K_idle\<rparr>) | _ \<Rightarrow> None)"
| "kill_event W PKillTimeout s =
     (case px_kill s of
        K_block n _ \<Rightarrow>
          (if W n > 0 then Some (s\<lparr>px_kill := (if n < 3 then K_send (n + 1) else K_giveup)\<rparr>) else None)
      | _ \<Rightarrow> None)"
| "kill_event W PKillGiveUp s =
     (case px_kill s of
        K_giveup \<Rightarrow> Some (broadcast (s\<lparr>px_exec := give_up (px_exec s), px_kill := K_idle\<rparr>))
      | _ \<Rightarrow> None)"
| "kill_event W _ s = None"

fun px_event :: "(nat \<Rightarrow> int) \<Rightarrow> pevent \<Rightarrow> psys \<Rightarrow> psys option" where
  "px_event W (PStart pip err pid) s =
     (if pid = 0 then None
      else (case start_parent pip err pid (px_exec s) of
         Inl _ \<Rightarrow> None
       | Inr ex \<Rightarrow> Some (s\<lparr>px_exec := ex, px_child := (if pid > 0 then Alive else NoChild),
                          px_bg := BgWaits\<rparr>)))"
| "px_event W (PChildExit status) s =
     (if px_child s = Alive \<and> terminated status then Some (s\<lparr>px_child := Zombie status\<rparr>) else None)"
| "px_event W PReap s =
     (case (px_bg s, px_child s) of
        (BgWaits, Zombie status) \<Rightarrow>
          Some (s\<lparr>px_bg := BgHas (pe_processId (px_exec s)) status, px_child := Reaped status\<rparr>)
      | _ \<Rightarrow> None)"
| "px_event W (PWaitFails r status) s =
     (if px_bg s = BgWaits \<and> r \<le> 0 then Some (s\<lparr>px_bg := BgHas r status\<rparr>) else None)"
| "px_event W PPublish s =
     (case px_bg s of
        BgHas r status \<Rightarrow>
          (let (ex, b) = wait_publish r status (px_exec s);
               s' = s\<lparr>px_exec := ex, px_bg := BgDone\<rparr>
           in Some (if b then broadcast s' else s'))
      | _ \<Rightarrow> None)"
| "px_event W (PWait i timeout) s =
     (if px_waits s i = None then
        (case wait_enter timeout (px_exec s) of
           Inl _ \<Rightarrow> None
         | Inr (WaitReturns _) \<Rightarrow> Some s
         | Inr (WaitBlocks to) \<Rightarrow> Some (s\<lparr>px_waits := (px_waits s)(i \<mapsto> (to, False))\<rparr>))
      else None)"
| "px_event W (PWoken i) s =
     (case px_waits s i of
        Some (to, True) \<Rightarrow> Some (s\<lparr>px_waits := (px_waits s)(i := None)\<rparr>) | _ \<Rightarrow> None)"
| "px_event W (PTimeout i) s =
     (case px_waits s i of
        Some (Some ms, _) \<Rightarrow> Some (s\<lparr>px_waits := (px_waits s)(i := None)\<rparr>) | _ \<Rightarrow> None)"
| "px_event W e s = kill_event W e s"

abbreviation px_run :: "(nat \<Rightarrow> int) \<Rightarrow> pevent list \<Rightarrow> psys \<Rightarrow> psys option" where
  "px_run W \<equiv> run_events (px_event W)"

inductive px_reachable :: "(nat \<Rightarrow> int) \<Rightarrow> psys \<Rightarrow> bool" for W where
  init: "ProgramExecutor_new args env wd capture tag = Inr ex \<Longrightarrow> px_reachable W (psys_init ex)"
| step: "px_reachable W s \<Longrightarrow> px_event W e s = Some s' \<Longrightarrow> px_reachable W s'"

lemma px_run_reachable: "px_reachable W s \<Longrightarrow> px_run W es s = Some s' \<Longrightarrow> px_reachable W s'"
  by (induction es arbitrary: s) (auto split: option.splits intro: px_reachable.step)

section \<open>The invariant\<close>

abbreviation px_status :: "psys \<Rightarrow> ProgramStatus" where
  "px_status s \<equiv> pe_status (px_exec s)"

definition kill_order :: "int list" where
  "kill_order = [SIGINT, SIGINT, SIGKILL]"

text \<open>How many signals the current call of \<open>kill\<close> has sent.\<close>

fun kill_pc_ok :: "kill_pc \<Rightarrow> bool \<Rightarrow> int list \<Rightarrow> bool" where
  "kill_pc_ok K_idle run sends = (\<exists>m. sends = take m kill_order)"
| "kill_pc_ok (K_send n) run sends =
     (1 \<le> n \<and> n \<le> 3 \<and> (if run then sends = take (n - 1) kill_order else (\<exists>m<n. sends = take m kill_order)))"
| "kill_pc_ok (K_wait n) run sends =
     (1 \<le> n \<and> n \<le> 3 \<and> (if run then sends = take n kill_order else (\<exists>m\<le>n. sends = take m kill_order)))"
| "kill_pc_ok (K_block n sg) run sends =
     (1 \<le> n \<and> n \<le> 3 \<and> sends = take n kill_order \<and> sg = (\<not> run))"
| "kill_pc_ok K_giveup run sends = (sends = kill_order)"

fun exit_ok :: "ProgramStatus \<Rightarrow> child \<Rightarrow> 32 word \<Rightarrow> bool" where
  "exit_ok EXITED c w = (c = Reaped w \<and> WIFEXITED w)"
| "exit_ok SIGNALLED c w = (c = Reaped w \<and> \<not> WIFEXITED w \<and> WIFSIGNALED w)"
| "exit_ok _ c w = True"

text \<open>What the background thread knows of the child; once it is done with a reaped child, the status is set.\<close>

fun child_bg_ok :: "child \<Rightarrow> bg_thread \<Rightarrow> bool \<Rightarrow> bool" where
  "child_bg_ok (Reaped st) (BgHas r st') run = (terminated st \<and> r > 0 \<and> st' = st)"
| "child_bg_ok (Reaped st) BgDone run = (terminated st \<and> \<not> run)"
| "child_bg_ok (Reaped st) _ run = False"
| "child_bg_ok c (BgHas r st') run = (r \<le> 0 \<and> (\<forall>st. c = Zombie st \<longrightarrow> terminated st))"
| "child_bg_ok c _ run = (\<forall>st. c = Zombie st \<longrightarrow> terminated st)"

definition all_signalled :: "(nat \<Rightarrow> (int option \<times> bool) option) \<Rightarrow> bool" where
  "all_signalled w \<longleftrightarrow> (\<forall>i to. w i \<noteq> Some (to, False))"

definition px_fresh :: "psys \<Rightarrow> bool" where
  "px_fresh s \<longleftrightarrow> px_bg s = BgNone \<and> px_child s = NoChild \<and> px_queue s = 0 \<and>
     px_kill s = K_idle \<and> px_waits s = (\<lambda>_. None)"

definition px_inv :: "psys \<Rightarrow> bool" where
  "px_inv s \<longleftrightarrow>
     (px_status s = NOT_STARTED \<longrightarrow> px_fresh s) \<and>
     exit_ok (px_status s) (px_child s) (pe_waitStatus (px_exec s)) \<and>
     child_bg_ok (px_child s) (px_bg s) (px_status s = RUNNING) \<and>
     (px_child s = NoChild \<or> pe_processId (px_exec s) > 0) \<and>
     (px_status s = RUNNING \<or> all_signalled (px_waits s)) \<and>
     kill_pc_ok (px_kill s) (px_status s = RUNNING) (px_sends s)"

lemma broadcast_sel [simp]:
  "px_exec (broadcast s) = px_exec s" "px_child (broadcast s) = px_child s" "px_bg (broadcast s) = px_bg s"
  "px_queue (broadcast s) = px_queue s" "px_sends (broadcast s) = px_sends s"
  by (simp_all add: broadcast_def)

lemma broadcast_waits: "px_waits (broadcast s) i = map_option (\<lambda>(to, _). (to, True)) (px_waits s i)"
  by (simp add: broadcast_def)

lemma broadcast_unsignalled [simp]: "all_signalled (px_waits (broadcast s))"
  by (auto simp: all_signalled_def broadcast_waits)

lemma all_signalled_remove: "all_signalled w \<Longrightarrow> all_signalled (w(i := None))"
  by (auto simp: all_signalled_def)

lemma sys_sel [simp]:
  "pe_status (sys cs ex) = pe_status ex" "pe_waitStatus (sys cs ex) = pe_waitStatus ex"
  "pe_processId (sys cs ex) = pe_processId ex" "pe_calls (sys cs ex) = pe_calls ex @ cs"
  by (simp_all add: sys_def)

lemma killIfRunning_sel [simp]:
  "pe_status (killIfRunning sg ex) = pe_status ex" "pe_waitStatus (killIfRunning sg ex) = pe_waitStatus ex"
  "pe_processId (killIfRunning sg ex) = pe_processId ex"
  by (simp_all add: killIfRunning_def)

lemma give_up_sel [simp]:
  "pe_status (give_up ex) = CANNOT_KILL" "pe_waitStatus (give_up ex) = pe_waitStatus ex"
  "pe_processId (give_up ex) = pe_processId ex"
  by (simp_all add: give_up_def)

lemma start_parent_ok:
  assumes "start_parent pip err pid ex = Inr ex'"
  shows "pe_status ex = NOT_STARTED" "pe_status ex' = RUNNING" "pe_processId ex' = pid"
    "pe_waitStatus ex' = pe_waitStatus ex"
  using assms by (auto simp: start_parent_def Let_def split: if_splits)

lemma wait_enter_cases:
  "wait_enter t ex = (case pe_status ex of
     NOT_STARTED \<Rightarrow> Inl (IllegalState ''Program has not started.'')
   | RUNNING \<Rightarrow> Inr (WaitBlocks (if t \<le> 0 then None else Some t))
   | _ \<Rightarrow> Inr (WaitReturns True))"
  by (simp add: wait_enter_def split: ProgramStatus.split)

lemma take_kill_order [simp]:
  "take (Suc 0) kill_order = [SIGINT]" "take 2 kill_order = [SIGINT, SIGINT]" "take 3 kill_order = kill_order"
  by (simp_all add: kill_order_def)

lemma kill_order_step: "1 \<le> n \<Longrightarrow> n \<le> 3 \<Longrightarrow> take (n - 1) kill_order @ [kill_signal n] = take n kill_order"
proof -
  assume "1 \<le> n" "n \<le> 3"
  then have "n = 1 \<or> n = 2 \<or> n = 3" by auto
  then show ?thesis by (auto simp: kill_order_def kill_signal_def numeral_eq_Suc)
qed

lemma broadcast_kill [simp]:
  "px_kill (broadcast s) = (case px_kill s of K_block n _ \<Rightarrow> K_block n True | k \<Rightarrow> k)"
  by (simp add: broadcast_def)

lemma child_bg_stop: "child_bg_ok c bg run \<Longrightarrow> child_bg_ok c bg False"
  by (cases "(c, bg, run)" rule: child_bg_ok.cases) auto

lemma kill_pc_ok_stop:
  "kill_pc_ok k True sends \<or> kill_pc_ok k False sends \<Longrightarrow>
   kill_pc_ok (case k of K_block n _ \<Rightarrow> K_block n True | k \<Rightarrow> k) False sends"
proof (cases k)
  case (K_send n)
  assume "kill_pc_ok k True sends \<or> kill_pc_ok k False sends"
  then show ?thesis using K_send by (auto intro: exI [of _ "n - 1"])
qed auto

lemma kill_event_inv:
  assumes inv: "px_inv s" and ev: "kill_event W e s = Some s'"
  shows "px_inv s'"
proof (cases e)
  case PKillCall
  then show ?thesis using inv ev by (auto simp: px_inv_def px_fresh_def split: if_splits)
next
  case PKillLock
  then show ?thesis using inv ev by (auto simp: px_inv_def px_fresh_def split: if_splits)
next
  case PKillSend
  then obtain n where n: "px_kill s = K_send n" using ev by (auto split: kill_pc.splits)
  have pc: "kill_pc_ok (K_send n) (px_status s = RUNNING) (px_sends s)" using inv n by (simp add: px_inv_def)
  have "kill_pc_ok (K_wait n) (px_status s = RUNNING)
      (if px_status s = RUNNING then px_sends s @ [kill_signal n] else px_sends s)"
  proof (cases "px_status s = RUNNING")
    case True
    then show ?thesis using pc kill_order_step [of n] by simp
  next
    case False
    then have "\<exists>m<n. px_sends s = take m kill_order" using pc by simp
    then have "\<exists>m\<le>n. px_sends s = take m kill_order" using less_imp_le by blast
    then show ?thesis using False pc by simp
  qed
  then show ?thesis using inv ev PKillSend n by (auto simp: px_inv_def px_fresh_def)
next
  case PKillEnter
  then obtain n where n: "px_kill s = K_wait n" using ev by (auto split: kill_pc.splits)
  then show ?thesis using inv ev PKillEnter
    by (auto simp: px_inv_def wait_enter_cases split: ProgramStatus.splits)
next
  case PKillWoken
  then obtain n where n: "px_kill s = K_block n True" using ev by (auto split: kill_pc.splits bool.splits)
  then show ?thesis using inv ev PKillWoken by (auto simp: px_inv_def px_fresh_def)
next
  case PKillTimeout
  then obtain n b where n: "px_kill s = K_block n b" using ev by (auto split: kill_pc.splits)
  have pc: "1 \<le> n" "n \<le> 3" "px_sends s = take n kill_order" using inv n by (simp_all add: px_inv_def)
  define k where "k = (if n < 3 then K_send (n + 1) else K_giveup)"
  have "kill_pc_ok k (px_status s = RUNNING) (px_sends s)"
    using pc by (cases "n < 3") (auto simp: k_def)
  moreover have "s' = s\<lparr>px_kill := k\<rparr>"
    using ev PKillTimeout n by (simp add: k_def split: if_splits)
  moreover have "px_status s \<noteq> NOT_STARTED" using inv n by (auto simp: px_inv_def px_fresh_def)
  ultimately show ?thesis using inv by (simp add: px_inv_def)
next
  case PKillGiveUp
  then have k: "px_kill s = K_giveup" using ev by (auto split: kill_pc.splits)
  have "\<exists>m. px_sends s = take m kill_order"
    using inv k by (auto simp: px_inv_def intro: exI [of _ 3])
  moreover have "child_bg_ok (px_child s) (px_bg s) False"
    using inv child_bg_stop by (auto simp: px_inv_def)
  moreover have s': "s' = broadcast (s\<lparr>px_exec := give_up (px_exec s), px_kill := K_idle\<rparr>)"
    using ev PKillGiveUp k by simp
  ultimately show ?thesis using inv unfolding s' by (simp add: px_inv_def)
qed (use ev in auto)

lemma px_event_inv:
  assumes inv: "px_inv s" and ev: "px_event W e s = Some s'"
  shows "px_inv s'"
proof (cases e)
  case (PStart pip err pid)
  then obtain ex where ex: "pid \<noteq> 0" "start_parent pip err pid (px_exec s) = Inr ex"
    and s': "s' = s\<lparr>px_exec := ex, px_child := (if pid > 0 then Alive else NoChild), px_bg := BgWaits\<rparr>"
    using ev by (auto split: if_splits sum.splits)
  note st = start_parent_ok [OF ex(2)]
  then have "px_fresh s" using inv by (simp add: px_inv_def)
  then show ?thesis using inv st s' by (auto simp: px_inv_def px_fresh_def)
next
  case (PChildExit st)
  then have c: "px_child s = Alive" "terminated st" "s' = s\<lparr>px_child := Zombie st\<rparr>"
    using ev by (auto split: if_splits)
  moreover have "px_bg s \<noteq> BgHas r st' \<or> r \<le> 0" for r st'
    using inv c(1) by (auto simp: px_inv_def)
  ultimately show ?thesis using inv
    by (cases "px_bg s"; cases "px_status s") (auto simp: px_inv_def px_fresh_def)
next
  case PReap
  then obtain st where c: "px_child s = Zombie st" "px_bg s = BgWaits"
    "s' = s\<lparr>px_bg := BgHas (pe_processId (px_exec s)) st, px_child := Reaped st\<rparr>"
    using ev by (auto split: bg_thread.splits child.splits)
  then show ?thesis using inv by (cases "px_status s") (auto simp: px_inv_def px_fresh_def)
next
  case (PWaitFails r st)
  then have c: "px_bg s = BgWaits" "r \<le> 0" "s' = s\<lparr>px_bg := BgHas r st\<rparr>"
    using ev by (auto split: if_splits)
  then show ?thesis using inv by (cases "px_child s") (auto simp: px_inv_def px_fresh_def)
next
  case PPublish
  then obtain r st where bg: "px_bg s = BgHas r st" using ev by (auto split: bg_thread.splits)
  have started: "px_status s \<noteq> NOT_STARTED" using inv bg by (auto simp: px_inv_def px_fresh_def)
  have pc: "kill_pc_ok (case px_kill s of K_block n _ \<Rightarrow> K_block n True | k \<Rightarrow> k) False (px_sends s)"
    using inv kill_pc_ok_stop by (cases "px_status s = RUNNING") (auto simp: px_inv_def)
  show ?thesis
  proof (cases "r > 0")
    case True
    then have reaped: "px_child s = Reaped st" "terminated st"
      using inv bg by (cases "px_child s"; simp add: px_inv_def)+
    define st' where "st' = (if WIFEXITED st then EXITED else SIGNALLED)"
    have "s' = broadcast (s\<lparr>px_exec := (px_exec s)\<lparr>pe_status := st', pe_waitStatus := st\<rparr>, px_bg := BgDone\<rparr>)"
      using True reaped ev PPublish bg
      by (auto simp: wait_publish_def terminated_def Let_def st'_def split: if_splits)
    moreover have "exit_ok st' (Reaped st) st" "st' \<noteq> RUNNING" "st' \<noteq> NOT_STARTED"
      using reaped(2) by (auto simp: st'_def terminated_def)
    ultimately show ?thesis using inv reaped pc by (simp add: px_inv_def)
  next
    case False
    then have "s' = s\<lparr>px_bg := BgDone\<rparr>" using ev PPublish bg by (simp add: wait_publish_def)
    then show ?thesis using False inv bg started by (cases "px_child s") (simp_all add: px_inv_def)
  qed
next
  case (PWait i t)
  then show ?thesis using inv ev
    by (auto simp: px_inv_def wait_enter_cases split: if_splits ProgramStatus.splits)
next
  case (PWoken i)
  then obtain to where w: "px_waits s i = Some (to, True)" "s' = s\<lparr>px_waits := (px_waits s)(i := None)\<rparr>"
    using ev by (auto split: option.splits prod.splits bool.splits)
  then show ?thesis using inv all_signalled_remove by (auto simp: px_inv_def px_fresh_def)
next
  case (PTimeout i)
  then obtain w where w: "px_waits s i = Some w" "s' = s\<lparr>px_waits := (px_waits s)(i := None)\<rparr>"
    using ev by (auto split: option.splits prod.splits)
  then show ?thesis using inv all_signalled_remove by (auto simp: px_inv_def px_fresh_def)
qed (use kill_event_inv [OF inv, of W e] ev in auto)

lemma ProgramExecutor_new_ok:
  "ProgramExecutor_new args env wd capture tag = Inr ex \<Longrightarrow>
   pe_status ex = NOT_STARTED \<and> pe_calls ex = [] \<and> pe_processId ex = - 1"
  by (auto simp: ProgramExecutor_new_def split: if_splits)

lemma px_reachable_inv: "px_reachable W s \<Longrightarrow> px_inv s"
proof (induction rule: px_reachable.induct)
  case (init args env wd capture tag ex)
  then show ?case using ProgramExecutor_new_ok [OF init]
    by (auto simp: px_inv_def psys_init_def px_fresh_def all_signalled_def intro: exI [of _ 0])
next
  case (step s e s')
  then show ?case using px_event_inv by blast
qed

section \<open>What each event changes\<close>

fun kill_rank :: "kill_pc \<Rightarrow> nat" where
  "kill_rank K_idle = 0"
| "kill_rank K_giveup = 1"
| "kill_rank (K_block n _) = 3 * (3 - n) + 2"
| "kill_rank (K_wait n) = 3 * (3 - n) + 3"
| "kill_rank (K_send n) = 3 * (3 - n) + 4"

fun status_rank :: "ProgramStatus \<Rightarrow> nat" where
  "status_rank NOT_STARTED = 0"
| "status_rank RUNNING = 1"
| "status_rank _ = 2"

definition new_kills :: "psys \<Rightarrow> psys \<Rightarrow> (int \<times> int) set" where
  "new_kills s s' =
     {(p, g). SysKill p g \<in> set (drop (length (pe_calls (px_exec s))) (pe_calls (px_exec s')))}"

lemma new_kills_same: "pe_calls (px_exec s') = pe_calls (px_exec s) \<Longrightarrow> new_kills s s' = {}"
  by (simp add: new_kills_def)

lemma kill_rank_broadcast: "kill_rank (case k of K_block n _ \<Rightarrow> K_block n True | k \<Rightarrow> k) = kill_rank k"
  by (cases k) simp_all

lemma kill_event_effect:
  assumes inv: "px_inv s" and ev: "kill_event W e s = Some s'"
  shows "(e \<noteq> PKillLock \<longrightarrow> kill_rank (px_kill s') \<le> kill_rank (px_kill s)) \<and>
    status_rank (px_status s) \<le> status_rank (px_status s') \<and>
    (\<forall>p g. (p, g) \<in> new_kills s s' \<longrightarrow> px_status s = RUNNING \<and> p = pe_processId (px_exec s) \<and>
       (\<exists>n. px_kill s = K_send n \<and> g = kill_signal n))"
proof (cases e)
  case PKillSend
  then obtain n where n: "px_kill s = K_send n" using ev by (auto split: kill_pc.splits)
  then show ?thesis using ev PKillSend
    by (cases "px_status s = RUNNING") (auto simp: new_kills_def killIfRunning_def)
next
  case PKillEnter
  then obtain n where n: "px_kill s = K_wait n" using ev by (auto split: kill_pc.splits)
  then show ?thesis using ev PKillEnter by (auto simp: new_kills_same wait_enter_cases split: ProgramStatus.splits)
next
  case PKillTimeout
  then obtain n b where n: "px_kill s = K_block n b" using ev by (auto split: kill_pc.splits)
  then show ?thesis using ev PKillTimeout by (auto simp: new_kills_same split: if_splits)
next
  case PKillGiveUp
  then have k: "px_kill s = K_giveup" using ev by (auto split: kill_pc.splits)
  then have "status_rank (px_status s) \<le> 2" by (cases "px_status s") simp_all
  then show ?thesis using ev PKillGiveUp k by (auto simp: new_kills_def give_up_def sys_def)
qed (use ev in \<open>auto simp: new_kills_same split: if_splits kill_pc.splits bool.splits\<close>)

lemma px_event_effect:
  assumes inv: "px_inv s" and ev: "px_event W e s = Some s'"
  shows "(e \<noteq> PKillLock \<longrightarrow> kill_rank (px_kill s') \<le> kill_rank (px_kill s)) \<and>
    status_rank (px_status s) \<le> status_rank (px_status s') \<and>
    (\<forall>p g. (p, g) \<in> new_kills s s' \<longrightarrow> px_status s = RUNNING \<and> p = pe_processId (px_exec s) \<and>
       (\<exists>n. px_kill s = K_send n \<and> g = kill_signal n))"
proof (cases e)
  case (PStart pip err pid)
  then obtain ex where ex: "start_parent pip err pid (px_exec s) = Inr ex"
    and s': "s' = s\<lparr>px_exec := ex, px_child := (if pid > 0 then Alive else NoChild), px_bg := BgWaits\<rparr>"
    using ev by (auto split: if_splits sum.splits)
  have "\<exists>cs. pe_calls ex = pe_calls (px_exec s) @ cs \<and> (\<forall>p g. SysKill p g \<notin> set cs)"
    using ex by (auto simp: start_parent_def Let_def split: if_splits)
  then show ?thesis using s' start_parent_ok [OF ex] by (auto simp: new_kills_def)
next
  case PPublish
  then obtain r st where bg: "px_bg s = BgHas r st" using ev by (auto split: bg_thread.splits)
  have "px_status s \<noteq> NOT_STARTED" using inv bg by (auto simp: px_inv_def px_fresh_def)
  then have "status_rank (px_status s) \<le> 2" by (cases "px_status s") simp_all
  then show ?thesis using ev PPublish bg
    by (auto simp: wait_publish_def new_kills_same kill_rank_broadcast Let_def split: if_splits)
next
  case (PWait i t)
  then show ?thesis using ev
    by (auto simp: new_kills_same wait_enter_cases split: if_splits ProgramStatus.splits)
next
  case (PChildExit st)
  then have "s' = s\<lparr>px_child := Zombie st\<rparr>" using ev by (auto split: if_splits)
  then show ?thesis by (simp add: new_kills_same)
next
  case PReap
  then obtain st where "s' = s\<lparr>px_bg := BgHas (pe_processId (px_exec s)) st, px_child := Reaped st\<rparr>"
    using ev by (auto split: bg_thread.splits child.splits)
  then show ?thesis by (simp add: new_kills_same)
next
  case (PWaitFails r st)
  then have "s' = s\<lparr>px_bg := BgHas r st\<rparr>" using ev by (auto split: if_splits)
  then show ?thesis by (simp add: new_kills_same)
next
  case (PWoken i)
  then have "s' = s\<lparr>px_waits := (px_waits s)(i := None)\<rparr>"
    using ev by (auto split: option.splits prod.splits bool.splits)
  then show ?thesis by (simp add: new_kills_same)
next
  case (PTimeout i)
  then have "s' = s\<lparr>px_waits := (px_waits s)(i := None)\<rparr>"
    using ev by (auto split: option.splits prod.splits)
  then show ?thesis by (simp add: new_kills_same)
qed (rule kill_event_effect [OF inv, of W e], use ev in simp)+

lemma kill_progress:
  assumes inv: "px_inv s" and W: "\<forall>n. W n > 0" and busy: "px_kill s \<noteq> K_idle"
  shows "\<exists>e s'. kill_event W e s = Some s' \<and> kill_rank (px_kill s') < kill_rank (px_kill s)"
proof -
  have started: "px_status s \<noteq> NOT_STARTED" using inv busy by (auto simp: px_inv_def px_fresh_def)
  have pc: "kill_pc_ok (px_kill s) (px_status s = RUNNING) (px_sends s)" using inv by (simp add: px_inv_def)
  show ?thesis
  proof (cases "px_kill s")
    case (K_send n)
    then show ?thesis by (intro exI [of _ PKillSend]) simp
  next
    case (K_wait n)
    then show ?thesis using started
      by (intro exI [of _ PKillEnter]) (auto simp: wait_enter_cases split: ProgramStatus.split)
  next
    case (K_block n b)
    have "n < 3 \<or> n = 3" using pc K_block by auto
    then show ?thesis using K_block W by (intro exI [of _ PKillTimeout]) auto
  next
    case K_giveup
    then show ?thesis by (intro exI [of _ PKillGiveUp]) simp
  qed (use busy in simp)
qed

section \<open>What a call of kill achieves\<close>

text \<open>The steps that the thread inside \<open>kill\<close> takes by itself.\<close>

definition killer_step :: "pevent \<Rightarrow> bool" where
  "killer_step e \<longleftrightarrow> e \<in> {PKillSend, PKillEnter, PKillWoken, PKillTimeout, PKillGiveUp}"

lemma kill_event_px: "kill_event W e s = Some s' \<Longrightarrow> px_event W e s = Some s'"
  by (cases e) auto

lemma killer_progress:
  assumes inv: "px_inv s" and busy: "(\<forall>n. W n > 0) \<and> px_kill s \<noteq> K_idle"
  shows "\<exists>e s'. killer_step e \<and> px_event W e s = Some s' \<and> kill_rank (px_kill s') < kill_rank (px_kill s)"
proof -
  obtain e s' where e: "kill_event W e s = Some s'" "kill_rank (px_kill s') < kill_rank (px_kill s)"
    using kill_progress [OF inv] busy by blast
  have "killer_step e" using e busy by (cases e) (auto simp: killer_step_def split: if_splits)
  then show ?thesis using e kill_event_px by blast
qed

interpretation px: event_system "px_event W" px_inv for W
  by unfold_locales (rule px_event_inv)

interpretation kill: ending_system "px_event W" px_inv killer_step
    "\<lambda>s. (\<forall>n. W n > 0) \<and> px_kill s \<noteq> K_idle" "\<lambda>s. kill_rank (px_kill s)" for W
  by unfold_locales (rule killer_progress)

text \<open>A call of \<open>kill\<close> only returns when the program is no longer \<open>RUNNING\<close>.\<close>

lemma kill_returns:
  assumes inv: "px_inv s" and ev: "px_event W e s = Some s'" and k: "px_kill s \<noteq> K_idle" "px_kill s' = K_idle"
  shows "px_status s' \<noteq> RUNNING"
proof -
  have pc: "kill_pc_ok (px_kill s) (px_status s = RUNNING) (px_sends s)" using inv by (simp add: px_inv_def)
  show ?thesis using ev k pc
    by (cases e) (auto simp: wait_enter_cases Let_def split: if_splits sum.splits option.splits prod.splits
        bool.splits child.splits bg_thread.splits kill_pc.splits ProgramStatus.splits)
qed

text \<open>The end of the program is final: later events change neither a final status back nor the child.\<close>

lemma px_event_stays:
  assumes inv: "px_inv s" and ev: "px_event W e s = Some s'"
  shows "(px_status s \<noteq> NOT_STARTED \<longrightarrow> px_status s' \<noteq> NOT_STARTED) \<and>
    (px_status s \<notin> {NOT_STARTED, RUNNING} \<longrightarrow> px_status s' \<noteq> RUNNING) \<and>
    (\<forall>st. px_child s = Reaped st \<longrightarrow> px_child s' = Reaped st)"
proof (intro conjI impI allI)
  have rank: "status_rank (px_status s) \<le> status_rank (px_status s')" using px_event_effect [OF inv ev] by blast
  show "px_status s \<noteq> NOT_STARTED \<Longrightarrow> px_status s' \<noteq> NOT_STARTED"
    using rank by (cases "px_status s") auto
  show "px_status s \<notin> {NOT_STARTED, RUNNING} \<Longrightarrow> px_status s' \<noteq> RUNNING"
    using rank by (cases "px_status s") auto
  fix st assume st: "px_child s = Reaped st"
  show "px_child s' = Reaped st"
  proof (cases e)
    case (PStart pip err pid)
    then have "px_status s = NOT_STARTED" using ev by (auto split: if_splits sum.splits dest: start_parent_ok)
    then have "px_fresh s" using inv by (simp add: px_inv_def)
    then show ?thesis using st by (simp add: px_fresh_def)
  qed (use ev st in \<open>auto simp: Let_def split: if_splits sum.splits option.splits prod.splits
        bool.splits child.splits bg_thread.splits kill_pc.splits wait_step.splits\<close>)
qed

text \<open>Once \<open>kill\<close> is at work the program is being stopped, or has ended: this is kept by all events.\<close>

definition stopping :: "psys \<Rightarrow> bool" where
  "stopping s \<longleftrightarrow> px_inv s \<and> px_status s \<noteq> NOT_STARTED \<and> (px_kill s = K_idle \<longrightarrow> px_status s \<noteq> RUNNING)"

interpretation stop: event_system "px_event W" stopping for W
proof
  fix s e s' assume s: "stopping s" and ev: "px_event W e s = Some s'"
  then have inv: "px_inv s" by (simp add: stopping_def)
  then have "px_kill s' = K_idle \<Longrightarrow> px_status s' \<noteq> RUNNING"
    using kill_returns [OF inv ev] px_event_stays [OF inv ev] s by (auto simp: stopping_def)
  then show "stopping s'" using px_event_inv [OF inv ev] px_event_stays [OF inv ev] s by (simp add: stopping_def)
qed

text \<open>An executor whose program has ended stays so, whatever the other threads do.\<close>

definition px_ended :: "psys \<Rightarrow> bool" where
  "px_ended s \<longleftrightarrow> px_inv s \<and> px_status s \<notin> {NOT_STARTED, RUNNING}"

lemma ended_step: "px_ended s \<Longrightarrow> px_event W e s = Some s' \<Longrightarrow> px_ended s'"
  using px_event_inv px_event_stays by (fastforce simp: px_ended_def)

text \<open>
  What stays, whoever is at work: the end, and so do the status of a reaped child and a
  program that was given up when its background thread was already done.
\<close>

definition px_done :: "psys \<Rightarrow> bool" where
  "px_done s \<longleftrightarrow> px_status s = CANNOT_KILL \<and> px_bg s = BgDone"

definition published :: "psys \<Rightarrow> bool" where
  "published s \<longleftrightarrow> px_inv s \<and> (px_status s = EXITED \<or> px_status s = SIGNALLED \<longrightarrow> px_bg s = BgDone)"

definition follows :: "psys \<Rightarrow> psys \<Rightarrow> bool" where
  "follows s s' \<longleftrightarrow> published s' \<and> (px_ended s \<longrightarrow> px_ended s') \<and> (px_done s \<longrightarrow> px_done s') \<and>
     (px_bg s = BgDone \<longrightarrow> px_bg s' = BgDone) \<and> (\<forall>w. px_child s = Reaped w \<longrightarrow> px_child s' = Reaped w)"

lemma published_step:
  assumes pub: "published s" and ev: "px_event W e s = Some s'"
  shows "follows s s'"
proof -
  have inv: "px_inv s" using pub by (simp add: published_def)
  have fresh: "px_status s \<noteq> NOT_STARTED \<or> px_bg s = BgNone" using inv by (auto simp: px_inv_def px_fresh_def)
  have "(px_bg s = BgDone \<longrightarrow> px_bg s' = BgDone) \<and> (px_done s \<longrightarrow> px_done s') \<and>
      (px_status s' = EXITED \<or> px_status s' = SIGNALLED \<longrightarrow> px_bg s' = BgDone)"
  proof (cases e)
    case (PStart pip err pid)
    then show ?thesis using ev fresh by (auto simp: px_done_def split: if_splits sum.splits dest: start_parent_ok)
  qed (use pub ev in \<open>auto simp: px_done_def published_def wait_publish_def Let_def split: if_splits sum.splits
        option.splits prod.splits bool.splits child.splits bg_thread.splits kill_pc.splits wait_step.splits\<close>)
  then show ?thesis using px_event_inv [OF inv ev] px_event_stays [OF inv ev] ended_step [OF _ ev]
    by (auto simp: follows_def published_def)
qed

lemma reachable_published: "px_reachable W s \<Longrightarrow> published s"
proof (induction rule: px_reachable.induct)
  case (init args env wd capture tag ex)
  then show ?case using ProgramExecutor_new_ok [OF init] px_reachable_inv [OF px_reachable.init [OF init]]
    by (simp add: published_def psys_init_def)
next
  case (step s e s')
  then show ?case using published_step by (auto simp: follows_def)
qed

lemma follows_trans: "follows s s' \<Longrightarrow> follows s' s'' \<Longrightarrow> follows s s''"
  by (simp add: follows_def)

lemma run_follows: "published s \<Longrightarrow> px_run W es s = Some s' \<Longrightarrow> follows s s'"
proof (induction es arbitrary: s)
  case (Cons e es)
  then obtain s1 where s1: "px_event W e s = Some s1" "px_run W es s1 = Some s'" by (auto split: option.splits)
  have "follows s s1" by (rule published_step [OF Cons.prems(1) s1(1)])
  then show ?case using Cons.IH [OF _ s1(2)] follows_trans by (auto simp: follows_def)
qed (simp add: follows_def)

lemma ended_cases:
  assumes "px_ended s"
  obtains w where "px_status s = EXITED" "px_child s = Reaped w" "pe_waitStatus (px_exec s) = w" "WIFEXITED w"
  | w where "px_status s = SIGNALLED" "px_child s = Reaped w" "\<not> WIFEXITED w" "WIFSIGNALED w"
  | "px_status s = CANNOT_KILL"
  using assms by (cases "px_status s") (auto simp: px_ended_def px_inv_def)

text \<open>A call of \<open>kill\<close> that gives up closes the pipe of the output.\<close>

definition pipe_closed :: "executor \<Rightarrow> bool" where
  "pipe_closed ex \<longleftrightarrow> SysClose (pe_pipeFd ex) \<in> set (pe_calls ex)"

lemma px_event_pipe:
  assumes ev: "px_event W e s = Some s'" and pipe: "px_status s = CANNOT_KILL \<longrightarrow> pipe_closed (px_exec s)"
  shows "px_status s' = CANNOT_KILL \<longrightarrow> pipe_closed (px_exec s')"
proof (cases e)
  case (PStart pip err pid)
  then show ?thesis using ev by (auto split: if_splits sum.splits dest: start_parent_ok)
qed (use ev pipe in \<open>auto simp: pipe_closed_def sys_def give_up_def killIfRunning_def wait_publish_def Let_def
      split: if_splits sum.splits option.splits prod.splits bool.splits child.splits bg_thread.splits kill_pc.splits
        wait_step.splits\<close>)

lemma reachable_pipe: "px_reachable W s \<Longrightarrow> px_status s = CANNOT_KILL \<Longrightarrow> pipe_closed (px_exec s)"
proof (induction rule: px_reachable.induct)
  case (init args env wd capture tag ex)
  then show ?case using ProgramExecutor_new_ok [OF init(1)] by (simp add: psys_init_def)
next
  case (step s e s')
  then show ?case using px_event_pipe [OF step.hyps(2)] by blast
qed

text \<open>The steps of \<open>kill\<close> let no other thread leave \<open>wait\<close>.\<close>

lemma killer_waits:
  "killer_step e \<Longrightarrow> px_event W e s = Some s' \<Longrightarrow> px_waits s i = Some (to, b) \<Longrightarrow> \<exists>b'. px_waits s' i = Some (to, b')"
  by (auto simp: killer_step_def broadcast_waits ex_bool_eq split: if_splits kill_pc.splits sum.splits bool.splits wait_step.splits)

lemma killer_run_waits:
  "\<forall>e \<in> set es. killer_step e \<Longrightarrow> px_run W es s = Some s' \<Longrightarrow> px_waits s i = Some (to, b) \<Longrightarrow>
   \<exists>b'. px_waits s' i = Some (to, b')"
proof (induction es arbitrary: s b)
  case (Cons e es)
  then obtain s1 where s1: "px_event W e s = Some s1" "px_run W es s1 = Some s'" by (auto split: option.splits)
  obtain b1 where "px_waits s1 i = Some (to, b1)" using killer_waits [OF _ s1(1) Cons.prems(3)] Cons.prems(1) by auto
  then show ?case using Cons.IH [OF _ s1(2)] Cons.prems(1) by simp
qed simp

lemma kill_rank_bound: "px_inv s \<Longrightarrow> kill_rank (px_kill s) \<le> 10"
  by (cases "px_kill s") (auto simp: px_inv_def)

text \<open>Every step of \<open>kill\<close> brings it closer to its end, and no step of another thread sets it back.\<close>

lemma killer_rank:
  assumes inv: "px_inv s" and e: "killer_step e" "px_event W e s = Some s'"
  shows "kill_rank (px_kill s') < kill_rank (px_kill s)"
proof -
  have "kill_pc_ok (px_kill s) (px_status s = RUNNING) (px_sends s)" using inv by (simp add: px_inv_def)
  then show ?thesis using e unfolding killer_step_def
    by (auto split: kill_pc.splits sum.splits bool.splits wait_step.splits if_splits)
qed

lemma killer_run_rank:
  "px_inv s \<Longrightarrow> px_run W es s = Some s' \<Longrightarrow> PKillLock \<notin> set es \<Longrightarrow>
   length (filter killer_step es) + kill_rank (px_kill s') \<le> kill_rank (px_kill s)"
proof (induction es arbitrary: s)
  case (Cons e es)
  then obtain s1 where s1: "px_event W e s = Some s1" "px_run W es s1 = Some s'" by (auto split: option.splits)
  have "kill_rank (px_kill s1) \<le> kill_rank (px_kill s)"
    using px_event_effect [OF Cons.prems(1) s1(1)] Cons.prems(3) by auto
  then show ?case
    using Cons.IH [OF px_event_inv [OF Cons.prems(1) s1(1)] s1(2)] killer_rank [OF Cons.prems(1) _ s1(1)] Cons.prems(3)
    by fastforce
qed simp

text \<open>A call that has begun, or is queued, brings the program to its end with at most 11 more steps.\<close>

lemma kill_run:
  assumes inv: "px_inv s" and W: "\<forall>n. W n > 0" and call: "px_kill s \<noteq> K_idle \<or> px_queue s > 0"
  shows "\<exists>es s'. (\<forall>e \<in> set es. e = PKillLock \<or> killer_step e) \<and> length es \<le> 11 \<and>
    px_run W es s = Some s' \<and> px_inv s' \<and> px_status s' \<noteq> RUNNING \<and>
    (\<forall>i to b. px_waits s i = Some (to, b) \<longrightarrow> px_waits s' i = Some (to, True))"
proof -
  have main: "\<exists>es s'. (\<forall>e \<in> set es. killer_step e) \<and> length es \<le> 10 \<and> px_run W es s = Some s' \<and>
      px_inv s' \<and> px_status s' \<noteq> RUNNING \<and>
      (\<forall>i to b. px_waits s i = Some (to, b) \<longrightarrow> px_waits s' i = Some (to, True))"
    if inv: "px_inv s" and k: "px_kill s \<noteq> K_idle" for s
  proof -
    obtain es s' where es: "\<forall>e \<in> set es. killer_step e" "length es \<le> kill_rank (px_kill s)"
        "px_run W es s = Some s'" "px_inv s'" "px_kill s' = K_idle"
      using kill.ends [OF inv, of W] W by blast
    have "stopping s" using inv k by (auto simp: stopping_def px_inv_def px_fresh_def)
    then have stopped: "px_status s' \<noteq> RUNNING" using stop.run_inv [OF _ es(3)] es(5) by (simp add: stopping_def)
    have "px_waits s' i = Some (to, True)" if w: "px_waits s i = Some (to, b)" for i to b
    proof -
      obtain b' where "px_waits s' i = Some (to, b')" using killer_run_waits [OF es(1,3) w] by blast
      then show ?thesis using es(4) stopped by (cases b') (auto simp: px_inv_def all_signalled_def)
    qed
    then show ?thesis using es kill_rank_bound [OF inv] stopped by (intro exI [of _ es] exI [of _ s']) auto
  qed
  show ?thesis
  proof (cases "px_kill s = K_idle")
    case True
    define s1 where "s1 = s\<lparr>px_queue := px_queue s - 1, px_kill := K_send 1, px_sends := []\<rparr>"
    have s1: "px_event W PKillLock s = Some s1" using True call by (simp add: s1_def)
    obtain es s' where es: "\<forall>e \<in> set es. killer_step e" "length es \<le> 10" "px_run W es s1 = Some s'"
        "px_inv s'" "px_status s' \<noteq> RUNNING"
        "\<forall>i to b. px_waits s1 i = Some (to, b) \<longrightarrow> px_waits s' i = Some (to, True)"
      using main [OF px_event_inv [OF inv s1]] by (auto simp: s1_def)
    then show ?thesis using s1
      by (intro exI [of _ "PKillLock # es"] exI [of _ s']) (auto simp: s1_def)
  next
    case False
    then obtain es s' where es: "\<forall>e \<in> set es. killer_step e" "length es \<le> 10" "px_run W es s = Some s'"
        "px_inv s'" "px_status s' \<noteq> RUNNING"
        "\<forall>i to b. px_waits s i = Some (to, b) \<longrightarrow> px_waits s' i = Some (to, True)"
      using main [OF inv] by blast
    then show ?thesis by (intro exI [of _ es] exI [of _ s']) simp
  qed
qed

section \<open>Properties\<close>

text \<open>The milliseconds that \<open>kill\<close> passes to \<open>wait\<close>, from its three arguments in seconds.\<close>

definition kill_ms :: "int \<times> int \<times> int \<Rightarrow> nat \<Rightarrow> int" where
  "kill_ms w n = (case w of (firstWait, secondWait, finalWait) \<Rightarrow>
     (if n = 1 then firstWait else if n = 2 then secondWait else finalWait) * 1000)"

lemma sample_started:
  "px_reachable W (psys_init sample_executor)"
  "\<exists>s. px_run W [PStart (Some (3, 4)) [] 100, PChildExit 0, PReap, PPublish] (psys_init sample_executor) = Some s \<and>
     px_reachable W s \<and> px_status s = EXITED \<and> px_bg s = BgDone"
  "\<exists>s. px_run W [PStart (Some (3, 4)) [] 100, PKillCall, PKillLock] (psys_init sample_executor) = Some s \<and>
     px_reachable W s \<and> px_status s = RUNNING \<and> px_kill s = K_send 1 \<and> px_sends s = [] \<and>
     pe_processId (px_exec s) = 100"
proof -
  have "ProgramExecutor_new [''sh'', ''-c'', ''ls''] [(''A'', ''1'')] ''/tmp'' True ''Program'' =
      Inr sample_executor"
    by (simp add: ProgramExecutor_new_def sample_executor_def)
  then show r: "px_reachable W (psys_init sample_executor)" by (rule px_reachable.init)
  note defs = psys_init_def start_parent_def wait_publish_def Let_def terminated_def WIFEXITED_def
    WTERMSIG_def
  have "\<exists>s. px_run W [PStart (Some (3, 4)) [] 100, PChildExit 0, PReap, PPublish] (psys_init sample_executor) = Some s \<and>
     px_status s = EXITED \<and> px_bg s = BgDone"
    by (simp add: defs)
  then show "\<exists>s. px_run W [PStart (Some (3, 4)) [] 100, PChildExit 0, PReap, PPublish] (psys_init sample_executor) = Some s \<and>
     px_reachable W s \<and> px_status s = EXITED \<and> px_bg s = BgDone"
    using px_run_reachable [OF r] by blast
  have "\<exists>s. px_run W [PStart (Some (3, 4)) [] 100, PKillCall, PKillLock] (psys_init sample_executor) = Some s \<and>
     px_status s = RUNNING \<and> px_kill s = K_send 1 \<and> px_sends s = [] \<and> pe_processId (px_exec s) = 100"
    by (simp add: defs)
  then show "\<exists>s. px_run W [PStart (Some (3, 4)) [] 100, PKillCall, PKillLock] (psys_init sample_executor) = Some s \<and>
     px_reachable W s \<and> px_status s = RUNNING \<and> px_kill s = K_send 1 \<and> px_sends s = [] \<and>
     pe_processId (px_exec s) = 100"
    using px_run_reachable [OF r] by blast
qed



text \<open>A started executor has no child only after a failed \<open>fork\<close>, whose negative value is then its process.\<close>

lemma no_child_event:
  assumes inv: "px_inv s" and ev: "px_event W e s = Some s'"
    and neg: "px_status s \<noteq> NOT_STARTED \<Longrightarrow> px_child s = NoChild \<Longrightarrow> pe_processId (px_exec s) < 0"
    and here: "px_status s' \<noteq> NOT_STARTED" "px_child s' = NoChild"
  shows "pe_processId (px_exec s') < 0"
proof -
  have fresh: "px_status s \<noteq> NOT_STARTED \<or> px_bg s = BgNone \<and> px_kill s = K_idle"
    using inv by (auto simp: px_inv_def px_fresh_def)
  have neg': "px_status s = NOT_STARTED \<or> px_child s \<noteq> NoChild \<or> pe_processId (px_exec s) < 0" using neg by blast
  show ?thesis
  proof (cases e)
    case (PStart pip err pid)
    then show ?thesis using ev here by (auto split: if_splits sum.splits dest: start_parent_ok)
  qed (use ev neg' here fresh in \<open>auto simp: wait_publish_def Let_def split: if_splits sum.splits option.splits prod.splits
        bool.splits child.splits bg_thread.splits kill_pc.splits wait_step.splits\<close>)
qed

lemma no_child_reachable:
  "px_reachable W s \<Longrightarrow> px_status s \<noteq> NOT_STARTED \<Longrightarrow> px_child s = NoChild \<Longrightarrow> pe_processId (px_exec s) < 0"
proof (induction rule: px_reachable.induct)
  case (init args env wd capture tag ex)
  then show ?case using ProgramExecutor_new_ok [OF init(1)] by (simp add: psys_init_def)
next
  case (step s e s')
  show ?case by (rule no_child_event [OF px_reachable_inv [OF step.hyps(1)] step.hyps(2) step.IH step.prems])
qed

text \<open>Whom a signal can meet: the child, running or not yet waited for, the number of a child that is reaped and whose
  end is not published, or everyone, after a failed \<open>fork\<close>.\<close>

definition kill_target :: "psys \<Rightarrow> int \<Rightarrow> bool" where
  "kill_target s p \<longleftrightarrow>
     (if p > 0 then (case px_child s of
          NoChild \<Rightarrow> False | Alive \<Rightarrow> True | Zombie st \<Rightarrow> True | Reaped st \<Rightarrow>
            (case px_bg s of BgHas r st' \<Rightarrow> r > 0 \<and> st' = st | _ \<Rightarrow> False))
      else p < 0 \<and> px_child s = NoChild)"

lemma running_target:
  assumes "px_reachable W s" "px_status s = RUNNING"
  shows "kill_target s (pe_processId (px_exec s))"
proof -
  have inv: "child_bg_ok (px_child s) (px_bg s) True" "px_child s = NoChild \<or> pe_processId (px_exec s) > 0"
    using px_reachable_inv [OF assms(1)] assms(2) by (simp_all add: px_inv_def)
  show ?thesis
  proof (cases "px_child s")
    case NoChild
    then show ?thesis using no_child_reachable [OF assms(1)] assms(2) by (simp add: kill_target_def)
  next
    case (Reaped st)
    then show ?thesis using inv by (cases "px_bg s") (auto simp: kill_target_def)
  qed (use inv in \<open>simp_all add: kill_target_def\<close>)
qed

text \<open>C13: A signal is only ever sent by \<open>kill\<close>, while the status is \<open>RUNNING\<close>, to the number that \<open>fork\<close> returned. That is the
  child while it runs or waits to be reaped; the number of a child that has just been reaped and whose end is
  not published yet (a window of the code, \<open>kill_after_reap\<close>); or a negative number after a \<open>fork\<close> that failed
  (\<open>fork_failure_signals_everyone\<close>); never anything else. One call of \<open>kill\<close> sends at most SIGINT, SIGINT, SIGKILL, in
  this order, and gives up only after it has sent all three.\<close>

theorem kill_escalates:
  assumes "px_reachable W s" "px_event W e s = Some s'"
  shows "(\<forall>p g. (p, g) \<in> new_kills s s' \<longrightarrow>
      px_status s = RUNNING \<and> p = pe_processId (px_exec s) \<and> (g = SIGINT \<or> g = SIGKILL) \<and> kill_target s p) \<and>
    (\<exists>m. px_sends s' = take m [SIGINT, SIGINT, SIGKILL]) \<and>
    (e = PKillGiveUp \<longrightarrow> px_sends s = [SIGINT, SIGINT, SIGKILL])"
proof (intro conjI)
  have inv: "px_inv s" "px_inv s'"
    using px_reachable_inv assms px_reachable.step by blast+
  show "\<forall>p g. (p, g) \<in> new_kills s s' \<longrightarrow>
      px_status s = RUNNING \<and> p = pe_processId (px_exec s) \<and> (g = SIGINT \<or> g = SIGKILL) \<and> kill_target s p"
    using px_event_effect [OF inv(1) assms(2)] kill_signal_cases running_target [OF assms(1)] by metis
  have pc: "kill_pc_ok k run x \<Longrightarrow> \<exists>m. x = take m kill_order" for k run x
    by (cases k) (auto split: if_splits intro: exI [of _ 3])
  show "\<exists>m. px_sends s' = take m [SIGINT, SIGINT, SIGKILL]"
    using inv(2) pc unfolding px_inv_def kill_order_def by blast
  show "e = PKillGiveUp \<longrightarrow> px_sends s = [SIGINT, SIGINT, SIGKILL]"
    using inv(1) assms(2) by (auto simp: px_inv_def kill_order_def split: kill_pc.splits)
qed

lemma kill_escalates_witness:
  "\<exists>s s'. px_reachable (\<lambda>_. 1000) s \<and> px_event (\<lambda>_. 1000) PKillSend s = Some s' \<and>
     (100, SIGINT) \<in> new_kills s s' \<and> kill_target s 100 \<and> (\<exists>m. px_sends s' = take m [SIGINT, SIGINT, SIGKILL])"
proof -
  obtain s where s: "px_reachable (\<lambda>_. 1000) s" "px_status s = RUNNING" "px_kill s = K_send 1"
    "pe_processId (px_exec s) = 100"
    using sample_started(3) by blast
  then obtain s' where s': "px_event (\<lambda>_. 1000) PKillSend s = Some s'" "(100, SIGINT) \<in> new_kills s s'"
    by (auto simp: new_kills_def killIfRunning_def kill_signal_def)
  then show ?thesis using kill_escalates [OF s(1) s'(1)] s(1) by blast
qed

text \<open>C14: A call of \<open>kill\<close> whose three waits are positive ends: whatever the other threads do in between, it makes
  at most ten steps; as long as it has not returned one of its steps is enabled; and when it has, the
  program is no longer \<open>RUNNING\<close>.\<close>

theorem kill_ends:
  assumes "px_reachable W s" "\<forall>n. W n > 0" "px_kill s \<noteq> K_idle"
    and "px_run W es s = Some s'" "PKillLock \<notin> set es"
  shows "length (filter killer_step es) \<le> 10 \<and>
    (if px_kill s' = K_idle then px_status s' \<noteq> RUNNING
     else \<exists>e s''. killer_step e \<and> px_event W e s' = Some s'')"
proof -
  have inv: "px_inv s" using px_reachable_inv assms(1) .
  have "stopping s" using inv assms(3) by (auto simp: stopping_def px_inv_def px_fresh_def)
  then have stop: "stopping s'" using stop.run_inv assms(4) by blast
  then have "px_kill s' \<noteq> K_idle \<Longrightarrow> \<exists>e s''. killer_step e \<and> px_event W e s' = Some s''"
    using killer_progress [of s' W] assms(2) by (auto simp: stopping_def)
  then show ?thesis
    using killer_run_rank [OF inv assms(4,5)] kill_rank_bound [OF inv] stop by (auto simp: stopping_def)
qed

lemma kill_ends_witness:
  "\<exists>s s'. px_reachable (\<lambda>_. 1000) s \<and> px_kill s = K_send 1 \<and> px_run (\<lambda>_. 1000) [PKillSend, PKillEnter] s = Some s' \<and>
     (if px_kill s' = K_idle then px_status s' \<noteq> RUNNING
      else \<exists>e s''. killer_step e \<and> px_event (\<lambda>_. 1000) e s' = Some s'')"
proof -
  obtain s where s: "px_reachable (\<lambda>_. 1000) s" "px_status s = RUNNING" "px_kill s = K_send 1"
    using sample_started(3) by blast
  obtain s' where s': "px_run (\<lambda>_. 1000) [PKillSend, PKillEnter] s = Some s'" using s by (simp add: wait_enter_cases)
  have busy: "px_kill s \<noteq> K_idle" using s(3) by simp
  have W: "\<forall>n :: nat. (1000 :: int) > 0" and es: "PKillLock \<notin> set [PKillSend, PKillEnter]" by simp_all
  show ?thesis using kill_ends [OF s(1) W busy s' es, THEN conjunct2] s(1,3) s' by blast
qed

text \<open>The status only moves forward: from \<open>NOT_STARTED\<close> to \<open>RUNNING\<close> to one of the three final
  ones, whatever the threads do.\<close>

theorem status_moves_forward:
  assumes "px_reachable W s" "px_run W es s = Some s'"
  shows "status_rank (px_status s) \<le> status_rank (px_status s')"
  using assms
proof (induction es arbitrary: s)
  case (Cons e es)
  then obtain s1 where s1: "px_event W e s = Some s1" "px_run W es s1 = Some s'"
    by (auto split: option.splits)
  have "status_rank (px_status s) \<le> status_rank (px_status s1)"
    using px_event_effect [OF px_reachable_inv [OF Cons.prems(1)] s1(1)] by blast
  then show ?case using Cons.IH [OF px_reachable.step [OF Cons.prems(1) s1(1)] s1(2)] by simp
qed simp

text \<open>A wait of 0 seconds (or less) never ends by itself: a \<open>kill\<close> that is blocked in its \<open>n\<close>-th wait
  with \<open>W n\<close> not positive stays there, whatever the other threads do, until the background thread
  has published the end of the child; it does not escalate to the next signal.\<close>

theorem zero_wait_never_escalates:
  assumes "W n \<le> 0" "px_kill s = K_block n False" "px_run W es s = Some s'" "PPublish \<notin> set es"
  shows "px_kill s' = K_block n False \<and> px_sends s' = px_sends s"
  using assms(2-4)
proof (induction es arbitrary: s)
  case (Cons e es)
  then obtain s1 where s1: "px_event W e s = Some s1" "px_run W es s1 = Some s'"
    by (auto split: option.splits)
  have "px_kill s1 = K_block n False \<and> px_sends s1 = px_sends s"
    using s1(1) Cons.prems(1,3) assms(1)
    by (cases e) (auto split: if_splits sum.splits bg_thread.splits child.splits wait_step.splits
        option.splits prod.splits bool.splits)
  then show ?case using Cons.IH [OF _ s1(2)] Cons.prems(3) by simp
qed simp

lemma zero_wait_never_escalates_witness:
  defines "W \<equiv> kill_ms (kill_waits (\<lambda>v. if v = ''0'' then Some 0 else None)
      [''ML_GRIDENGINE_KILL_PROGRAM_FIRST_WAIT_SECONDS'' \<mapsto> ''0''])"
  shows "\<exists>s'. px_run W [PStart (Some (3, 4)) [] 100, PKillCall, PKillLock, PKillSend, PKillEnter, PChildExit 0, PReap]
      (psys_init sample_executor) = Some s' \<and> px_kill s' = K_block 1 False \<and> px_sends s' = [SIGINT]"
proof -
  have W: "W 1 = 0" by (simp add: W_def kill_ms_def kill_waits_def tryParseEnv_def)
  obtain s where s: "px_run W [PStart (Some (3, 4)) [] 100, PKillCall, PKillLock, PKillSend, PKillEnter]
      (psys_init sample_executor) = Some s" "px_kill s = K_block 1 False" "px_sends s = [SIGINT]"
    "px_child s = Alive" "px_bg s = BgWaits"
    by (simp add: psys_init_def start_parent_def Let_def wait_enter_cases kill_signal_def)
  have app: "px_run W (xs @ ys) a = (case px_run W xs a of None \<Rightarrow> None | Some b \<Rightarrow> px_run W ys b)" for xs ys a
    by (induction xs arbitrary: a) (auto split: option.split)
  obtain s' where s': "px_run W [PChildExit 0, PReap] s = Some s'"
    using s(4,5) by (simp add: terminated_def WIFEXITED_def WTERMSIG_def)
  then have "px_run W [PStart (Some (3, 4)) [] 100, PKillCall, PKillLock, PKillSend, PKillEnter, PChildExit 0, PReap]
      (psys_init sample_executor) = Some s'"
    using app [of "[PStart (Some (3, 4)) [] 100, PKillCall, PKillLock, PKillSend, PKillEnter]"
        "[PChildExit 0, PReap]" "psys_init sample_executor"] s(1) by simp
  then show ?thesis
    using zero_wait_never_escalates [OF _ s(2) s'] W s(3) by auto
qed

text \<open>When \<open>waitpid\<close> fails (an interrupted call is enough, the signal handlers are installed without
  restart), nothing ever sets the status: unless some \<open>kill\<close> gives up on the process, the status
  stays \<open>RUNNING\<close> after the child has ended, and a thread in \<open>wait\<close> without a timeout stays there.\<close>

theorem wait_failure_sticks:
  assumes "px_bg s = BgDone" "px_status s = RUNNING" "px_waits s i = Some (None, False)"
    and "px_run W es s = Some s'" "PKillGiveUp \<notin> set es"
  shows "px_status s' = RUNNING \<and> px_waits s' i = Some (None, False)"
proof -
  have "px_bg s' = BgDone \<and> px_status s' = RUNNING \<and> px_waits s' i = Some (None, False)"
    using assms
  proof (induction es arbitrary: s)
    case (Cons e es)
    then obtain s1 where s1: "px_event W e s = Some s1" "px_run W es s1 = Some s'"
      by (auto split: option.splits)
    have "px_bg s1 = BgDone \<and> px_status s1 = RUNNING \<and> px_waits s1 i = Some (None, False)"
      using s1(1) Cons.prems(1-3,5)
      by (cases e) (auto simp: start_parent_def split: if_splits sum.splits bg_thread.splits child.splits
          wait_step.splits option.splits prod.splits bool.splits kill_pc.splits)
    then show ?case using Cons.IH [OF _ _ _ s1(2)] Cons.prems(5) by simp
  qed simp
  then show ?thesis by simp
qed

lemma wait_failure_sticks_witness:
  "\<exists>s s'. px_run (\<lambda>_. 1000) [PStart (Some (3, 4)) [] 100, PWait 0 0, PWaitFails (- 1) 0, PPublish]
      (psys_init sample_executor) = Some s \<and>
     px_run (\<lambda>_. 1000) [PChildExit 0] s = Some s' \<and> px_status s' = RUNNING \<and> px_waits s' 0 = Some (None, False)"
proof -
  obtain s where s: "px_run (\<lambda>_. 1000) [PStart (Some (3, 4)) [] 100, PWait 0 0, PWaitFails (- 1) 0, PPublish]
      (psys_init sample_executor) = Some s" "px_bg s = BgDone" "px_status s = RUNNING"
    "px_waits s 0 = Some (None, False)" "px_child s = Alive"
    by (simp add: psys_init_def start_parent_def Let_def wait_enter_cases wait_publish_def)
  obtain s' where s': "px_run (\<lambda>_. 1000) [PChildExit 0] s = Some s'"
    using s(5) by (simp add: terminated_def WIFEXITED_def WTERMSIG_def)
  then show ?thesis using wait_failure_sticks [OF s(2-4) s'] s(1) by auto
qed

text \<open>\<open>start\<close> does not check for a failed \<open>fork\<close>: with the return value -1 the executor is \<open>RUNNING\<close>
  with no child, and a call of \<open>kill\<close> sends SIGINT to process -1, that is to every process the
  user may signal.\<close>

theorem fork_failure_signals_everyone:
  "\<exists>s. px_run W [PStart (Some (3, 4)) [] (- 1), PKillCall, PKillLock, PKillSend] (psys_init sample_executor) = Some s \<and>
     px_child s = NoChild \<and> px_status s = RUNNING \<and> SysKill (- 1) SIGINT \<in> set (pe_calls (px_exec s))"
  by (simp add: psys_init_def start_parent_def Let_def killIfRunning_def kill_signal_def)

text \<open>The final timeout of \<open>kill\<close> and the end of the child can cross: between the two critical
  sections the background thread publishes that the child has exited, then \<open>kill\<close> overwrites the
  status with \<open>CANNOT_KILL\<close>. The child has exited with code 0, but \<open>exitCode\<close> is -1.\<close>

theorem give_up_overwrites_exit:
  "\<exists>s. px_run (\<lambda>_. 1000) [PStart (Some (3, 4)) [] 100, PKillCall, PKillLock,
        PKillSend, PKillEnter, PKillTimeout, PKillSend, PKillEnter, PKillTimeout,
        PKillSend, PKillEnter, PKillTimeout, PChildExit (exit_status 0), PReap, PPublish, PKillGiveUp]
      (psys_init sample_executor) = Some s \<and>
     px_child s = Reaped (exit_status 0) \<and> px_bg s = BgDone \<and> px_status s = CANNOT_KILL \<and>
     exitCode (px_exec s) = - 1"
  by (simp add: psys_init_def start_parent_def Let_def wait_enter_cases wait_publish_def exit_status_def
      terminated_def WIFEXITED_def WTERMSIG_def exitCode_def numeral_eq_Suc)

text \<open>There is a window in which \<open>kill\<close> signals a process that is gone: the child has been reaped by
  \<open>waitpid\<close>, so that its number may be reused, but the status is still \<open>RUNNING\<close> until the
  background thread has the mutex.\<close>

theorem kill_after_reap:
  "\<exists>s. px_run W [PStart (Some (3, 4)) [] 100, PKillCall, PKillLock, PChildExit (exit_status 0), PReap, PKillSend]
      (psys_init sample_executor) = Some s \<and>
     px_child s = Reaped (exit_status 0) \<and> SysKill 100 SIGINT \<in> set (pe_calls (px_exec s))"
  by (simp add: psys_init_def start_parent_def Let_def killIfRunning_def kill_signal_def exit_status_def
      terminated_def WIFEXITED_def WTERMSIG_def)

end
