(* ===== verification/KillRequest.thy ===== *)
theory KillRequest
  imports WebServer ExecutorSystem
begin

text \<open>
  A kill request over HTTP from end to end: the handler (\<open>KillHandler\<close>, theory \<open>WebServer\<close>) calls \<open>kill\<close>
  (theory \<open>ExecutorSystem\<close>) and answers with the status it finds afterwards.
\<close>

text \<open>
  Once a call of \<open>kill\<close> has returned no other call can give up any more: those that follow find the program
  ended. From then on an exit or a signal is final; only \<open>CANNOT_KILL\<close> can still be replaced, by the
  background thread, when the child ends after all.
\<close>

definition px_over :: "psys \<Rightarrow> bool" where
  "px_over s \<longleftrightarrow> px_ended s \<and> (case px_kill s of K_block n b \<Rightarrow> False | K_giveup \<Rightarrow> False | _ \<Rightarrow> True)"

definition settled :: "psys \<Rightarrow> psys \<Rightarrow> bool" where
  "settled s s' \<longleftrightarrow> (px_status s \<noteq> CANNOT_KILL \<longrightarrow>
     px_status s' = px_status s \<and> pe_waitStatus (px_exec s') = pe_waitStatus (px_exec s))"

lemma over_step:
  assumes over: "px_over s" and ev: "px_event W e s = Some s'"
  shows "px_over s' \<and> settled s s'"
proof (cases e)
  case (PStart pip err pid)
  then show ?thesis using over ev
    by (auto simp: px_over_def px_ended_def split: if_splits sum.splits dest: start_parent_ok(1))
next
  case PPublish
  then obtain r w where bg: "px_bg s = BgHas r w" using ev by (auto split: bg_thread.splits)
  have "r > 0 \<and> px_child s = Reaped w" if "px_child s = Reaped w'" for w'
    using over bg that by (auto simp: px_over_def px_ended_def px_inv_def)
  moreover have "exit_ok (px_status s) (px_child s) (pe_waitStatus (px_exec s))"
    using over by (simp add: px_over_def px_ended_def px_inv_def)
  ultimately have "settled s s'" using PPublish bg ev over
    by (cases "px_status s")
      (auto simp: settled_def px_over_def px_ended_def wait_publish_def Let_def split: if_splits)
  moreover have "px_over s'" using PPublish bg ev over ended_step [OF _ ev]
    by (auto simp: px_over_def wait_publish_def Let_def split: if_splits kill_pc.splits)
  ultimately show ?thesis by simp
qed (use over ev ended_step [OF _ ev] in \<open>auto simp: px_over_def settled_def px_ended_def wait_enter_cases Let_def
      split: if_splits sum.splits option.splits prod.splits bool.splits child.splits bg_thread.splits kill_pc.splits
        wait_step.splits ProgramStatus.splits\<close>)

interpretation over: event_system "px_event W" px_over for W
  by unfold_locales (use over_step in blast)


section \<open>The reads of the handler\<close>















end
