(* ===== verification/AutoPtr.thy ===== *)
theory AutoPtr
  imports OutputRing
begin

text \<open>
  The pointers that release what they hold at the end of a scope, \<open>AutoFreePtr\<close> (src/src/AutoFreePtr.h) and
  \<open>AutoDelete\<close> (src/src/OutputBuffer.cpp), on the live blocks of the memory, and the ownership of the array of
  \<open>OutputBuffer\<close>: its constructor, \<open>_expandBuffer\<close> and \<open>_overwrite\<close> with the block that \<open>_buffer\<close> points to, and its
  destructor. The theory \<open>OutputRing\<close> has the same operations on the contents of the array; here they run
  together with their allocations. Which address \<open>malloc\<close> gives is an argument.
\<close>

section \<open>Blocks and pointers\<close>

text \<open>The live blocks, by their addresses, with what they hold.\<close>

type_synonym 'c blocks = "nat \<Rightarrow> 'c option"

text \<open>\<open>free\<close> of the null pointer does nothing, of a block that is not live it is undefined.\<close>

definition free_block :: "nat \<Rightarrow> 'c blocks \<Rightarrow> 'c blocks res" where
  "free_block p h = (if p = 0 then Inr h else case h p of None \<Rightarrow> Inl OutOfBounds | Some _ \<Rightarrow> Inr (h(p := None)))"

record auto_ptr =
  ap_ptr :: nat

definition AutoFreePtr_new :: "nat \<Rightarrow> auto_ptr" where
  "AutoFreePtr_new p = \<lparr>ap_ptr = p\<rparr>"


definition AutoFreePtr_destroy :: "auto_ptr \<Rightarrow> 'c blocks \<Rightarrow> 'c blocks res" where
  "AutoFreePtr_destroy a h = free_block (ap_ptr a) h"

definition AutoDelete_new :: "nat \<Rightarrow> auto_ptr" where
  "AutoDelete_new p = \<lparr>ap_ptr = p\<rparr>"

definition AutoDelete_swap :: "nat \<Rightarrow> auto_ptr \<Rightarrow> nat \<times> auto_ptr" where
  "AutoDelete_swap dst a = (let tmp = dst in (ap_ptr a, a\<lparr>ap_ptr := tmp\<rparr>))"

definition AutoDelete_destroy :: "auto_ptr \<Rightarrow> 'c blocks \<Rightarrow> 'c blocks res" where
  "AutoDelete_destroy a h = free_block (ap_ptr a) h"

section \<open>The array of the output buffer\<close>







section \<open>Ownership\<close>







text \<open>A scope that ends without a swap, by an exception, releases its block too.\<close>

lemma scope_releases:
  "q \<noteq> 0 \<Longrightarrow> h q = None \<Longrightarrow> AutoFreePtr_destroy (AutoFreePtr_new q) (h(q \<mapsto> c)) = Inr h"
  "q \<noteq> 0 \<Longrightarrow> h q = None \<Longrightarrow> AutoDelete_destroy (AutoDelete_new q) (h(q \<mapsto> c)) = Inr h"
  by (auto simp: AutoFreePtr_destroy_def AutoFreePtr_new_def AutoDelete_destroy_def AutoDelete_new_def free_block_def
      intro!: ext)

section \<open>Property\<close>





end
