(* ===== verification/BaseApp.thy ===== *)
theory BaseApp
  imports Complex_Main ProgramExecutor "HOL-Library.AList"
begin

text \<open>
  The command line (src/src/BaseApp.h, src/src/BaseApp.cpp): the table of options, the handler of each
  option, and \<open>BaseApp::main\<close>. The regular expressions, number parsers and \<open>toUpper\<close> of Poco are arguments,
  bundled in the record \<open>parsers\<close>; that Poco calls the handlers of the options given in their order,
  after their validators, is written out in \<open>process_options\<close>.
\<close>

section \<open>Configuration\<close>

record app_config =
  ac_helpRequested :: bool
  ac_args :: "string list"
  ac_workDir :: string
  ac_environ :: environ_map
  ac_noExit :: bool
  ac_watchGenerated :: bool
  ac_serverHost :: string
  ac_serverPort :: "16 word"
  ac_bufferSize :: nat
  ac_callbackAPI :: string
  ac_callbackToken :: string
  ac_outputFile :: string
  ac_statusFile :: string
  ac_runAfter :: string

definition DEFAULT_BUFFER_SIZE :: nat where
  "DEFAULT_BUFFER_SIZE = 4 * 1024 * 1024"

definition BaseApp_new :: app_config where
  "BaseApp_new = \<lparr>ac_helpRequested = False, ac_args = [], ac_workDir = [], ac_environ = [], ac_noExit = False,
     ac_watchGenerated = False, ac_serverHost = [], ac_serverPort = 0, ac_bufferSize = DEFAULT_BUFFER_SIZE,
     ac_callbackAPI = [], ac_callbackToken = [], ac_outputFile = [], ac_statusFile = [], ac_runAfter = []\<rparr>"

section \<open>The options\<close>

datatype validator = NoValidator | RegExpValidator string | IntValidator int int

datatype option_handler =
    HandleHelp | HandleSetWorkDir | HandleSetEnviron | HandleSetNoExit | HandleSetWatchGenerated
  | HandleSetServerHost | HandleSetServerPort | HandleSetBufferSize | HandleSetCallbackAPI
  | HandleSetCallbackToken | HandleSetOutputFile | HandleSetStatusFile | HandleSetRunAfter

record app_option =
  op_fullName :: string
  op_shortName :: string
  op_description :: string
  op_argument :: string
  op_repeatable :: bool
  op_handler :: option_handler
  op_validator :: validator

definition app_opt ::
  "string \<Rightarrow> string \<Rightarrow> string \<Rightarrow> string \<Rightarrow> bool \<Rightarrow> option_handler \<Rightarrow> validator \<Rightarrow> app_option" where
  "app_opt fullName shortName description argument repeatable handler valid =
     \<lparr>op_fullName = fullName, op_shortName = shortName, op_description = description,
      op_argument = argument, op_repeatable = repeatable, op_handler = handler, op_validator = valid\<rparr>"

definition BUFFER_SIZE_PATTERN :: string where
  "BUFFER_SIZE_PATTERN = (let bs = CHR 0x5C in
     ''^('' @ bs # ''d+(?:'' @ bs # ''.'' @ bs # ''d*)?)'' @ bs # ''s*([MKmk]?[Bb]?)$'')"

definition defineOptions :: "app_option list" where
  "defineOptions =
     [app_opt ''help'' ''h''
        ''Show this message and exit.''
        '''' False HandleHelp NoValidator,
      app_opt ''work-dir'' ''w''
        (''Set the program'' @ [CHR 0x27] @ ''s working directory.'')
        ''PATH'' False HandleSetWorkDir NoValidator,
      app_opt ''env'' ''e''
        ''Set environmental variable NAME=VALUE.''
        ''NAME=VALUE'' True HandleSetEnviron (RegExpValidator ''^([^=]+)=(.*)$''),
      app_opt ''no-exit'' ''''
        (''Do not exit the executor after the program has finished. '' @
         ''Wait for termination signals.'')
        '''' False HandleSetNoExit NoValidator,
      app_opt ''watch-generated'' ''''
        (''Watch generated JSON files (\"config.json\", \"config.defaults.json\", '' @
         ''\"result.json\"), and submit them via the callback API.'')
        '''' False HandleSetWatchGenerated NoValidator,
      app_opt ''server-host'' ''h''
        ''The listening host for the executor server.''
        ''HOST'' False HandleSetServerHost NoValidator,
      app_opt ''server-port'' ''p''
        ''The listening port for the executor server.''
        ''PORT'' False HandleSetServerPort (IntValidator 0 65535),
      app_opt ''buffer-size'' ''''
        ''Set the memory buffer size.''
        ''BUFFER-SIZE'' False HandleSetBufferSize (RegExpValidator BUFFER_SIZE_PATTERN),
      app_opt ''callback-api'' ''''
        ''Set the URI of the callback API.''
        ''URI'' False HandleSetCallbackAPI (RegExpValidator ''^http://.+$''),
      app_opt ''callback-token'' ''''
        ''Set the auth token of the callback API.''
        ''TOKEN'' False HandleSetCallbackToken NoValidator,
      app_opt ''output-file'' ''''
        ''Save program output to this file.''
        ''PATH'' False HandleSetOutputFile (RegExpValidator ''^.+$''),
      app_opt ''status-file'' ''''
        (''Save executor status to this file. '' @
         ''If the status file exists, the executor will exit immediately, so as to '' @
         ''avoid being executed for multiple times on a single task.'')
        ''PATH'' False HandleSetStatusFile (RegExpValidator ''^.+$''),
      app_opt ''run-after'' ''''
        (''Run shell command after the program has executed. '' @
         ''It will always run under the working directory of the executor, rather than '' @
         ''that specified by \"--work-dir\". Also, the failure of this command will not '' @
         ''affect the final status of the user program.'')
        ''COMMAND'' False HandleSetRunAfter (RegExpValidator ''^.+$'')]"

section \<open>The help text\<close>

text \<open>What \<open>displayHelp\<close> sets in a \<open>HelpFormatter\<close> of Poco, which \<open>render\<close> prints.\<close>

record help_formatter =
  hf_options :: "app_option list"
  hf_command :: string
  hf_usage :: string
  hf_header :: string
  hf_autoIndent :: bool

definition help_header :: "string \<Rightarrow> string" where
  "help_header commandName = concat
     [''ML GridEngine user program executor.'', endl, endl,
      ''The program arguments should be specified at the end, after a \"--\" mark,'', endl,
      ''for example:'', endl, endl,
      ''  '' @ commandName @ '' -- python -u train.py'', endl, endl,
      ''Options:'']"

definition displayHelp :: "(help_formatter \<Rightarrow> string) \<Rightarrow> string \<Rightarrow> string \<Rightarrow> string" where
  "displayHelp render commandName out = out @ render
     \<lparr>hf_options = defineOptions, hf_command = commandName, hf_usage = ''[OPTIONS] [--] ARGS...'',
      hf_header = help_header commandName, hf_autoIndent = True\<rparr>"

section \<open>The handlers\<close>

text \<open>\<open>handleHelp\<close> prints the help, and stops the processing of options (\<open>process_options\<close>).\<close>

definition handleHelp ::
  "(help_formatter \<Rightarrow> string) \<Rightarrow> string \<Rightarrow> app_config \<times> string \<Rightarrow> app_config \<times> string" where
  "handleHelp render commandName co =
     ((fst co)\<lparr>ac_helpRequested := True\<rparr>, displayHelp render commandName (snd co))"

text \<open>
  \<open>ps_match\<close> gives the two groups of the buffer size pattern; a \<open>double\<close> is the rational number it is.
\<close>

record parsers =
  ps_accepts :: "validator \<Rightarrow> string \<Rightarrow> bool"
  ps_match :: "string \<Rightarrow> (string \<times> string) res"
  ps_toUpper :: "string \<Rightarrow> string"
  ps_parseFloat :: "string \<Rightarrow> rat res"
  ps_parse :: "string \<Rightarrow> int res"

text \<open>\<open>value.find('=')\<close> as a \<open>ssize_t\<close>: \<open>npos\<close> is -1.\<close>

fun find_eq :: "string \<Rightarrow> int \<Rightarrow> int" where
  "find_eq [] n = - 1"
| "find_eq (c # cs) n = (if c = CHR ''='' then n else find_eq cs (n + 1))"

definition handleSetEnviron :: "string \<Rightarrow> app_config \<Rightarrow> app_config res" where
  "handleSetEnviron val c =
     (let pos = find_eq val 0 in
      if \<not> pos \<ge> 1 then Inl AssertFailed
      else
        (let eName = take (nat pos) val; eValue = drop (nat pos + 1) val
         in Inr (c\<lparr>ac_environ := AList.update eName eValue (ac_environ c)\<rparr>)))"

text \<open>The conversion of a \<open>double\<close> to \<open>size_t\<close> truncates; it is undefined out of range.\<close>

definition double_to_size :: "rat \<Rightarrow> nat res" where
  "double_to_size x = (if - 1 < x \<and> x < 2 ^ 64 then Inr (nat (if x < 0 then 0 else \<lfloor>x\<rfloor>)) else Inl OutOfBounds)"

definition handleSetBufferSize :: "parsers \<Rightarrow> string \<Rightarrow> app_config \<Rightarrow> app_config res" where
  "handleSetBufferSize ps val c =
     rbind (ps_match ps val) (\<lambda>(sValue, unit).
       (let sUnit = ps_toUpper ps unit in
        rbind (ps_parseFloat ps sValue) (\<lambda>bufferSize.
          rbind (double_to_size
                  (if sUnit = ''M'' \<or> sUnit = ''MB'' then bufferSize * (1024 * 1024)
                   else if sUnit = ''K'' \<or> sUnit = ''KB'' then bufferSize * 1024
                   else bufferSize))
            (\<lambda>n. Inr (c\<lparr>ac_bufferSize := n\<rparr>)))))"

fun handle_option :: "parsers \<Rightarrow> option_handler \<Rightarrow> string \<Rightarrow> app_config \<Rightarrow> app_config res" where
  "handle_option ps HandleHelp val c = Inr (c\<lparr>ac_helpRequested := True\<rparr>)"
| "handle_option ps HandleSetWorkDir val c = Inr (c\<lparr>ac_workDir := val\<rparr>)"
| "handle_option ps HandleSetEnviron val c = handleSetEnviron val c"
| "handle_option ps HandleSetNoExit val c = Inr (c\<lparr>ac_noExit := True\<rparr>)"
| "handle_option ps HandleSetWatchGenerated val c = Inr (c\<lparr>ac_watchGenerated := True\<rparr>)"
| "handle_option ps HandleSetServerHost val c = Inr (c\<lparr>ac_serverHost := val\<rparr>)"
| "handle_option ps HandleSetServerPort val c =
     rbind (ps_parse ps val) (\<lambda>n. Inr (c\<lparr>ac_serverPort := word_of_int n\<rparr>))"
| "handle_option ps HandleSetBufferSize val c = handleSetBufferSize ps val c"
| "handle_option ps HandleSetCallbackAPI val c = Inr (c\<lparr>ac_callbackAPI := val\<rparr>)"
| "handle_option ps HandleSetCallbackToken val c = Inr (c\<lparr>ac_callbackToken := val\<rparr>)"
| "handle_option ps HandleSetOutputFile val c = Inr (c\<lparr>ac_outputFile := val\<rparr>)"
| "handle_option ps HandleSetStatusFile val c = Inr (c\<lparr>ac_statusFile := val\<rparr>)"
| "handle_option ps HandleSetRunAfter val c = Inr (c\<lparr>ac_runAfter := val\<rparr>)"

text \<open>The options in the order of the command line; after \<open>--help\<close> no other is looked at.\<close>

fun process_options :: "parsers \<Rightarrow> (app_option \<times> string) list \<Rightarrow> app_config \<Rightarrow> app_config res" where
  "process_options ps [] c = Inr c"
| "process_options ps ((opt, val) # opts) c =
     (if \<not> ps_accepts ps (op_validator opt) val then Inl (InvalidArgument val)
      else rbind (handle_option ps (op_handler opt) val c) (\<lambda>c'.
        if op_handler opt = HandleHelp then Inr c' else process_options ps opts c'))"

section \<open>Running\<close>

definition EXIT_OK :: int where "EXIT_OK = 0"
definition EXIT_SOFTWARE :: int where "EXIT_SOFTWARE = 70"
definition EXIT_CONFIG :: int where "EXIT_CONFIG = 78"

text \<open>
  \<open>absolute\<close> makes a path absolute, \<open>cwd\<close> is the current directory. \<open>runApp\<close> is the method of the
  subclass, with its state \<open>'w\<close>. The result is the exit code.
\<close>

definition BaseApp_main ::
  "(string \<Rightarrow> string) \<Rightarrow> string \<Rightarrow> (app_config \<Rightarrow> 'w \<Rightarrow> int res \<times> 'w) \<Rightarrow> string list \<Rightarrow> app_config \<Rightarrow> 'w \<Rightarrow>
   int \<times> 'w" where
  "BaseApp_main absolute cwd runApp args c w =
     (if ac_helpRequested c then (EXIT_OK, w)
      else if args = [] then (1, w)
      else
        (let c' = c\<lparr>ac_args := args,
                    ac_workDir := (if ac_workDir c = [] then absolute cwd else absolute (ac_workDir c))\<rparr>
         in case runApp c' w of
              (Inr _, w') \<Rightarrow> (EXIT_OK, w')
            | (Inl e, w') \<Rightarrow> (EXIT_SOFTWARE, w')))"

text \<open>
  The function \<open>main\<close> of src/src/main.cpp: \<open>init\<close> processes the options and throws on a bad one. Only the
  exceptions of Poco are caught; a fault, that is the failed assertion of \<open>handleSetEnviron\<close> (where assertions are
  compiled in) or an undefined conversion, is no exit code, but the value \<open>Inl\<close>.
\<close>

definition is_fault :: "err \<Rightarrow> bool" where
  "is_fault e \<longleftrightarrow> e \<in> {OutOfBounds, DivByZero, NullPointer, AssertFailed}"

definition main_program ::
  "parsers \<Rightarrow> (string \<Rightarrow> string) \<Rightarrow> string \<Rightarrow> (app_config \<Rightarrow> 'w \<Rightarrow> int res \<times> 'w) \<Rightarrow> (app_option \<times> string) list \<Rightarrow>
   string list \<Rightarrow> 'w \<Rightarrow> int res \<times> 'w" where
  "main_program ps absolute cwd runApp opts args w =
     (case process_options ps opts BaseApp_new of
        Inl e \<Rightarrow> (if is_fault e then Inl e else Inr EXIT_CONFIG, w)
      | Inr c \<Rightarrow> (case BaseApp_main absolute cwd runApp args c w of (code, w') \<Rightarrow> (Inr code, w')))"

section \<open>Lemmas\<close>

lemma find_eq_append: "CHR ''='' \<notin> set n \<Longrightarrow> find_eq (n @ CHR ''='' # v) k = k + int (length n)"
  by (induction n arbitrary: k) auto

lemma handleSetEnviron_ok:
  assumes "n \<noteq> []" "CHR ''='' \<notin> set n"
  shows "handleSetEnviron (n @ CHR ''='' # v) c = Inr (c\<lparr>ac_environ := AList.update n v (ac_environ c)\<rparr>)"
proof -
  have "find_eq (n @ CHR ''='' # v) 0 = int (length n)" using find_eq_append [OF assms(2)] by simp
  moreover have "1 \<le> length n" using assms(1) by (cases n) simp_all
  ultimately show ?thesis by (simp add: handleSetEnviron_def Let_def)
qed

lemma double_to_size_nat: "k < 2 ^ 64 \<Longrightarrow> double_to_size (of_nat k) = Inr k"
proof -
  assume "k < 2 ^ 64"
  then have "(of_nat k :: rat) < of_nat (2 ^ 64)" by (simp only: of_nat_less_iff)
  moreover have "(- 1 :: rat) < of_nat k" by (rule less_le_trans [of _ 0]) simp_all
  ultimately show ?thesis by (simp add: double_to_size_def)
qed

lemma handleSetBufferSize_ok:
  assumes "ps_match ps val = Inr (v, unit)" "ps_parseFloat ps v = Inr (of_nat n)"
    and "f = (if ps_toUpper ps unit \<in> {''M'', ''MB''} then 1024 * 1024
      else if ps_toUpper ps unit \<in> {''K'', ''KB''} then 1024 else 1)" "n * f < 2 ^ 64"
  shows "handleSetBufferSize ps val c = Inr (c\<lparr>ac_bufferSize := n * f\<rparr>)"
proof -
  have "double_to_size (of_nat n * of_nat f) = Inr (n * f)"
    using double_to_size_nat [OF assms(4)] by simp
  then show ?thesis using assms(1-3) by (auto simp: handleSetBufferSize_def Let_def)
qed

section \<open>Well-formed configurations\<close>

text \<open>
  The variables form a map from proper names, and the buffer size is a \<open>size_t\<close>.
\<close>

definition env_name :: "string \<Rightarrow> bool" where
  "env_name n \<longleftrightarrow> n \<noteq> [] \<and> CHR ''='' \<notin> set n"

definition wf_config :: "app_config \<Rightarrow> bool" where
  "wf_config c \<longleftrightarrow> distinct (map fst (ac_environ c)) \<and> (\<forall>(n, v) \<in> set (ac_environ c). env_name n) \<and>
     ac_bufferSize c < 2 ^ 64"

lemma wf_config_new: "wf_config BaseApp_new"
  by (simp add: wf_config_def BaseApp_new_def DEFAULT_BUFFER_SIZE_def)

lemma find_eq_prefix: "find_eq s k = k + int j \<Longrightarrow> CHR ''='' \<notin> set (take j s)"
proof (induction s arbitrary: k j)
  case (Cons x s)
  then show ?case
  proof (cases "x = CHR ''=''")
    case False
    have "find_eq s (k + 1) = k + int j" using Cons.prems False by simp
    then show ?thesis using Cons.IH [of "k + 1" "j - 1"] False by (cases j) simp_all
  qed simp
qed simp

lemma handleSetEnviron_wf:
  assumes "handleSetEnviron val c = Inr c'" "wf_config c"
  shows "wf_config c'"
proof -
  define pos where "pos = find_eq val 0"
  have pos: "1 \<le> pos" and c': "c' = c\<lparr>ac_environ := AList.update (take (nat pos) val) (drop (nat pos + 1) val) (ac_environ c)\<rparr>"
    using assms(1) by (auto simp: handleSetEnviron_def Let_def pos_def split: if_splits)
  have "CHR ''='' \<notin> set (take (nat pos) val)" using find_eq_prefix [of val 0 "nat pos"] pos by (simp add: pos_def)
  moreover have "val \<noteq> []" using pos by (auto simp: pos_def)
  ultimately have "env_name (take (nat pos) val)" using pos by (simp add: env_name_def)
  moreover have "fst ` set (AList.update n v al) = insert n (fst ` set al)" for n v and al :: environ_map
    by (simp add: AList.dom_update)
  then have "n \<in> fst ` set (ac_environ c') \<Longrightarrow> n = take (nat pos) val \<or> n \<in> fst ` set (ac_environ c)" for n
    by (simp add: c')
  ultimately have "\<forall>n \<in> fst ` set (ac_environ c'). env_name n" using assms(2) by (fastforce simp: wf_config_def)
  moreover have "distinct (map fst (ac_environ c'))" "ac_bufferSize c' < 2 ^ 64"
    using assms(2) by (simp_all add: c' wf_config_def distinct_update)
  ultimately show ?thesis by (auto simp: wf_config_def)
qed

lemma double_to_size_lt: "double_to_size x = Inr n \<Longrightarrow> n < 2 ^ 64"
proof -
  assume x: "double_to_size x = Inr n"
  then have lt: "x < 2 ^ 64" and n: "n = nat (if x < 0 then 0 else \<lfloor>x\<rfloor>)"
    by (auto simp: double_to_size_def split: if_splits)
  have "\<lfloor>x\<rfloor> < 2 ^ 64" using lt by (simp add: floor_less_iff)
  then show "n < 2 ^ 64" using n by (simp add: nat_less_iff)
qed

lemma handle_option_wf:
  assumes "handle_option ps h val c = Inr c'" "wf_config c"
  shows "wf_config c'"
proof (cases h)
  case HandleSetEnviron
  then show ?thesis using handleSetEnviron_wf assms by simp
next
  case HandleSetBufferSize
  then obtain n where "c' = c\<lparr>ac_bufferSize := n\<rparr>" "n < 2 ^ 64"
    using assms(1) by (auto simp: handleSetBufferSize_def Let_def rbind_eq_Inr dest: double_to_size_lt)
  then show ?thesis using assms(2) by (simp add: wf_config_def)
qed (use assms in \<open>auto simp: wf_config_def rbind_eq_Inr\<close>)

lemma wf_config_help [simp]: "wf_config (c\<lparr>ac_helpRequested := b\<rparr>) = wf_config c"
  by (simp add: wf_config_def)

lemma process_options_wf: "process_options ps opts c = Inr c' \<Longrightarrow> wf_config c \<Longrightarrow> wf_config c'"
  by (induction ps opts c rule: process_options.induct)
    (auto simp: rbind_eq_Inr split: if_splits dest: handle_option_wf)

section \<open>Properties\<close>

text \<open>The faults of the options, and whether the help was asked for.\<close>

lemma handle_option_fault:
  "handle_option ps h val c = Inl e \<Longrightarrow> is_fault e \<Longrightarrow>
   h = HandleSetEnviron \<and> e = AssertFailed \<and> find_eq val 0 < 1 \<or> h \<in> {HandleSetServerPort, HandleSetBufferSize}"
  by (cases h) (auto simp: handleSetEnviron_def Let_def split: if_splits)

lemma process_options_fault:
  "process_options ps opts c = Inl e \<Longrightarrow> is_fault e \<Longrightarrow>
   \<exists>(opt, val) \<in> set opts. ps_accepts ps (op_validator opt) val \<and>
     (op_handler opt = HandleSetEnviron \<and> e = AssertFailed \<and> find_eq val 0 < 1 \<or>
      op_handler opt \<in> {HandleSetServerPort, HandleSetBufferSize})"
proof (induction ps opts c rule: process_options.induct)
  case (2 ps opt val opts c)
  have ok: "ps_accepts ps (op_validator opt) val"
    using "2.prems" by (auto simp: is_fault_def split: if_splits)
  show ?case
  proof (cases "handle_option ps (op_handler opt) val c")
    case (Inl e')
    then have "e' = e" using "2.prems" ok by simp
    then show ?thesis using handle_option_fault [OF Inl] "2.prems"(2) ok by auto
  next
    case (Inr c')
    then have "op_handler opt \<noteq> HandleHelp" "process_options ps opts c' = Inl e"
      using "2.prems" ok by (auto split: if_splits)
    then show ?thesis using "2.IH" [of c'] "2.prems"(2) ok Inr by auto
  qed
qed simp

lemma handle_option_help:
  "handle_option ps h val c = Inr c' \<Longrightarrow> ac_helpRequested c' = (ac_helpRequested c \<or> h = HandleHelp) \<and> ac_args c' = ac_args c"
  by (cases h) (auto simp: handleSetEnviron_def handleSetBufferSize_def rbind_eq_Inr Let_def split: if_splits)

lemma process_options_help:
  "process_options ps opts c = Inr c' \<Longrightarrow>
   ac_helpRequested c' \<longleftrightarrow> ac_helpRequested c \<or> (\<exists>(opt, val) \<in> set opts. op_handler opt = HandleHelp)"
  by (induction ps opts c rule: process_options.induct)
    (auto simp: rbind_eq_Inr dest: handle_option_help split: if_splits)

text \<open>C30: What becomes of a command line. When an option is bad \<open>main\<close> ends with EXIT_CONFIG and nothing has run, unless the
  failure is a fault: a variable without a name that its validator has let through (an assertion), or a number out of
  range. Otherwise the configuration is well-formed (every variable has one value and a name that is
  not empty and has no equals sign, the buffer size is a \<open>size_t\<close>), and \<open>main\<close> ends with 0 if help was asked for,
  else with 1 if there are no arguments, else it runs \<open>runApp\<close> once, on that configuration with the arguments and an
  absolute working directory, from which the executor can be constructed: with 70 if it throws, and with 0 if it does not.\<close>

theorem runs_well_formed:
  "case process_options ps opts BaseApp_new of
     Inl e \<Rightarrow> main_program ps absolute cwd runApp opts args w = (if is_fault e then Inl e else Inr 78, w) \<and>
       (is_fault e \<longrightarrow> (\<exists>(opt, val) \<in> set opts. ps_accepts ps (op_validator opt) val \<and>
          (op_handler opt = HandleSetEnviron \<and> e = AssertFailed \<and> find_eq val 0 < 1 \<or>
           op_handler opt \<in> {HandleSetServerPort, HandleSetBufferSize})))
   | Inr c \<Rightarrow> wf_config c \<and>
       (if \<exists>(opt, val) \<in> set opts. op_handler opt = HandleHelp
        then main_program ps absolute cwd runApp opts args w = (Inr 0, w)
        else if args = [] then main_program ps absolute cwd runApp opts args w = (Inr 1, w)
        else (let c' = c\<lparr>ac_args := args, ac_workDir := absolute (if ac_workDir c = [] then cwd else ac_workDir c)\<rparr> in
          wf_config c' \<and>
          (\<exists>ex. ProgramExecutor_new (ac_args c') (ac_environ c') (ac_workDir c') True ''Program'' = Inr ex) \<and>
          main_program ps absolute cwd runApp opts args w =
            (Inr (if isl (fst (runApp c' w)) then 70 else 0), snd (runApp c' w))))"
proof (cases "process_options ps opts BaseApp_new")
  case (Inl e)
  then show ?thesis using process_options_fault [OF Inl] by (simp add: main_program_def EXIT_CONFIG_def)
next
  case (Inr c)
  have wf: "wf_config c" by (rule process_options_wf [OF Inr wf_config_new])
  have asked: "ac_helpRequested c \<longleftrightarrow> (\<exists>(opt, val) \<in> set opts. op_handler opt = HandleHelp)"
    using process_options_help [OF Inr] by (simp add: BaseApp_new_def)
  have "main_program ps absolute cwd runApp opts args w = (Inr 0, w)" if "ac_helpRequested c"
    using that Inr by (simp add: main_program_def BaseApp_main_def EXIT_OK_def)
  moreover have "main_program ps absolute cwd runApp opts args w = (Inr 1, w)" if "\<not> ac_helpRequested c" "args = []"
    using that Inr by (simp add: main_program_def BaseApp_main_def)
  moreover have "main_program ps absolute cwd runApp opts args w =
      (Inr (if isl (fst (runApp c' w)) then 70 else 0), snd (runApp c' w))"
    if "\<not> ac_helpRequested c" "args \<noteq> []"
      and "c' = c\<lparr>ac_args := args, ac_workDir := absolute (if ac_workDir c = [] then cwd else ac_workDir c)\<rparr>" for c'
    using that(1,2) Inr unfolding that(3)
    by (simp add: main_program_def BaseApp_main_def EXIT_OK_def EXIT_SOFTWARE_def Let_def split: prod.split sum.split)
  moreover have "wf_config (c\<lparr>ac_args := args, ac_workDir := d\<rparr>)" for d using wf by (simp add: wf_config_def)
  ultimately show ?thesis using wf Inr unfolding asked [symmetric]
    by (simp add: Let_def ProgramExecutor_new_def)
qed

definition lax_parsers :: parsers where
  "lax_parsers = \<lparr>ps_accepts = (\<lambda>_ _. True), ps_match = (\<lambda>_. Inl OutOfBounds), ps_toUpper = (\<lambda>u. u),
     ps_parseFloat = (\<lambda>_. Inl OutOfBounds), ps_parse = (\<lambda>_. Inl OutOfBounds)\<rparr>"

lemma runs_well_formed_witness:
  "main_program lax_parsers (\<lambda>d. d) ''/'' (\<lambda>c w. (Inr 0, Suc w)) [(defineOptions ! 2, ''=x'')] [''true''] 0 =
     (Inl AssertFailed, 0) \<and>
   main_program lax_parsers (\<lambda>d. d) ''/'' (\<lambda>c w. (Inr 0, Suc w)) [(defineOptions ! 2, ''A=x'')] [''true''] 0 = (Inr 0, 1)"
  using runs_well_formed [of lax_parsers "\<lambda>d. d" "''/''" "\<lambda>c w. (Inr 0, Suc w)" "[(defineOptions ! 2, ''=x'')]" "[''true'']" 0]
    runs_well_formed [of lax_parsers "\<lambda>d. d" "''/''" "\<lambda>c w. (Inr 0, Suc w)" "[(defineOptions ! 2, ''A=x'')]" "[''true'']" 0]
  by (simp add: lax_parsers_def defineOptions_def app_opt_def handleSetEnviron_def is_fault_def Let_def)

text \<open>C32: A list of \<open>--env NAME=VALUE\<close> options sets exactly those variables: a name ends at the first
  equals sign, the value may hold more of them, a later option for the same name replaces the
  earlier one, and all other settings stay as they were.\<close>

theorem environ_options:
  assumes "\<forall>(n, v) \<in> set env. n \<noteq> [] \<and> CHR ''='' \<notin> set n \<and>
      ps_accepts ps (op_validator opt) (n @ CHR ''='' # v)"
    and "op_handler opt = HandleSetEnviron"
  shows "\<exists>m. process_options ps (map (\<lambda>(n, v). (opt, n @ CHR ''='' # v)) env) c = Inr (c\<lparr>ac_environ := m\<rparr>) \<and>
    map_of m = fold (\<lambda>(n, v) e. e(n \<mapsto> v)) env (map_of (ac_environ c))"
  using assms(1)
proof (induction env arbitrary: c)
  case (Cons e env)
  obtain n v where e: "e = (n, v)" by (cases e)
  let ?c = "c\<lparr>ac_environ := AList.update n v (ac_environ c)\<rparr>"
  have env: "map_of (ac_environ ?c) = (map_of (ac_environ c))(n \<mapsto> v)" by (simp add: update_conv')
  have "\<forall>(n, v) \<in> set env. n \<noteq> [] \<and> CHR ''='' \<notin> set n \<and> ps_accepts ps (op_validator opt) (n @ CHR ''='' # v)"
    using Cons.prems by simp
  then obtain m where "process_options ps (map (\<lambda>(n, v). (opt, n @ CHR ''='' # v)) env) ?c = Inr (?c\<lparr>ac_environ := m\<rparr>)"
    "map_of m = fold (\<lambda>(n, v) e. e(n \<mapsto> v)) env ((map_of (ac_environ c))(n \<mapsto> v))"
    using Cons.IH [of ?c] unfolding env by blast
  then show ?case using Cons.prems assms(2)
    by (intro exI [of _ m]) (simp add: e handleSetEnviron_ok fun_upd_def)
next
  case Nil
  then show ?case by (intro exI [of _ "ac_environ c"]) simp
qed

lemma environ_options_witness:
  "\<exists>m. process_options \<lparr>ps_accepts = (\<lambda>_ _. True), ps_match = (\<lambda>_. Inl OutOfBounds), ps_toUpper = (\<lambda>u. u),
      ps_parseFloat = (\<lambda>_. Inl OutOfBounds), ps_parse = (\<lambda>_. Inl OutOfBounds)\<rparr>
      [(defineOptions ! 2, ''A=b=c'')] BaseApp_new = Inr (BaseApp_new\<lparr>ac_environ := m\<rparr>) \<and>
    map_of m ''A'' = Some ''b=c''"
  using environ_options [of "[(''A'', ''b=c'')]" "\<lparr>ps_accepts = (\<lambda>_ _. True), ps_match = (\<lambda>_. Inl OutOfBounds),
      ps_toUpper = (\<lambda>u. u), ps_parseFloat = (\<lambda>_. Inl OutOfBounds), ps_parse = (\<lambda>_. Inl OutOfBounds)\<rparr>"
      "defineOptions ! 2" BaseApp_new]
  by (auto simp: defineOptions_def app_opt_def)

end
