(* ===== verification/MainApp.thy ===== *)
theory MainApp
  imports BaseApp Utils PersistCallback
begin

text \<open>
  The main program (src/src/main.cpp): \<open>MainApp::runApp\<close> drives the other components. What it does is the
  trace of the calls it makes, in order, with the scopes and destructors of C++ written out: any call
  may throw (\<open>ae_throws\<close>), and then the objects constructed so far are destroyed in reverse order. What
  the calls return is the record \<open>app_env\<close>; for each point of the trace \<open>ae_interrupted\<close> tells whether a
  termination signal has arrived, and \<open>ae_end\<close> what is read of the end of the program; \<open>ae_readEnds\<close> tells whether
  a \<open>read\<close> of the output pipe comes back for good, by whether the child has ended and whether the pipe has been closed. The contents of the calls are
  modelled by the other theories; the theory \<open>RunSystem\<close> carries a trace out on their states.
\<close>

section \<open>Calls and their environment\<close>

datatype handler = KillOnSignal | StopDirSize | InterruptManager | LogSignal

datatype app_event =
    EvHostName
  | EvCreateDirectories string
  | EvNewManager
  | EvNewExecutor "string list" environ_map string
  | EvNewBuffer nat
  | EvNewController
  | EvBind string "16 word"
  | EvServerStart
  | EvWatcherStart
  | EvExecutorStart
  | EvIOStart
  | EvProgramStarted string int
  | EvPushHandler handler
  | EvPopHandler
  | EvWaitProgram
  | EvKill
  | EvWatcherStop
  | EvCollectAll
  | EvDestroyWatcher
  | EvIOJoin
  | EvCloseBuffer
  | EvSaveOutput string
  | EvDirSize
  | EvProgramFinished int
  | EvNewRunAfter "string list" environ_map
  | EvRunAfterStart
  | EvRunAfterWait int
  | EvRunAfterKill
  | EvDestroyRunAfter
  | EvManagerInterrupt
  | EvManagerWait
  | EvWaitSignal
  | EvServerStop
  | EvDestroyServer
  | EvDestroyController
  | EvDestroyBuffer
  | EvDestroyExecutor
  | EvDestroyManager

record app_env =
  ae_shell :: "string option"
  ae_exists :: "string \<Rightarrow> bool"
  ae_parent :: "string \<Rightarrow> string option"
  ae_hostName :: string
  ae_port :: int
  ae_throws :: "app_event \<Rightarrow> err option"
  ae_end :: "app_event list \<Rightarrow> end_view"
  ae_dirSize :: nat
  ae_dirInterrupted :: bool
  ae_interrupted :: "app_event list \<Rightarrow> bool"
  ae_runAfterFinishes :: bool
  ae_dec :: "int \<Rightarrow> string"
  ae_readEnds :: "bool \<Rightarrow> bool \<Rightarrow> bool"

section \<open>Actions\<close>

type_synonym 'a action = "app_event list \<Rightarrow> 'a res \<times> app_event list"

definition ret :: "'a \<Rightarrow> 'a action" where
  "ret x t = (Inr x, t)"

definition throw :: "err \<Rightarrow> 'a action" where
  "throw e t = (Inl e, t)"

definition bind_action :: "'a action \<Rightarrow> ('a \<Rightarrow> 'b action) \<Rightarrow> 'b action" where
  "bind_action m f t = (case m t of (Inl e, t') \<Rightarrow> (Inl e, t') | (Inr x, t') \<Rightarrow> f x t')"

definition act :: "app_env \<Rightarrow> app_event \<Rightarrow> unit action" where
  "act env ev t = (case ae_throws env ev of Some e \<Rightarrow> (Inl e, t @ [ev]) | None \<Rightarrow> (Inr (), t @ [ev]))"

fun acts :: "app_env \<Rightarrow> app_event list \<Rightarrow> unit action" where
  "acts env [] = ret ()"
| "acts env (ev # evs) = bind_action (act env ev) (\<lambda>_. acts env evs)"

fun steps :: "unit action list \<Rightarrow> unit action" where
  "steps [] = ret ()"
| "steps (m # ms) = bind_action m (\<lambda>_. steps ms)"

definition on_cond :: "bool \<Rightarrow> unit action \<Rightarrow> unit action" where
  "on_cond b m = (if b then m else ret ())"

text \<open>A body whose end, normal or by an exception, is followed by a destructor.\<close>

definition finally_do :: "'a action \<Rightarrow> app_event \<Rightarrow> 'a action" where
  "finally_do m d t = (case m t of (r, t') \<Rightarrow> (r, t' @ [d]))"

definition scoped :: "app_env \<Rightarrow> app_event \<Rightarrow> app_event \<Rightarrow> 'a action \<Rightarrow> 'a action" where
  "scoped env ctor dtor m = bind_action (act env ctor) (\<lambda>_. finally_do m dtor)"

definition poco_exception :: "err \<Rightarrow> bool" where
  "poco_exception e =
     (case e of IllegalState _ \<Rightarrow> True | InvalidArgument _ \<Rightarrow> True | SystemError _ \<Rightarrow> True
      | HttpException _ \<Rightarrow> True | _ \<Rightarrow> False)"

definition catch_poco :: "unit action \<Rightarrow> unit action" where
  "catch_poco m t =
     (case m t of
        (Inl e, t') \<Rightarrow> (if poco_exception e then Inr () else Inl e, t')
      | (Inr x, t') \<Rightarrow> (Inr x, t'))"

section \<open>The parts of runApp\<close>

definition manager_enabled :: "app_config \<Rightarrow> bool" where
  "manager_enabled c \<longleftrightarrow> ac_statusFile c \<noteq> [] \<or> ac_callbackAPI c \<noteq> []"

definition make_parents :: "app_env \<Rightarrow> string \<Rightarrow> unit action" where
  "make_parents env path =
     (case makeParents (ae_parent env) (ae_exists env) path of
        None \<Rightarrow> ret ()
      | Some d \<Rightarrow> act env (EvCreateDirectories d))"

definition prepare_dirs :: "app_env \<Rightarrow> app_config \<Rightarrow> unit action" where
  "prepare_dirs env c = steps
     [on_cond (\<not> ae_exists env (ac_workDir c)) (act env (EvCreateDirectories (ac_workDir c))),
      on_cond (ac_outputFile c \<noteq> []) (make_parents env (ac_outputFile c)),
      on_cond (ac_statusFile c \<noteq> []) (make_parents env (ac_statusFile c))]"

definition run_program :: "app_env \<Rightarrow> app_config \<Rightarrow> unit action" where
  "run_program env c = finally_do (steps
     [acts env [EvExecutorStart, EvIOStart],
      on_cond (manager_enabled c) (act env (EvProgramStarted (ae_hostName env) (ae_port env))),
      scoped env (EvPushHandler KillOnSignal) EvPopHandler (act env EvWaitProgram)]) EvKill"

definition run_watched :: "app_env \<Rightarrow> app_config \<Rightarrow> unit action" where
  "run_watched env c =
     (if ac_watchGenerated c \<and> manager_enabled c
      then finally_do (steps [act env EvWatcherStart, run_program env c, acts env [EvWatcherStop, EvCollectAll]])
             EvDestroyWatcher
      else run_program env c)"

definition finish_io :: "app_env \<Rightarrow> app_config \<Rightarrow> unit action" where
  "finish_io env c = steps
     [acts env [EvIOJoin, EvCloseBuffer],
      on_cond (ac_outputFile c \<noteq> []) (catch_poco (act env (EvSaveOutput (ac_outputFile c))))]"

definition work_dir_size :: "app_env \<Rightarrow> int" where
  "work_dir_size env = (if \<not> ae_dirInterrupted env then to_ssize (ae_dirSize env) else - 1)"

definition report_end :: "app_env \<Rightarrow> app_config \<Rightarrow> unit action" where
  "report_end env c = steps
     [scoped env (EvPushHandler StopDirSize) EvPopHandler (act env EvDirSize),
      on_cond (manager_enabled c)
        (act env (EvProgramFinished (work_dir_size env)))]"

definition ENV_PREFIX :: string where
  "ENV_PREFIX = ''ML_GRIDENGINE_''"

definition run_after_environ :: "(int \<Rightarrow> string) \<Rightarrow> app_config \<Rightarrow> end_view \<Rightarrow> environ_map" where
  "run_after_environ dec c v =
     (let put = (\<lambda>k. AList.update (ENV_PREFIX @ k));
          env = put ''PROGRAM_WORK_DIR'' (ac_workDir c) (ac_environ c)
      in case fst v of
           EXITED \<Rightarrow> put ''PROGRAM_EXIT_CODE'' (dec (exitCode (snd v))) (put ''PROGRAM_EXIT_STATUS'' ''EXITED'' env)
         | SIGNALLED \<Rightarrow> put ''PROGRAM_EXIT_SIGNAL'' (dec (exitSignal (snd v))) (put ''PROGRAM_EXIT_STATUS'' ''SIGNALLED'' env)
         | CANNOT_KILL \<Rightarrow> put ''PROGRAM_EXIT_STATUS'' ''CANNOT_KILL'' env
         | _ \<Rightarrow> env)"

definition RUN_AFTER_TIMEOUT_SECONDS :: int where
  "RUN_AFTER_TIMEOUT_SECONDS = 30"

text \<open>The main thread reads the executor, which other threads change, when it prepares the command.\<close>

definition with_end :: "app_env \<Rightarrow> (end_view \<Rightarrow> unit action) \<Rightarrow> unit action" where
  "with_end env f t = f (ae_end env t) t"

definition run_after :: "app_env \<Rightarrow> app_config \<Rightarrow> string \<Rightarrow> unit action" where
  "run_after env c shell = with_end env (\<lambda>v.
     scoped env (EvNewRunAfter [shell, ''-c'', ac_runAfter c] (run_after_environ (ae_dec env) c v))
       EvDestroyRunAfter (steps
         [acts env [EvRunAfterStart, EvRunAfterWait (RUN_AFTER_TIMEOUT_SECONDS * 1000)],
          on_cond (\<not> ae_runAfterFinishes env) (act env EvRunAfterKill)]))"

definition if_interrupted :: "app_env \<Rightarrow> (bool \<Rightarrow> unit action) \<Rightarrow> unit action" where
  "if_interrupted env f t = f (ae_interrupted env t) t"

definition wait_manager :: "app_env \<Rightarrow> unit action" where
  "wait_manager env = steps
     [if_interrupted env (\<lambda>i. on_cond i (act env EvManagerInterrupt)),
      scoped env (EvPushHandler InterruptManager) EvPopHandler (act env EvManagerWait)]"

definition wait_exit :: "app_env \<Rightarrow> app_config \<Rightarrow> unit action" where
  "wait_exit env c = if_interrupted env (\<lambda>i. on_cond (ac_noExit c \<and> \<not> i)
     (scoped env (EvPushHandler LogSignal) EvPopHandler (act env EvWaitSignal)))"

definition run_body :: "app_env \<Rightarrow> app_config \<Rightarrow> string \<Rightarrow> unit action" where
  "run_body env c shell = steps
     [act env EvServerStart, run_watched env c, finish_io env c, report_end env c,
      on_cond (ac_runAfter c \<noteq> []) (run_after env c shell),
      on_cond (manager_enabled c) (wait_manager env),
      wait_exit env c, act env EvServerStop]"

definition run_objects :: "app_env \<Rightarrow> app_config \<Rightarrow> string \<Rightarrow> unit action" where
  "run_objects env c shell =
     scoped env EvNewManager EvDestroyManager
      (scoped env (EvNewExecutor (ac_args c) (ac_environ c) (ac_workDir c)) EvDestroyExecutor
        (scoped env (EvNewBuffer (ac_bufferSize c)) EvDestroyBuffer
          (scoped env EvNewController EvDestroyController
            (scoped env (EvBind (ac_serverHost c) (ac_serverPort c)) EvDestroyServer (run_body env c shell)))))"

text \<open>A null pointer from \<open>getenv\<close> cannot be made a \<open>std::string\<close>.\<close>

definition runApp :: "app_env \<Rightarrow> app_config \<Rightarrow> int action" where
  "runApp env c =
     (case ae_shell env of
        None \<Rightarrow> throw NullPointer
      | Some shell0 \<Rightarrow>
          (let shell = (if shell0 = [] then ''sh'' else shell0) in
           if ac_statusFile c \<noteq> [] \<and> ae_exists env (ac_statusFile c) then ret EXIT_SOFTWARE
           else bind_action (steps [act env EvHostName, prepare_dirs env c, run_objects env c shell])
                  (\<lambda>_. ret EXIT_OK)))"

section \<open>The child never outlives its scope\<close>

text \<open>
  A monitor of traces: whether the program may be running, and the stack of signal handlers. It
  rejects a trace that pops from an empty stack, that waits for the program without the handler that
  kills it on a signal, or that goes on to anything after the program's scope while the program may
  be running.
\<close>

fun after_program :: "app_event \<Rightarrow> bool" where
  "after_program EvWatcherStop = True"
| "after_program EvCollectAll = True"
| "after_program EvDestroyWatcher = True"
| "after_program EvIOJoin = True"
| "after_program EvCloseBuffer = True"
| "after_program (EvSaveOutput f) = True"
| "after_program EvDirSize = True"
| "after_program (EvProgramFinished n) = True"
| "after_program (EvNewRunAfter a e) = True"
| "after_program EvServerStop = True"
| "after_program EvDestroyServer = True"
| "after_program EvDestroyController = True"
| "after_program EvDestroyBuffer = True"
| "after_program EvDestroyExecutor = True"
| "after_program EvDestroyManager = True"
| "after_program ev = False"

fun monitor_step :: "app_event \<Rightarrow> bool \<times> handler list \<Rightarrow> (bool \<times> handler list) option" where
  "monitor_step EvExecutorStart (run, hs) = Some (True, hs)"
| "monitor_step EvKill (run, hs) = Some (False, hs)"
| "monitor_step (EvPushHandler h) (run, hs) = Some (run, h # hs)"
| "monitor_step EvWaitProgram (run, hs) = (if hs \<noteq> [] \<and> hd hs = KillOnSignal then Some (run, hs) else None)"
| "monitor_step EvPopHandler (run, hs) = (case hs of [] \<Rightarrow> None | _ # hs' \<Rightarrow> Some (run, hs'))"
| "monitor_step ev (run, hs) = (if run \<and> after_program ev then None else Some (run, hs))"

definition monitor :: "app_event list \<Rightarrow> (bool \<times> handler list) option" where
  "monitor t = fold (\<lambda>ev s. Option.bind s (monitor_step ev)) t (Some (False, []))"

lemma monitor_snoc [simp]: "monitor (t @ [ev]) = Option.bind (monitor t) (monitor_step ev)"
  by (simp add: monitor_def)

text \<open>Actions after which the program is stopped as before, and actions that may start it.\<close>

definition stopped :: "'a action \<Rightarrow> bool" where
  "stopped m \<longleftrightarrow> (\<forall>t hs. monitor t = Some (False, hs) \<longrightarrow> monitor (snd (m t)) = Some (False, hs))"

definition balanced :: "'a action \<Rightarrow> bool" where
  "balanced m \<longleftrightarrow> (\<forall>t run hs. monitor t = Some (run, hs) \<longrightarrow> (\<exists>run'. monitor (snd (m t)) = Some (run', hs)))"

text \<open>Actions that are balanced as long as \<open>h\<close> is the innermost handler.\<close>

definition handled :: "handler \<Rightarrow> 'a action \<Rightarrow> bool" where
  "handled h m \<longleftrightarrow>
     (\<forall>t run hs. monitor t = Some (run, h # hs) \<longrightarrow> (\<exists>run'. monitor (snd (m t)) = Some (run', h # hs)))"

named_theorems action_intros \<open>rules for stopped and balanced actions\<close>

lemma ret_intros [action_intros]: "stopped (ret x)" "balanced (ret x)"
  by (simp_all add: stopped_def balanced_def ret_def)

lemma throw_intros [action_intros]: "stopped (throw e)"
  by (simp add: stopped_def throw_def)

lemma act_trace [simp]: "snd (act env ev t) = t @ [ev]"
  by (simp add: act_def split: option.splits)

lemma act_stopped [action_intros]: "(\<And>hs. monitor_step ev (False, hs) = Some (False, hs)) \<Longrightarrow> stopped (act env ev)"
  by (simp add: stopped_def)

lemma act_balanced [action_intros]:
  "(\<And>run hs. \<exists>run'. monitor_step ev (run, hs) = Some (run', hs)) \<Longrightarrow> balanced (act env ev)"
  by (auto simp: balanced_def)

lemma bind_stopped [action_intros]: "stopped m \<Longrightarrow> (\<And>x. stopped (f x)) \<Longrightarrow> stopped (bind_action m f)"
  unfolding stopped_def bind_action_def
  by (auto split: prod.splits sum.splits) (metis snd_conv)+

lemma bind_balanced [action_intros]: "balanced m \<Longrightarrow> (\<And>x. balanced (f x)) \<Longrightarrow> balanced (bind_action m f)"
  unfolding balanced_def bind_action_def
  by (auto split: prod.splits sum.splits) (metis snd_conv)+

lemma steps_stopped [action_intros]: "(\<And>m. m \<in> set ms \<Longrightarrow> stopped m) \<Longrightarrow> stopped (steps ms)"
  by (induction ms) (auto intro!: action_intros)

lemma steps_balanced [action_intros]: "(\<And>m. m \<in> set ms \<Longrightarrow> balanced m) \<Longrightarrow> balanced (steps ms)"
  by (induction ms) (auto intro!: action_intros)

lemma acts_stopped [action_intros]:
  "(\<And>ev hs. ev \<in> set evs \<Longrightarrow> monitor_step ev (False, hs) = Some (False, hs)) \<Longrightarrow> stopped (acts env evs)"
  by (induction evs) (auto intro!: action_intros)

lemma acts_balanced [action_intros]:
  "(\<And>ev run hs. ev \<in> set evs \<Longrightarrow> \<exists>run'. monitor_step ev (run, hs) = Some (run', hs)) \<Longrightarrow> balanced (acts env evs)"
  by (induction evs) (auto intro!: action_intros)

lemma cond_intros [action_intros]: "stopped m \<Longrightarrow> stopped (on_cond b m)" "balanced m \<Longrightarrow> balanced (on_cond b m)"
  by (auto simp: on_cond_def intro: action_intros)

lemma finally_stopped [action_intros]:
  "stopped m \<Longrightarrow> (\<And>hs. monitor_step d (False, hs) = Some (False, hs)) \<Longrightarrow> stopped (finally_do m d)"
  by (auto simp: stopped_def finally_do_def split: prod.splits) (metis bind.bind_lunit snd_conv)

lemma finally_kill [action_intros]: "balanced m \<Longrightarrow> stopped (finally_do m EvKill)"
  by (auto simp: stopped_def balanced_def finally_do_def split: prod.splits)
    (metis bind.bind_lunit monitor_step.simps(2) snd_conv)

lemma scoped_stopped [action_intros]:
  "stopped m \<Longrightarrow> (\<And>hs. monitor_step c (False, hs) = Some (False, hs)) \<Longrightarrow>
   (\<And>hs. monitor_step d (False, hs) = Some (False, hs)) \<Longrightarrow> stopped (scoped env c d m)"
  unfolding scoped_def by (intro action_intros)

lemma scoped_handler:
  assumes "ae_throws env (EvPushHandler h) = None" "monitor t = Some (run, hs)"
    and "\<exists>run'. monitor (snd (m (t @ [EvPushHandler h]))) = Some (run', h # hs)"
  shows "\<exists>run'. monitor (snd (scoped env (EvPushHandler h) EvPopHandler m t)) = Some (run', hs)"
  using assms by (auto simp: scoped_def bind_action_def act_def finally_do_def split: prod.splits)

lemma balanced_handled: "balanced m \<Longrightarrow> handled h m"
  by (auto simp: balanced_def handled_def)

lemma wait_handled: "handled KillOnSignal (act env EvWaitProgram)"
  by (simp add: handled_def)

lemma handler_balanced [action_intros]:
  assumes "ae_throws env (EvPushHandler h) = None" "handled h m"
  shows "balanced (scoped env (EvPushHandler h) EvPopHandler m)"
  unfolding balanced_def
proof (intro allI impI)
  fix t run hs assume t: "monitor t = Some (run, hs)"
  then have "monitor (t @ [EvPushHandler h]) = Some (run, h # hs)" by simp
  then show "\<exists>run'. monitor (snd (scoped env (EvPushHandler h) EvPopHandler m t)) = Some (run', hs)"
    using assms(2) scoped_handler [OF assms(1) t] unfolding handled_def by blast
qed

lemma handler_stopped [action_intros]:
  assumes "ae_throws env (EvPushHandler h) = None" "stopped m"
  shows "stopped (scoped env (EvPushHandler h) EvPopHandler m)"
  unfolding stopped_def
proof (intro allI impI)
  fix t hs assume t: "monitor t = Some (False, hs)"
  then have "monitor (t @ [EvPushHandler h]) = Some (False, h # hs)" by simp
  then have "monitor (snd (m (t @ [EvPushHandler h]))) = Some (False, h # hs)"
    using assms(2) unfolding stopped_def by blast
  then show "monitor (snd (scoped env (EvPushHandler h) EvPopHandler m t)) = Some (False, hs)"
    using assms(1) t by (auto simp: scoped_def bind_action_def act_def finally_do_def split: prod.splits)
qed

lemma catch_stopped [action_intros]: "stopped m \<Longrightarrow> stopped (catch_poco m)"
  unfolding stopped_def catch_poco_def by (auto split: prod.splits sum.splits) (metis snd_conv)+

lemma interrupted_stopped [action_intros]: "(\<And>i. stopped (f i)) \<Longrightarrow> stopped (if_interrupted env f)"
  by (simp add: stopped_def if_interrupted_def)

lemma end_stopped [action_intros]: "(\<And>v. stopped (f v)) \<Longrightarrow> stopped (with_end env f)"
  by (simp add: stopped_def with_end_def)

lemma runApp_stopped:
  assumes H: "\<And>h. ae_throws env (EvPushHandler h) = None"
  shows "stopped (runApp env c)"
proof -
  have "balanced (steps [acts env [EvExecutorStart, EvIOStart],
      on_cond (manager_enabled c) (act env (EvProgramStarted (ae_hostName env) (ae_port env))),
      scoped env (EvPushHandler KillOnSignal) EvPopHandler (act env EvWaitProgram)])"
    by (intro steps_balanced) (auto intro!: action_intros H wait_handled)
  then have program: "stopped (run_program env c)"
    unfolding run_program_def by (rule finally_kill)
  have watched: "stopped (run_watched env c)"
    unfolding run_watched_def using program by (auto intro!: action_intros)
  have parents: "stopped (make_parents env path)" for path
    by (auto simp: make_parents_def intro!: action_intros split: option.splits)
  have rest: "stopped (prepare_dirs env c)" "stopped (finish_io env c)" "stopped (report_end env c)"
    "stopped (run_after env c shell)" "stopped (wait_manager env)" "stopped (wait_exit env c)" for shell
    unfolding prepare_dirs_def finish_io_def report_end_def run_after_def wait_manager_def wait_exit_def
    using parents by (auto intro!: action_intros H)
  have body: "stopped (run_body env c shell)" for shell
    unfolding run_body_def using watched rest by (auto intro!: action_intros)
  have "stopped (run_objects env c shell)" for shell
    unfolding run_objects_def using body by (auto intro!: action_intros)
  then show ?thesis
    unfolding runApp_def Let_def using rest by (auto intro!: action_intros split: option.splits)
qed

section \<open>The order of the calls\<close>

fun milestone :: "app_event \<Rightarrow> bool" where
  "milestone EvServerStart = True"
| "milestone EvWatcherStart = True"
| "milestone EvExecutorStart = True"
| "milestone EvIOStart = True"
| "milestone (EvProgramStarted h p) = True"
| "milestone EvWaitProgram = True"
| "milestone EvKill = True"
| "milestone EvCollectAll = True"
| "milestone EvIOJoin = True"
| "milestone EvCloseBuffer = True"
| "milestone (EvSaveOutput f) = True"
| "milestone EvDirSize = True"
| "milestone (EvProgramFinished n) = True"
| "milestone EvRunAfterStart = True"
| "milestone EvServerStop = True"
| "milestone ev = False"

text \<open>An action that returns \<open>x\<close> after calls of which the milestones are \<open>L\<close>.\<close>

definition yields :: "'a action \<Rightarrow> 'a \<Rightarrow> app_event list \<Rightarrow> bool" where
  "yields m x L \<longleftrightarrow> (\<forall>t. \<exists>evs. m t = (Inr x, t @ evs) \<and> filter milestone evs = L)"

lemma yields_ret: "yields (ret x) x []"
  by (simp add: yields_def ret_def)

lemma yields_act: "ae_throws env ev = None \<Longrightarrow> yields (act env ev) () (filter milestone [ev])"
  by (simp add: yields_def act_def)

lemma yields_bind:
  assumes "yields m x L" "yields (f x) y M"
  shows "yields (bind_action m f) y (L @ M)"
  unfolding yields_def
proof
  fix t
  obtain evs where 1: "m t = (Inr x, t @ evs)" "filter milestone evs = L"
    using assms(1) unfolding yields_def by blast
  obtain evs' where "f x (t @ evs) = (Inr y, (t @ evs) @ evs')" "filter milestone evs' = M"
    using assms(2) unfolding yields_def by blast
  then show "\<exists>evs. bind_action m f t = (Inr y, t @ evs) \<and> filter milestone evs = L @ M"
    using 1 by (intro exI [of _ "evs @ evs'"]) (simp add: bind_action_def)
qed

lemma yields_steps_Nil: "yields (steps []) () []"
  by (simp add: yields_ret)

lemma yields_steps_Cons: "yields m () L \<Longrightarrow> yields (steps ms) () M \<Longrightarrow> yields (steps (m # ms)) () (L @ M)"
  by (simp add: yields_bind)

lemma yields_acts: "(\<forall>ev. ae_throws env ev = None) \<Longrightarrow> yields (acts env evs) () (filter milestone evs)"
proof (induction evs)
  case (Cons ev evs)
  have "ae_throws env ev = None" using Cons.prems by blast
  from yields_bind [OF yields_act [OF this] Cons.IH [OF Cons.prems]]
  show ?case by (cases "milestone ev") simp_all
qed (simp add: yields_ret)

lemma yields_cond: "(b \<Longrightarrow> yields m () L) \<Longrightarrow> yields (on_cond b m) () (if b then L else [])"
  by (simp add: on_cond_def yields_ret)

lemma yieldsE:
  assumes "yields m x L"
  obtains evs where "m t = (Inr x, t @ evs)" "filter milestone evs = L"
  using assms unfolding yields_def by blast

lemma yields_finally:
  assumes "yields m x L"
  shows "yields (finally_do m d) x (L @ filter milestone [d])"
  unfolding yields_def
proof
  fix t
  obtain evs where "m t = (Inr x, t @ evs)" "filter milestone evs = L" using assms by (rule yieldsE)
  then show "\<exists>evs. finally_do m d t = (Inr x, t @ evs) \<and> filter milestone evs = L @ filter milestone [d]"
    by (intro exI [of _ "evs @ [d]"]) (simp add: finally_do_def)
qed

lemma yields_scoped:
  "ae_throws env c = None \<Longrightarrow> yields m x L \<Longrightarrow>
   yields (scoped env c d m) x (filter milestone [c] @ L @ filter milestone [d])"
  unfolding scoped_def by (rule yields_bind [OF yields_act yields_finally])

lemma yields_catch:
  assumes "yields m () L"
  shows "yields (catch_poco m) () L"
  unfolding yields_def
proof
  fix t
  obtain evs where "m t = (Inr (), t @ evs)" "filter milestone evs = L" using assms by (rule yieldsE)
  then show "\<exists>evs. catch_poco m t = (Inr (), t @ evs) \<and> filter milestone evs = L"
    by (intro exI [of _ evs]) (simp add: catch_poco_def)
qed

lemma yields_interrupted: "(\<And>i. yields (f i) () L) \<Longrightarrow> yields (if_interrupted env f) () L"
  unfolding yields_def if_interrupted_def by blast

lemma yields_end: "(\<And>v. yields (f v) () L) \<Longrightarrow> yields (with_end env f) () L"
  unfolding yields_def with_end_def by blast

lemmas yields_intros = yields_steps_Nil yields_steps_Cons yields_act yields_acts yields_cond yields_finally
  yields_scoped yields_catch

lemma yields_eq: "yields m x L \<Longrightarrow> L = M \<Longrightarrow> yields m x M"
  by simp

text \<open>The milestones of a run in which no call throws.\<close>

definition program_milestones :: "app_env \<Rightarrow> app_config \<Rightarrow> app_event list" where
  "program_milestones env c =
     [EvExecutorStart, EvIOStart] @
     (if manager_enabled c then [EvProgramStarted (ae_hostName env) (ae_port env)] else []) @
     [EvWaitProgram, EvKill]"

definition run_milestones :: "app_env \<Rightarrow> app_config \<Rightarrow> app_event list" where
  "run_milestones env c =
     [EvServerStart] @
     (if ac_watchGenerated c \<and> manager_enabled c
      then [EvWatcherStart] @ program_milestones env c @ [EvCollectAll] else program_milestones env c) @
     [EvIOJoin, EvCloseBuffer] @
     (if ac_outputFile c \<noteq> [] then [EvSaveOutput (ac_outputFile c)] else []) @
     [EvDirSize] @
     (if manager_enabled c then [EvProgramFinished (work_dir_size env)] else []) @
     (if ac_runAfter c \<noteq> [] then [EvRunAfterStart] else []) @
     [EvServerStop]"

lemma runApp_yields:
  assumes N: "\<forall>ev. ae_throws env ev = None" and shell: "ae_shell env = Some sh0"
    and fresh: "ac_statusFile c = [] \<or> \<not> ae_exists env (ac_statusFile c)"
  shows "yields (runApp env c) EXIT_OK (run_milestones env c)"
proof -
  have T: "ae_throws env ev = None" for ev using N by blast
  have program: "yields (run_program env c) () (program_milestones env c)"
    unfolding run_program_def program_milestones_def
    by (rule yields_eq, (rule yields_intros T N)+) simp
  have watched: "yields (run_watched env c) () (if ac_watchGenerated c \<and> manager_enabled c
      then [EvWatcherStart] @ program_milestones env c @ [EvCollectAll] else program_milestones env c)"
  proof (cases "ac_watchGenerated c \<and> manager_enabled c")
    case True
    have "yields (finally_do (steps [act env EvWatcherStart, run_program env c, acts env [EvWatcherStop, EvCollectAll]])
        EvDestroyWatcher) () ([EvWatcherStart] @ program_milestones env c @ [EvCollectAll])"
      by (rule yields_eq, (rule yields_intros T N program)+) simp
    then show ?thesis unfolding run_watched_def if_P [OF True] .
  next
    case False
    show ?thesis unfolding run_watched_def if_not_P [OF False] by (rule program)
  qed
  have parents: "yields (make_parents env path) () []" for path
    using yields_act [OF T, of "EvCreateDirectories _"]
    by (auto simp: make_parents_def yields_ret split: option.splits)
  have dirs: "yields (prepare_dirs env c) () []"
    unfolding prepare_dirs_def by (rule yields_eq, (rule yields_intros T N parents)+) simp
  have io: "yields (finish_io env c) () ([EvIOJoin, EvCloseBuffer] @
      (if ac_outputFile c \<noteq> [] then [EvSaveOutput (ac_outputFile c)] else []))"
    unfolding finish_io_def by (rule yields_eq, (rule yields_intros T N)+) simp
  have report: "yields (report_end env c) () ([EvDirSize] @
      (if manager_enabled c then [EvProgramFinished (work_dir_size env)] else []))"
    unfolding report_end_def by (rule yields_eq, (rule yields_intros T N)+) simp
  have after: "yields (run_after env c shell) () [EvRunAfterStart]" for shell
    unfolding run_after_def
    by (rule yields_end, rule yields_eq, (rule yields_intros T N)+) simp
  have mwait: "yields (wait_manager env) () []"
    unfolding wait_manager_def
  proof (rule yields_eq, rule yields_steps_Cons)
    have "yields (on_cond i (act env EvManagerInterrupt)) () []" for i
      by (rule yields_eq, (rule yields_intros T)+) simp
    then show "yields (if_interrupted env (\<lambda>i. on_cond i (act env EvManagerInterrupt))) () []"
      by (rule yields_interrupted)
    show "yields (steps [scoped env (EvPushHandler InterruptManager) EvPopHandler (act env EvManagerWait)]) () ([] @ [])"
      by (rule yields_eq, (rule yields_intros T)+) simp
  qed simp
  have xwait: "yields (wait_exit env c) () []"
    unfolding wait_exit_def
  proof (rule yields_interrupted)
    show "yields (on_cond (ac_noExit c \<and> \<not> i) (scoped env (EvPushHandler LogSignal) EvPopHandler
        (act env EvWaitSignal))) () []" for i
      by (rule yields_eq, (rule yields_intros T)+) simp
  qed
  have body: "yields (run_body env c shell) () (run_milestones env c)" for shell
    unfolding run_body_def run_milestones_def
    by (rule yields_eq, (rule yields_intros T watched io report after mwait xwait)+) simp
  have objects: "yields (run_objects env c shell) () (run_milestones env c)" for shell
    unfolding run_objects_def by (rule yields_eq, (rule yields_scoped T body)+) simp
  have "yields (bind_action (steps [act env EvHostName, prepare_dirs env c, run_objects env c shell])
      (\<lambda>_. ret EXIT_OK)) EXIT_OK (run_milestones env c)" for shell
    by (rule yields_eq, (rule yields_bind yields_ret yields_intros T dirs objects)+) simp
  then show ?thesis using fresh by (auto simp: runApp_def shell Let_def)
qed

section \<open>The command after the program\<close>

lemma child_environ_put:
  assumes "distinct (map fst env)" "map_of env k = Some v"
  shows "child_environ env env0 k = Some v"
proof -
  have "fold (\<lambda>(k, v) e. e(k \<mapsto> v)) env m k = Some v" for m
    using assms
  proof (induction env arbitrary: m)
    case (Cons x env)
    obtain a b where x: "x = (a, b)" by (cases x)
    have other: "k \<notin> fst ` set ys \<Longrightarrow> fold (\<lambda>(k, v) e. e(k \<mapsto> v)) ys m' k = m' k"
      for ys :: environ_map and m' by (induction ys arbitrary: m') auto
    show ?case
    proof (cases "a = k")
      case True
      then show ?thesis using Cons.prems other [of env "m(a \<mapsto> b)"] by (simp add: x fun_upd_def)
    qed (use Cons in \<open>simp add: x\<close>)
  qed simp
  then show ?thesis by (simp add: child_environ_def Let_def)
qed

text \<open>What the run-after command sees of the end of the program.\<close>

definition end_visible :: "(int \<Rightarrow> string) \<Rightarrow> end_view \<Rightarrow> (string \<Rightarrow> string option) \<Rightarrow> bool" where
  "end_visible dec v env \<longleftrightarrow>
     (fst v = EXITED \<longrightarrow> env (ENV_PREFIX @ ''PROGRAM_EXIT_STATUS'') = Some ''EXITED'' \<and>
        env (ENV_PREFIX @ ''PROGRAM_EXIT_CODE'') = Some (dec (exitCode (snd v)))) \<and>
     (fst v = SIGNALLED \<longrightarrow> env (ENV_PREFIX @ ''PROGRAM_EXIT_STATUS'') = Some ''SIGNALLED'' \<and>
        env (ENV_PREFIX @ ''PROGRAM_EXIT_SIGNAL'') = Some (dec (exitSignal (snd v)))) \<and>
     (fst v = CANNOT_KILL \<longrightarrow> env (ENV_PREFIX @ ''PROGRAM_EXIT_STATUS'') = Some ''CANNOT_KILL'')"

lemma run_after_map_of:
  "end_visible dec v (map_of (run_after_environ dec c v))"
  "map_of (run_after_environ dec c v) (ENV_PREFIX @ ''PROGRAM_WORK_DIR'') = Some (ac_workDir c)"
  "(\<nexists>x. k = ENV_PREFIX @ x) \<Longrightarrow> map_of (run_after_environ dec c v) k = map_of (ac_environ c) k"
  by (cases "fst v"; auto simp: end_visible_def run_after_environ_def Let_def update_conv')+

lemma run_after_distinct:
  "distinct (map fst (ac_environ c)) \<Longrightarrow> distinct (map fst (run_after_environ dec c v))"
  by (cases "fst v") (simp_all add: run_after_environ_def Let_def distinct_update)

section \<open>Properties\<close>

definition sample_env :: "(app_event \<Rightarrow> err option) \<Rightarrow> app_env" where
  "sample_env throws = \<lparr>ae_shell = Some ''/bin/bash'', ae_exists = (\<lambda>p. p = ''/tmp/old.json''),
     ae_parent = (\<lambda>_. None), ae_hostName = ''host'', ae_port = 8080, ae_throws = throws,
     ae_end = (\<lambda>_. (EXITED, sample_executor\<lparr>pe_status := EXITED\<rparr>)), ae_dirSize = 10, ae_dirInterrupted = False,
     ae_interrupted = (\<lambda>_. False), ae_runAfterFinishes = True, ae_dec = (\<lambda>_. ''0''),
     ae_readEnds = (\<lambda>ended closed. ended \<or> closed)\<rparr>"

text \<open>C8: Whatever call throws, and whenever signals arrive, the user program never outlives the scope in
  which it was started: \<open>kill\<close> is called after \<open>start\<close> before anything else goes on, the wait for the program
  happens under the handler that kills it, and every signal handler that is pushed is popped,
  innermost first, before \<open>runApp\<close> ends.\<close>

theorem program_never_outlives_scope:
  assumes "\<And>h. ae_throws env (EvPushHandler h) = None"
  shows "monitor (snd (runApp env c [])) = Some (False, [])"
  using runApp_stopped [OF assms, of c] by (simp add: stopped_def monitor_def)

lemma program_never_outlives_scope_witness:
  "monitor (snd (runApp (sample_env (\<lambda>ev. if ev = EvIOStart then Some (IllegalState []) else None)) BaseApp_new [])) =
     Some (False, [])"
  by (rule program_never_outlives_scope) (simp add: sample_env_def)

text \<open>C20: When no call throws, \<open>runApp\<close> returns EXIT_OK and makes its main calls in this order: the server is
  up before the program starts; the start is reported after the program and its IO thread run; the
  program has ended before the last files are collected; the IO thread has ended before the buffer is
  closed, and the buffer is closed before the output is saved; the end is reported
  after that and before the command that runs after the program.\<close>

theorem run_order:
  assumes "\<forall>ev. ae_throws env ev = None" "ae_shell env = Some sh0"
    and "ac_statusFile c = [] \<or> \<not> ae_exists env (ac_statusFile c)"
  shows "\<exists>t. runApp env c [] = (Inr EXIT_OK, t) \<and> filter milestone t = run_milestones env c"
  using runApp_yields [OF assms] by (fastforce elim: yieldsE [where t = "[]"])

lemma run_order_witness:
  "\<exists>t. runApp (sample_env (\<lambda>_. None)) (BaseApp_new\<lparr>ac_statusFile := ''/tmp/s.json'', ac_outputFile := ''/tmp/out''\<rparr>) [] =
      (Inr EXIT_OK, t) \<and>
    filter milestone t = [EvServerStart, EvExecutorStart, EvIOStart, EvProgramStarted ''host'' 8080, EvWaitProgram,
      EvKill, EvIOJoin, EvCloseBuffer, EvSaveOutput ''/tmp/out'', EvDirSize, EvProgramFinished 10, EvServerStop]"
  using run_order [of "sample_env (\<lambda>_. None)" "''/bin/bash''"
      "BaseApp_new\<lparr>ac_statusFile := ''/tmp/s.json'', ac_outputFile := ''/tmp/out''\<rparr>"]
  by (simp add: sample_env_def BaseApp_new_def run_milestones_def program_milestones_def manager_enabled_def
      work_dir_size_def to_ssize_def SIZE_MOD_def)

text \<open>C37: When the status file exists nothing at all is called: \<open>runApp\<close> ends with EXIT_SOFTWARE. But \<open>main\<close>
  drops that code: the process exits with EXIT_OK, as after a run.\<close>

theorem status_file_guard:
  assumes "ae_shell env = Some sh0" "ac_statusFile c \<noteq> []" "ae_exists env (ac_statusFile c)"
    and "\<not> ac_helpRequested c" "args \<noteq> []"
  shows "runApp env c t = (Inr EXIT_SOFTWARE, t) \<and>
    BaseApp_main absolute cwd (runApp env) args c t = (EXIT_OK, t)"
  using assms by (simp add: runApp_def ret_def BaseApp_main_def Let_def)

lemma status_file_guard_witness:
  "runApp (sample_env (\<lambda>_. None)) (BaseApp_new\<lparr>ac_statusFile := ''/tmp/old.json''\<rparr>) [] = (Inr 70, [])"
  using status_file_guard [of "sample_env (\<lambda>_. None)" "''/bin/bash''" "BaseApp_new\<lparr>ac_statusFile := ''/tmp/old.json''\<rparr>"
      "[''ls'']" "[]" "\<lambda>p. p" "[]"]
  by (simp add: sample_env_def BaseApp_new_def EXIT_SOFTWARE_def)

text \<open>The command that runs after the program sees how it ended, whatever the user's variables and its own
  environment say: its status, and its exit code or signal, and all other variables the user set.\<close>

theorem run_after_environment:
  assumes "distinct (map fst (ac_environ c))"
  shows "let env = child_environ (run_after_environ dec c v) env0 in
    (fst v = EXITED \<longrightarrow> env (ENV_PREFIX @ ''PROGRAM_EXIT_STATUS'') = Some ''EXITED'' \<and>
      env (ENV_PREFIX @ ''PROGRAM_EXIT_CODE'') = Some (dec (exitCode (snd v)))) \<and>
    (fst v = SIGNALLED \<longrightarrow> env (ENV_PREFIX @ ''PROGRAM_EXIT_STATUS'') = Some ''SIGNALLED'' \<and>
      env (ENV_PREFIX @ ''PROGRAM_EXIT_SIGNAL'') = Some (dec (exitSignal (snd v)))) \<and>
    (fst v = CANNOT_KILL \<longrightarrow> env (ENV_PREFIX @ ''PROGRAM_EXIT_STATUS'') = Some ''CANNOT_KILL'') \<and>
    env (ENV_PREFIX @ ''PROGRAM_WORK_DIR'') = Some (ac_workDir c) \<and>
    (\<forall>k v. (\<nexists>x. k = ENV_PREFIX @ x) \<and> map_of (ac_environ c) k = Some v \<longrightarrow> env k = Some v)"
  using run_after_map_of [where dec = dec and v = v and c = c] child_environ_put [OF run_after_distinct [OF assms, of dec v], of _ _ env0]
  unfolding Let_def end_visible_def by simp

lemma run_after_environment_witness:
  "child_environ (run_after_environ (\<lambda>_. ''0'') (BaseApp_new\<lparr>ac_environ := [(''A'', ''1'')]\<rparr>)
     (EXITED, sample_executor\<lparr>pe_status := EXITED\<rparr>)) (\<lambda>_. None) (ENV_PREFIX @ ''PROGRAM_EXIT_CODE'') = Some ''0''"
  using run_after_environment [of "BaseApp_new\<lparr>ac_environ := [(''A'', ''1'')]\<rparr>" "\<lambda>_. ''0''"
      "(EXITED, sample_executor\<lparr>pe_status := EXITED\<rparr>)" "\<lambda>_. None"] by (simp add: Let_def)

end
