(* ===== verification/RunTrace.thy ===== *)
theory RunTrace
  imports MainApp
begin

text \<open>
  What the trace of \<open>runApp\<close> (theory \<open>MainApp\<close>) says about the calls that start the program, wait for it and
  report on it, when calls may throw: they come in a fixed order, each at most once, and only after those before
  them have returned. The rules derive this action by action, as for pre- and postconditions.
\<close>

section \<open>Rules for the reports of an action\<close>

fun is_report :: "app_event \<Rightarrow> bool" where
  "is_report EvExecutorStart = True"
| "is_report (EvProgramStarted h p) = True"
| "is_report EvWaitProgram = True"
| "is_report (EvProgramFinished n) = True"
| "is_report (EvNewRunAfter a e) = True"
| "is_report ev = False"

abbreviation reports :: "app_event list \<Rightarrow> app_event list" where
  "reports \<equiv> filter is_report"

definition returned :: "app_env \<Rightarrow> app_event list \<Rightarrow> bool" where
  "returned env L \<longleftrightarrow> (\<forall>ev \<in> set L. ae_throws env ev = None)"

text \<open>
  The reports of the action are one of the lists in \<open>S\<close>, if it returns; if it throws they are the
  beginning of one, and all but the last have returned.
\<close>

definition emits :: "app_env \<Rightarrow> 'a action \<Rightarrow> app_event list set \<Rightarrow> bool" where
  "emits env m S \<longleftrightarrow> (\<forall>t. \<exists>L \<in> S. \<exists>evs. snd (m t) = t @ evs \<and>
     (case fst (m t) of
        Inr _ \<Rightarrow> reports evs = L \<and> returned env L
      | Inl _ \<Rightarrow> (\<exists>k. reports evs = take k L) \<and> returned env (butlast (reports evs))))"

named_theorems emits_intros \<open>rules for the reports of an action\<close>

definition cats :: "app_event list set \<Rightarrow> app_event list set \<Rightarrow> app_event list set" where
  "cats S T = {L @ M | L M. L \<in> S \<and> M \<in> T}"

lemma cats_simps [simp]: "cats {L} {M} = {L @ M}" "cats {[]} S = S" "cats S {[]} = S"
  by (auto simp: cats_def)

lemma returned_simps [simp]:
  "returned env []" "returned env (ev # L) \<longleftrightarrow> ae_throws env ev = None \<and> returned env L"
  "returned env (L @ M) \<longleftrightarrow> returned env L \<and> returned env M"
  by (auto simp: returned_def)

lemma returned_butlast: "returned env L \<Longrightarrow> returned env (butlast L)"
  by (auto simp: returned_def dest: in_set_butlastD)

lemma emits_weaken: "emits env m S \<Longrightarrow> S \<subseteq> T \<Longrightarrow> emits env m T"
  unfolding emits_def by (meson subsetD)

lemma emits_eq: "emits env m S \<Longrightarrow> S = T \<Longrightarrow> emits env m T"
  by simp

lemma emits_ret [emits_intros]: "emits env (ret x) {[]}"
  by (auto simp: emits_def ret_def)

lemma emits_act [emits_intros]: "emits env (act env ev) {reports [ev]}"
proof -
  have "\<exists>k. reports [ev] = take k (reports [ev])" by (rule exI [of _ 1]) simp
  then show ?thesis by (auto simp: emits_def act_def split: option.split)
qed

lemma emits_nonempty: "emits env m S \<Longrightarrow> S \<noteq> {}"
  by (auto simp: emits_def)

lemma emitsE:
  assumes "emits env m S"
  obtains (returns) L evs x where "m t = (Inr x, t @ evs)" "L \<in> S" "reports evs = L" "returned env L"
  | (throws) L evs e k where "m t = (Inl e, t @ evs)" "L \<in> S" "reports evs = take k L"
      "returned env (butlast (reports evs))"
proof -
  obtain L evs where "L \<in> S" "snd (m t) = t @ evs" "case fst (m t) of
        Inr _ \<Rightarrow> reports evs = L \<and> returned env L
      | Inl _ \<Rightarrow> (\<exists>k. reports evs = take k L) \<and> returned env (butlast (reports evs))"
    using assms unfolding emits_def by blast
  then show thesis using that by (cases "m t"; cases "fst (m t)") auto
qed

lemma emits_throw:
  "L \<in> S \<Longrightarrow> reports evs = take k L \<Longrightarrow> returned env (butlast (reports evs)) \<Longrightarrow>
   \<exists>L\<in>S. (\<exists>k. reports evs = take k L) \<and> returned env (butlast (reports evs))"
  by blast

lemma emits_bind [emits_intros]:
  assumes m: "emits env m S" and f: "\<And>x. emits env (f x) T"
  shows "emits env (bind_action m f) (cats S T)"
  unfolding emits_def
proof
  fix t
  obtain M0 where M0: "M0 \<in> T" using emits_nonempty [OF f] by blast
  from m show "\<exists>L \<in> cats S T. \<exists>evs. snd (bind_action m f t) = t @ evs \<and>
     (case fst (bind_action m f t) of
        Inr _ \<Rightarrow> reports evs = L \<and> returned env L
      | Inl _ \<Rightarrow> (\<exists>k. reports evs = take k L) \<and> returned env (butlast (reports evs)))"
  proof (cases rule: emitsE [where t = t])
    case (throws L evs e k)
    have "take k L = take (min k (length L)) (L @ M0)" by (cases "k \<le> length L") (simp_all add: min_def)
    then have "\<exists>k. reports evs = take k (L @ M0)" using throws(3) by metis
    moreover have "L @ M0 \<in> cats S T" using throws(2) M0 by (auto simp: cats_def)
    ultimately show ?thesis using throws(1,4)
      by (intro bexI [of _ "L @ M0"] exI [of _ evs]) (simp_all add: bind_action_def del: take_append)
  next
    case (returns L evs x)
    from f [of x] show ?thesis
    proof (cases rule: emitsE [where t = "t @ evs"])
      case (returns M evs' y)
      then show ?thesis using \<open>m t = _\<close> \<open>L \<in> S\<close> \<open>reports evs = L\<close> \<open>returned env L\<close>
        by (intro bexI [of _ "L @ M"] exI [of _ "evs @ evs'"]) (auto simp: bind_action_def cats_def)
    next
      case (throws M evs' e k)
      have "L @ take k M = take (length L + k) (L @ M)" by simp
      then have "\<exists>k. reports (evs @ evs') = take k (L @ M)"
        using throws(3) \<open>reports evs = L\<close> by (metis filter_append)
      moreover have "returned env (butlast (L @ reports evs'))"
        using throws(4) \<open>returned env L\<close> returned_butlast by (simp add: butlast_append)
      moreover have "L @ M \<in> cats S T" using throws(2) \<open>L \<in> S\<close> by (auto simp: cats_def)
      ultimately show ?thesis using throws(1) \<open>m t = _\<close> \<open>reports evs = L\<close>
        by (intro bexI [of _ "L @ M"] exI [of _ "evs @ evs'"]) (simp_all add: bind_action_def del: take_append)
    qed
  qed
qed

lemma emits_finally [emits_intros]:
  assumes "emits env m S" "\<not> is_report d"
  shows "emits env (finally_do m d) S"
  unfolding emits_def
proof
  fix t
  from assms(1) show "\<exists>L \<in> S. \<exists>evs. snd (finally_do m d t) = t @ evs \<and>
     (case fst (finally_do m d t) of
        Inr _ \<Rightarrow> reports evs = L \<and> returned env L
      | Inl _ \<Rightarrow> (\<exists>k. reports evs = take k L) \<and> returned env (butlast (reports evs)))"
  proof (cases rule: emitsE [where t = t])
    case (returns L evs x)
    then show ?thesis using assms(2)
      by (intro bexI [of _ L] exI [of _ "evs @ [d]"]) (auto simp: finally_do_def)
  next
    case (throws L evs e k)
    then show ?thesis using assms(2)
      by (intro bexI [of _ L] exI [of _ "evs @ [d]"]) (auto simp: finally_do_def)
  qed
qed

lemma emits_scoped [emits_intros]:
  "emits env m S \<Longrightarrow> \<not> is_report d \<Longrightarrow> emits env (scoped env ct d m) (cats {reports [ct]} S)"
  unfolding scoped_def by (intro emits_intros)

lemma emits_catch [emits_intros]:
  assumes "emits env m {[]}"
  shows "emits env (catch_poco m) {[]}"
  unfolding emits_def
proof
  fix t
  from assms show "\<exists>L \<in> {[]}. \<exists>evs. snd (catch_poco m t) = t @ evs \<and>
     (case fst (catch_poco m t) of
        Inr _ \<Rightarrow> reports evs = L \<and> returned env L
      | Inl _ \<Rightarrow> (\<exists>k. reports evs = take k L) \<and> returned env (butlast (reports evs)))"
    by (cases rule: emitsE [where t = t]) (auto simp: catch_poco_def)
qed

lemma emits_interrupted [emits_intros]: "(\<And>i. emits env (f i) S) \<Longrightarrow> emits env (if_interrupted env f) S"
  unfolding emits_def if_interrupted_def by blast

lemma emits_end [emits_intros]:
  "(\<And>v. emits env (f v) (S v)) \<Longrightarrow> emits env (with_end env f) (\<Union>v. S v)"
  unfolding emits_def with_end_def by blast

lemma emits_steps [emits_intros]:
  "emits env (steps []) {[]}" "emits env m S \<Longrightarrow> emits env (steps ms) T \<Longrightarrow> emits env (steps (m # ms)) (cats S T)"
  by (auto intro: emits_intros)

lemma emits_acts [emits_intros]: "emits env (acts env evs) {reports evs}"
proof (induction evs)
  case (Cons ev evs)
  have "reports (ev # evs) = reports [ev] @ reports evs" by simp
  then show ?case using emits_bind [OF emits_act Cons.IH] by simp
qed (simp add: emits_ret)

lemma emits_cond [emits_intros]: "emits env m S \<Longrightarrow> emits env (on_cond b m) (if b then S else {[]})"
  by (simp add: on_cond_def emits_ret)

text \<open>The destructors are not reports.\<close>

lemma destructors [emits_intros]:
  "\<not> is_report EvPopHandler" "\<not> is_report EvKill" "\<not> is_report EvDestroyWatcher"
  "\<not> is_report EvDestroyRunAfter" "\<not> is_report EvDestroyServer" "\<not> is_report EvDestroyController"
  "\<not> is_report EvDestroyBuffer" "\<not> is_report EvDestroyExecutor" "\<not> is_report EvDestroyManager"
  by simp_all

section \<open>The reports of runApp\<close>

definition program_reports :: "app_env \<Rightarrow> app_config \<Rightarrow> app_event list" where
  "program_reports env c = EvExecutorStart #
     (if manager_enabled c then [EvProgramStarted (ae_hostName env) (ae_port env)] else []) @ [EvWaitProgram]"

definition full_reports :: "app_env \<Rightarrow> app_config \<Rightarrow> string list \<Rightarrow> end_view \<Rightarrow> app_event list" where
  "full_reports env c args v = program_reports env c @
     (if manager_enabled c then [EvProgramFinished (work_dir_size env)] else []) @
     (if ac_runAfter c \<noteq> [] then [EvNewRunAfter args (run_after_environ (ae_dec env) c v)] else [])"

lemma runApp_emits: "emits env (runApp env c) ({[]} \<union> {full_reports env c args v | args v. True})"
proof -
  have program: "emits env (run_program env c) {program_reports env c}"
    unfolding run_program_def program_reports_def by (rule emits_eq, (rule emits_intros)+) simp_all
  have watched: "emits env (run_watched env c) {program_reports env c}"
  proof (cases "ac_watchGenerated c \<and> manager_enabled c")
    case True
    show ?thesis unfolding run_watched_def if_P [OF True]
      by (rule emits_eq, (rule emits_intros program)+) (simp_all add: True)
  next
    case False
    show ?thesis unfolding run_watched_def if_not_P [OF False] by (rule program)
  qed
  have parents: "emits env (make_parents env path) {[]}" for path
    using emits_act [of env "EvCreateDirectories _"]
    by (auto simp: make_parents_def emits_ret split: option.splits)
  have dirs: "emits env (prepare_dirs env c) {[]}"
    unfolding prepare_dirs_def by (rule emits_eq, (rule emits_intros parents)+) simp
  have save: "emits env (catch_poco (act env (EvSaveOutput f))) {[]}" for f
    by (rule emits_catch) (use emits_act [of env "EvSaveOutput f"] in simp)
  have io: "emits env (finish_io env c) {[]}"
    unfolding finish_io_def by (rule emits_eq, (rule emits_steps emits_acts emits_cond save)+) simp
  have report: "emits env (report_end env c) {if manager_enabled c then [EvProgramFinished (work_dir_size env)] else []}"
    unfolding report_end_def by (rule emits_eq, (rule emits_intros)+) simp_all
  have after: "emits env (run_after env c shell)
      {[EvNewRunAfter args (run_after_environ (ae_dec env) c v)] | args v. True}" for shell
    unfolding run_after_def by (rule emits_weaken, (rule emits_intros)+) auto
  have cond: "emits env (on_cond b (act env EvManagerInterrupt)) {[]}"
    "emits env (on_cond b (scoped env (EvPushHandler LogSignal) EvPopHandler (act env EvWaitSignal))) {[]}" for b
    by (rule emits_eq, (rule emits_intros)+, simp)+
  have mwait: "emits env (wait_manager env) {[]}"
    unfolding wait_manager_def by (rule emits_eq, (rule cond emits_intros)+) simp
  have xwait: "emits env (wait_exit env c) {[]}"
    unfolding wait_exit_def by (rule emits_eq, (rule cond emits_interrupted)+) simp
  have body: "emits env (run_body env c shell) {full_reports env c args v | args v. True}" for shell
    unfolding run_body_def
    by (rule emits_weaken, (rule emits_steps emits_act watched io report emits_cond after mwait xwait)+)
      (auto simp: cats_def full_reports_def)
  have objects: "emits env (run_objects env c shell) {full_reports env c args v | args v. True}" for shell
    unfolding run_objects_def by (rule emits_eq, (rule emits_scoped destructors body)+) simp_all
  have main: "emits env (bind_action (steps [act env EvHostName, prepare_dirs env c, run_objects env c shell])
      (\<lambda>_. ret EXIT_OK)) {full_reports env c args v | args v. True}" for shell
    by (rule emits_eq, (rule emits_bind emits_steps emits_act emits_ret dirs objects)+) simp
  show ?thesis
    using main emits_ret [of env EXIT_SOFTWARE]
    by (auto simp: runApp_def Let_def throw_def emits_def split: option.split)
qed

text \<open>The trace up to a report: all reports before it have been made, in order, and have returned.\<close>

lemma report_position:
  assumes "snd (runApp env c []) = done @ ev # rest" "is_report ev"
  shows "\<exists>args v j. j < length (full_reports env c args v) \<and> reports done = take j (full_reports env c args v) \<and>
    ev = full_reports env c args v ! j \<and> returned env (reports done)"
proof -
  have "\<exists>args v k. reports (done @ ev # rest) = take k (full_reports env c args v) \<and>
      returned env (butlast (reports (done @ ev # rest)))"
    using runApp_emits [of env c]
  proof (cases rule: emitsE [where t = "[]"])
    case (returns L evs x)
    then have evs: "evs = done @ ev # rest" using assms(1) by simp
    then have "L \<noteq> []" using returns(3) assms(2) by auto
    then obtain args v where "L = full_reports env c args v" using returns(2) by auto
    moreover have "reports evs = take (length L) L" using returns(3) by simp
    ultimately show ?thesis using returned_butlast [OF returns(4)] returns(3) unfolding evs by metis
  next
    case (throws L evs e k)
    then have evs: "evs = done @ ev # rest" using assms(1) by simp
    then have "L \<noteq> []" using throws(3) assms(2) by auto
    then obtain args v where "L = full_reports env c args v" using throws(2) by auto
    then show ?thesis using throws(3,4) unfolding evs by blast
  qed
  then obtain args v k where k: "reports done @ ev # reports rest = take k (full_reports env c args v)"
      "returned env (butlast (reports done @ ev # reports rest))"
    using assms(2) by auto
  let ?L = "full_reports env c args v" and ?j = "length (reports done)"
  have "?j < length (take k ?L)" unfolding k(1) [symmetric] by simp
  then have j: "?j < length ?L" "?j < k" by simp_all
  have "take ?j ?L = take ?j (take k ?L)" using j(2) by simp
  also have "\<dots> = reports done" unfolding k(1) [symmetric] by simp
  finally have "reports done = take ?j ?L" by simp
  moreover have "?L ! ?j = take k ?L ! ?j" using j(2) by simp
  then have "ev = ?L ! ?j" unfolding k(1) [symmetric] by simp
  moreover have "returned env (reports done)" using k(2) by (simp add: butlast_append)
  ultimately show ?thesis using j(1) by blast
qed

section \<open>The thread that reads the output\<close>

text \<open>
  The program and the thread that reads its output have been started when the main thread joins that thread.
  \<open>io_action env p m q\<close>: the action \<open>m\<close> keeps this, if \<open>p\<close> says that they have been started before, and if it
  returns and \<open>q\<close> holds they have been started after it.
\<close>

definition io_begun :: "app_env \<Rightarrow> app_event list \<Rightarrow> bool" where
  "io_begun env t \<longleftrightarrow> EvExecutorStart \<in> set t \<and> EvIOStart \<in> set t \<and> ae_throws env EvExecutorStart = None"

definition joins_ok :: "app_env \<Rightarrow> app_event list \<Rightarrow> bool" where
  "joins_ok env t \<longleftrightarrow> (\<forall>d r. t = d @ EvIOJoin # r \<longrightarrow> io_begun env d)"

definition io_action :: "app_env \<Rightarrow> bool \<Rightarrow> 'a action \<Rightarrow> bool \<Rightarrow> bool" where
  "io_action env p m q \<longleftrightarrow> (\<forall>t. joins_ok env t \<and> (p \<longrightarrow> io_begun env t) \<longrightarrow>
     (\<exists>evs. snd (m t) = t @ evs) \<and> joins_ok env (snd (m t)) \<and> (\<not> isl (fst (m t)) \<and> q \<longrightarrow> io_begun env (snd (m t))))"

named_theorems io_intros \<open>rules for the start of the thread that reads the output\<close>

lemma io_begun_append: "io_begun env t \<Longrightarrow> io_begun env (t @ t')"
  by (simp add: io_begun_def)

lemma joins_ok_snoc: "joins_ok env t \<Longrightarrow> ev = EvIOJoin \<longrightarrow> io_begun env t \<Longrightarrow> joins_ok env (t @ [ev])"
proof -
  assume ok: "joins_ok env t" and ev: "ev = EvIOJoin \<longrightarrow> io_begun env t"
  have "io_begun env d" if "t @ [ev] = d @ EvIOJoin # r" for d r
  proof (cases r rule: rev_cases)
    case Nil
    then show ?thesis using that ev by simp
  next
    case (snoc r' x)
    then have "t = d @ EvIOJoin # r'" using that by simp
    then show ?thesis using ok unfolding joins_ok_def by blast
  qed
  then show ?thesis by (simp add: joins_ok_def)
qed

lemma io_ret [io_intros]: "io_action env p (ret x) p"
  by (auto simp: io_action_def ret_def)

lemma io_act [io_intros]: "ev \<noteq> EvIOJoin \<or> p \<Longrightarrow> io_action env p (act env ev) p"
  by (auto simp: io_action_def intro: joins_ok_snoc io_begun_append)

lemma io_bind [io_intros]:
  assumes m: "io_action env p m q" and f: "\<And>x. io_action env q (f x) r"
  shows "io_action env p (bind_action m f) r"
  unfolding io_action_def
proof (intro allI impI)
  fix t assume t: "joins_ok env t \<and> (p \<longrightarrow> io_begun env t)"
  obtain x t1 where mt: "m t = (x, t1)" by (cases "m t")
  have M: "\<exists>evs. t1 = t @ evs" "joins_ok env t1" "\<not> isl x \<and> q \<longrightarrow> io_begun env t1"
    using m t mt unfolding io_action_def by (metis fst_conv snd_conv)+
  show "(\<exists>evs. snd (bind_action m f t) = t @ evs) \<and> joins_ok env (snd (bind_action m f t)) \<and>
      (\<not> isl (fst (bind_action m f t)) \<and> r \<longrightarrow> io_begun env (snd (bind_action m f t)))"
  proof (cases x)
    case (Inl e)
    then show ?thesis using M mt by (simp add: bind_action_def)
  next
    case (Inr y)
    then have "joins_ok env t1 \<and> (q \<longrightarrow> io_begun env t1)" using M by simp
    then have "(\<exists>evs. snd (f y t1) = t1 @ evs) \<and> joins_ok env (snd (f y t1)) \<and>
        (\<not> isl (fst (f y t1)) \<and> r \<longrightarrow> io_begun env (snd (f y t1)))"
      using f unfolding io_action_def by blast
    then show ?thesis using M(1) mt Inr by (auto simp: bind_action_def)
  qed
qed

lemma io_finally [io_intros]:
  assumes m: "io_action env p m q" and d: "d \<noteq> EvIOJoin"
  shows "io_action env p (finally_do m d) q"
  unfolding io_action_def
proof (intro allI impI)
  fix t assume t: "joins_ok env t \<and> (p \<longrightarrow> io_begun env t)"
  have fin: "fst (finally_do m d t) = fst (m t)" "snd (finally_do m d t) = snd (m t) @ [d]"
    by (simp_all add: finally_do_def split: prod.split)
  have "(\<exists>evs. snd (m t) = t @ evs) \<and> joins_ok env (snd (m t)) \<and> (\<not> isl (fst (m t)) \<and> q \<longrightarrow> io_begun env (snd (m t)))"
    using m t unfolding io_action_def by blast
  then show "(\<exists>evs. snd (finally_do m d t) = t @ evs) \<and> joins_ok env (snd (finally_do m d t)) \<and>
      (\<not> isl (fst (finally_do m d t)) \<and> q \<longrightarrow> io_begun env (snd (finally_do m d t)))"
    unfolding fin using joins_ok_snoc d io_begun_append by fastforce
qed

lemma io_catch [io_intros]:
  assumes m: "io_action env p m p"
  shows "io_action env p (catch_poco m) p"
  unfolding io_action_def
proof (intro allI impI)
  fix t assume t: "joins_ok env t \<and> (p \<longrightarrow> io_begun env t)"
  have c: "snd (catch_poco m t) = snd (m t)" by (simp add: catch_poco_def split: prod.split sum.split)
  obtain evs where "snd (m t) = t @ evs" "joins_ok env (snd (m t))" using m t unfolding io_action_def by blast
  then show "(\<exists>evs. snd (catch_poco m t) = t @ evs) \<and> joins_ok env (snd (catch_poco m t)) \<and>
      (\<not> isl (fst (catch_poco m t)) \<and> p \<longrightarrow> io_begun env (snd (catch_poco m t)))"
    unfolding c using t io_begun_append by auto
qed

lemma io_steps [io_intros]:
  "io_action env p (steps []) p"
  "io_action env p m q \<Longrightarrow> io_action env q (steps ms) r \<Longrightarrow> io_action env p (steps (m # ms)) r"
  by (simp add: io_ret, simp, rule io_bind)

lemma io_acts [io_intros]: "EvIOJoin \<notin> set evs \<or> p \<Longrightarrow> io_action env p (acts env evs) p"
proof (induction evs)
  case (Cons ev evs)
  then have "io_action env p (act env ev) p" "io_action env p (acts env evs) p" using io_act by auto
  then show ?case by (simp add: io_bind)
qed (simp add: io_ret)

lemma io_cond [io_intros]: "io_action env p m p \<Longrightarrow> io_action env p (on_cond b m) p"
  by (simp add: on_cond_def io_ret)

lemma io_scoped [io_intros]:
  "io_action env p m q \<Longrightarrow> ct \<noteq> EvIOJoin \<Longrightarrow> d \<noteq> EvIOJoin \<Longrightarrow> io_action env p (scoped env ct d m) q"
  unfolding scoped_def by (rule io_bind [OF io_act io_finally]) simp_all

lemma io_interrupted [io_intros]: "(\<And>i. io_action env p (f i) q) \<Longrightarrow> io_action env p (if_interrupted env f) q"
  by (simp add: io_action_def if_interrupted_def)

lemma io_end [io_intros]: "(\<And>v. io_action env p (f v) q) \<Longrightarrow> io_action env p (with_end env f) q"
  by (simp add: io_action_def with_end_def)

lemma io_starts: "io_action env False (acts env [EvExecutorStart, EvIOStart]) True"
  unfolding io_action_def
proof (intro allI impI)
  fix t assume t: "joins_ok env t \<and> (False \<longrightarrow> io_begun env t)"
  let ?r = "acts env [EvExecutorStart, EvIOStart] t"
  have "joins_ok env (t @ [EvExecutorStart])" using t by (intro joins_ok_snoc) simp_all
  moreover from this have "joins_ok env ((t @ [EvExecutorStart]) @ [EvIOStart])" by (rule joins_ok_snoc) simp
  ultimately show "(\<exists>evs. snd ?r = t @ evs) \<and> joins_ok env (snd ?r) \<and>
      (\<not> isl (fst ?r) \<and> True \<longrightarrow> io_begun env (snd ?r))"
    by (auto simp: bind_action_def act_def ret_def io_begun_def split: option.split)
qed

lemma runApp_joins: "joins_ok env (snd (runApp env c []))"
proof -
  have program: "io_action env False (run_program env c) True"
    unfolding run_program_def by (rule io_finally io_steps io_starts)+ (auto intro!: io_intros)
  have watch: "io_action env False (act env EvWatcherStart) False"
    "io_action env True (acts env [EvWatcherStop, EvCollectAll]) True"
    by (intro io_intros; simp)+
  have watched: "io_action env False (run_watched env c) True"
  proof (cases "ac_watchGenerated c \<and> manager_enabled c")
    case True
    show ?thesis unfolding run_watched_def if_P [OF True]
      by (rule io_finally [OF io_steps(2) [OF watch(1) io_steps(2) [OF program io_steps(2) [OF watch(2) io_steps(1)]]]]) simp
  next
    case False
    show ?thesis unfolding run_watched_def if_not_P [OF False] by (rule program)
  qed
  have parents: "io_action env False (make_parents env path) False" for path
    by (auto simp: make_parents_def intro!: io_intros split: option.splits)
  have dirs: "io_action env False (prepare_dirs env c) False"
    unfolding prepare_dirs_def by (auto intro!: io_intros parents)
  have rest: "io_action env True (finish_io env c) True" "io_action env True (report_end env c) True"
    "io_action env True (run_after env c shell) True" "io_action env True (wait_manager env) True"
    "io_action env True (wait_exit env c) True" for shell
    unfolding finish_io_def report_end_def run_after_def wait_manager_def wait_exit_def by (auto intro!: io_intros)
  have server: "io_action env False (act env EvServerStart) False" by (rule io_act) simp
  have body: "io_action env False (run_body env c shell) True" for shell
    unfolding run_body_def
    by (rule io_steps(2) [OF server io_steps(2) [OF watched io_steps(2) [OF rest(1) io_steps(2) [OF rest(2)]]]])
      (auto intro!: io_intros rest)
  have "io_action env False (run_objects env c shell) True" for shell
    unfolding run_objects_def by (intro io_scoped body) simp_all
  then have objects: "io_action env False (run_objects env c shell) False" for shell
    unfolding io_action_def by blast
  have "io_action env False (runApp env c) False"
    unfolding runApp_def Let_def
    by (auto intro!: io_intros dirs objects split: option.splits simp: io_action_def [of _ _ "throw e" for e] throw_def)
  moreover have "joins_ok env []" by (simp add: joins_ok_def)
  ultimately show ?thesis unfolding io_action_def by blast
qed

text \<open>The monitor follows every prefix of the trace.\<close>

lemma monitor_append: "monitor (t @ t') = fold (\<lambda>ev s. Option.bind s (monitor_step ev)) t' (monitor t)"
  by (simp add: monitor_def)

lemma monitor_None: "fold (\<lambda>ev s. Option.bind s (monitor_step ev)) t None = None"
  by (induction t) simp_all

lemma runApp_end:
  assumes "\<And>h. ae_throws env (EvPushHandler h) = None"
  shows "monitor (snd (runApp env c [])) = Some (False, [])"
proof -
  have "monitor [] = Some (False, [])" by (simp add: monitor_def)
  then show ?thesis using runApp_stopped [OF assms, of c] unfolding stopped_def by blast
qed

lemma runApp_monitored:
  assumes "\<And>h. ae_throws env (EvPushHandler h) = None" "snd (runApp env c []) = done @ todo"
  shows "\<exists>run hs. monitor done = Some (run, hs)"
proof -
  have "monitor (done @ todo) = Some (False, [])" using runApp_end [OF assms(1), of c] assms(2) by simp
  then show ?thesis by (cases "monitor done") (auto simp: monitor_append monitor_None)
qed

end
