(* ===== verification/SignalHandler.thy ===== *)
theory SignalHandler
  imports ProgramExecutor
begin

text \<open>
  The scoped signal handlers of src/src/SignalHandler.cpp: the single \<open>GlobalSignalHandler\<close>, its stack of
  handlers (named by numbers), and \<open>wait\<close>, which sleeps on a condition until a signal arrives. The mutex is
  recursive, and a signal handler runs on whatever thread receives the signal, also on the one that holds
  the mutex, in \<open>push\<close>, \<open>pop\<close> or \<open>wait\<close>; \<open>sig_step\<close> interleaves the steps of these operations accordingly. One step
  is an action on the state (the installation, the operation on the vector, the test, the sleep): a signal
  in the middle of an operation on the vector, or of \<open>notify\<close>, is not modelled, nor is a spurious wake-up.
\<close>

section \<open>State and operations\<close>

record signal_state =
  gs_installed :: bool
  gs_interrupted :: bool
  gs_stack :: "nat list"

definition GlobalSignalHandler_new :: signal_state where
  "GlobalSignalHandler_new = \<lparr>gs_installed = False, gs_interrupted = False, gs_stack = []\<rparr>"

definition SIGTERM :: int where "SIGTERM = 15"

text \<open>The second result lists the signals for which \<open>sigaction\<close> is called.\<close>

definition tryInstallGlobalHandler :: "signal_state \<Rightarrow> signal_state \<times> int list" where
  "tryInstallGlobalHandler g =
     (if \<not> gs_installed g then (g\<lparr>gs_installed := True\<rparr>, [SIGINT, SIGTERM]) else (g, []))"

definition gs_append :: "nat \<Rightarrow> signal_state \<Rightarrow> signal_state" where
  "gs_append handler g = g\<lparr>gs_stack := gs_stack g @ [handler]\<rparr>"

definition gs_push :: "nat \<Rightarrow> signal_state \<Rightarrow> signal_state" where
  "gs_push handler g = gs_append handler (fst (tryInstallGlobalHandler g))"

text \<open>\<open>pop_back\<close> of an empty vector is undefined.\<close>

definition gs_pop :: "signal_state \<Rightarrow> signal_state res" where
  "gs_pop g = (if gs_stack g = [] then Inl OutOfBounds else Inr (g\<lparr>gs_stack := butlast (gs_stack g)\<rparr>))"

text \<open>The method \<open>SignalHandler::notify\<close> runs the callback of the object.\<close>

definition SignalHandler_notify :: "(nat \<Rightarrow> int \<Rightarrow> 'w \<Rightarrow> 'w) \<Rightarrow> nat \<Rightarrow> int \<Rightarrow> 'w \<Rightarrow> 'w" where
  [simp]: "SignalHandler_notify callback handler = callback handler"

text \<open>
  \<open>notify\<close> calls the handlers from the last to the first: \<open>callback h signal\<close> is what the callback of
  handler \<open>h\<close> does to the rest of the program.
\<close>

definition gs_notify :: "(nat \<Rightarrow> int \<Rightarrow> 'w \<Rightarrow> 'w) \<Rightarrow> int \<Rightarrow> signal_state \<times> 'w \<Rightarrow> signal_state \<times> 'w" where
  "gs_notify callback signalValue gw =
     (case gw of (g, w) \<Rightarrow>
        (g\<lparr>gs_interrupted := True\<rparr>, fold (\<lambda>h. SignalHandler_notify callback h signalValue) (rev (gs_stack g)) w))"

definition globalSignalHandlerFunc ::
  "(nat \<Rightarrow> int \<Rightarrow> 'w \<Rightarrow> 'w) \<Rightarrow> int \<Rightarrow> signal_state \<times> 'w \<Rightarrow> signal_state \<times> 'w" where
  "globalSignalHandlerFunc callback signalValue gw =
     (if signalValue = SIGINT \<or> signalValue = SIGTERM then gs_notify callback signalValue gw else gw)"

text \<open>The object \<open>SignalHandler\<close>: its constructor and destructor, and the static \<open>interrupted\<close>.\<close>

definition SignalHandler_new :: "nat \<Rightarrow> signal_state \<Rightarrow> signal_state" where
  [simp]: "SignalHandler_new handler g = gs_push handler g"

definition SignalHandler_destroy :: "signal_state \<Rightarrow> signal_state res" where
  [simp]: "SignalHandler_destroy g = gs_pop g"

definition interrupted :: "signal_state \<Rightarrow> bool" where
  [simp]: "interrupted g = gs_interrupted g"

section \<open>Threads\<close>

text \<open>
  Where a thread stands that has entered an operation. In \<open>wait\<close>: it holds the mutex, it has seen that no signal has
  arrived, or it sleeps on the condition, with whether a broadcast has reached it. In \<open>push\<close> and \<open>pop\<close>, where it holds
  the mutex too: before the installation, before the operation on the vector, or about to leave.
\<close>

datatype thread_pc =
    W_Locked
  | W_Checked
  | W_Sleeps bool
  | P_Installing nat
  | P_Appending nat
  | P_Removing
  | P_Leaving

record sig_sys =
  sg_state :: signal_state
  sg_owner :: "nat option"
  sg_waits :: "nat \<Rightarrow> thread_pc option"
  sg_calls :: "(nat \<times> int) list"
  sg_nested :: bool

text \<open>\<open>S_Signal t s\<close>: signal \<open>s\<close> is delivered to thread \<open>t\<close>; the others are steps of thread \<open>t\<close>.\<close>

datatype sig_event =
    S_Push nat nat
  | S_Install nat
  | S_Append nat
  | S_Pop nat
  | S_Remove nat
  | S_Leave nat
  | S_Signal nat int
  | S_WaitLock nat
  | S_WaitCheck nat
  | S_WaitSleep nat
  | S_WaitWake nat

definition log_call :: "nat \<Rightarrow> int \<Rightarrow> (nat \<times> int) list \<Rightarrow> (nat \<times> int) list" where
  "log_call h signalValue calls = calls @ [(h, signalValue)]"

definition wake_all :: "(nat \<Rightarrow> thread_pc option) \<Rightarrow> nat \<Rightarrow> thread_pc option" where
  "wake_all waits t = (case waits t of Some (W_Sleeps _) \<Rightarrow> Some (W_Sleeps True) | pc \<Rightarrow> pc)"

definition enter :: "nat \<Rightarrow> thread_pc \<Rightarrow> sig_sys \<Rightarrow> sig_sys option" where
  "enter t pc s =
     (if sg_owner s = None \<and> sg_waits s t = None
      then Some (s\<lparr>sg_owner := Some t, sg_waits := (sg_waits s)(t \<mapsto> pc)\<rparr>) else None)"

fun sig_step :: "sig_event \<Rightarrow> sig_sys \<Rightarrow> sig_sys option" where
  "sig_step (S_Push t h) s = enter t (P_Installing h) s"
| "sig_step (S_Install t) s =
     (case sg_waits s t of
        Some (P_Installing h) \<Rightarrow>
          Some (s\<lparr>sg_state := fst (tryInstallGlobalHandler (sg_state s)), sg_waits := (sg_waits s)(t \<mapsto> P_Appending h)\<rparr>)
      | _ \<Rightarrow> None)"
| "sig_step (S_Append t) s =
     (case sg_waits s t of
        Some (P_Appending h) \<Rightarrow>
          Some (s\<lparr>sg_state := gs_append h (sg_state s), sg_waits := (sg_waits s)(t \<mapsto> P_Leaving)\<rparr>)
      | _ \<Rightarrow> None)"
| "sig_step (S_Pop t) s = enter t P_Removing s"
| "sig_step (S_Remove t) s =
     (case (sg_waits s t, SignalHandler_destroy (sg_state s)) of
        (Some P_Removing, Inr g) \<Rightarrow> Some (s\<lparr>sg_state := g, sg_waits := (sg_waits s)(t \<mapsto> P_Leaving)\<rparr>)
      | _ \<Rightarrow> None)"
| "sig_step (S_Leave t) s =
     (if sg_waits s t = Some P_Leaving
      then Some (s\<lparr>sg_owner := None, sg_waits := (sg_waits s)(t := None)\<rparr>) else None)"
| "sig_step (S_Signal t signalValue) s =
     (if signalValue \<noteq> SIGINT \<and> signalValue \<noteq> SIGTERM then Some s
      else if sg_owner s = None \<or> sg_owner s = Some t
      then (case gs_notify log_call signalValue (sg_state s, sg_calls s) of (g, calls) \<Rightarrow>
              Some (s\<lparr>sg_state := g, sg_calls := calls, sg_waits := wake_all (sg_waits s),
                sg_nested := (sg_nested s \<or> sg_waits s t = Some W_Checked)\<rparr>))
      else None)"
| "sig_step (S_WaitLock t) s = enter t W_Locked s"
| "sig_step (S_WaitCheck t) s =
     (if sg_waits s t = Some W_Locked
      then Some (if gs_interrupted (sg_state s)
                 then s\<lparr>sg_owner := None, sg_waits := (sg_waits s)(t := None)\<rparr>
                 else s\<lparr>sg_waits := (sg_waits s)(t \<mapsto> W_Checked)\<rparr>)
      else None)"
| "sig_step (S_WaitSleep t) s =
     (if sg_waits s t = Some W_Checked
      then Some (s\<lparr>sg_owner := None, sg_waits := (sg_waits s)(t \<mapsto> W_Sleeps False)\<rparr>) else None)"
| "sig_step (S_WaitWake t) s =
     (if sg_waits s t = Some (W_Sleeps True) \<and> sg_owner s = None
      then Some (s\<lparr>sg_waits := (sg_waits s)(t := None)\<rparr>) else None)"

definition sig_init :: sig_sys where
  "sig_init = \<lparr>sg_state = GlobalSignalHandler_new, sg_owner = None, sg_waits = (\<lambda>_. None),
     sg_calls = [], sg_nested = False\<rparr>"

text \<open>The destructor at the end of the process wakes whoever still waits.\<close>

definition GlobalSignalHandler_destroy :: "sig_sys \<Rightarrow> sig_sys" where
  "GlobalSignalHandler_destroy s = s\<lparr>sg_waits := wake_all (sg_waits s)\<rparr>"

inductive sig_reachable :: "sig_sys \<Rightarrow> bool" where
  init: "sig_reachable sig_init"
| step: "sig_reachable s \<Longrightarrow> sig_step e s = Some s' \<Longrightarrow> sig_reachable s'"

section \<open>Lemmas\<close>

lemma install_sel [simp]:
  "gs_stack (fst (tryInstallGlobalHandler g)) = gs_stack g"
  "gs_interrupted (fst (tryInstallGlobalHandler g)) = gs_interrupted g"
  by (simp_all add: tryInstallGlobalHandler_def)

lemma gs_append_sel [simp]:
  "gs_stack (gs_append h g) = gs_stack g @ [h]" "gs_interrupted (gs_append h g) = gs_interrupted g"
  by (simp_all add: gs_append_def)

lemma gs_push_sel [simp]:
  "gs_stack (gs_push h g) = gs_stack g @ [h]" "gs_interrupted (gs_push h g) = gs_interrupted g"
  by (simp_all add: gs_push_def)

lemma gs_pop_push: "gs_pop (gs_push h g) = Inr ((gs_push h g)\<lparr>gs_stack := gs_stack g\<rparr>)"
  by (simp add: gs_pop_def)

lemma gs_pop_interrupted: "gs_pop g = Inr g' \<Longrightarrow> gs_interrupted g' = gs_interrupted g"
  by (auto simp: gs_pop_def split: if_splits)

lemma fold_log_call: "fold (\<lambda>h. log_call h v) hs calls = calls @ map (\<lambda>h. (h, v)) hs"
  by (induction hs arbitrary: calls) (simp_all add: log_call_def)

lemma gs_notify_log:
  "gs_notify log_call v (g, calls) = (g\<lparr>gs_interrupted := True\<rparr>, calls @ map (\<lambda>h. (h, v)) (rev (gs_stack g)))"
  by (simp add: gs_notify_def fold_log_call)

text \<open>
  A thread in an operation owns the mutex unless it sleeps; as long as no signal has been handled by a thread between
  its test and its sleep, what it has seen is still true.
\<close>

definition holds_mutex :: "thread_pc option \<Rightarrow> bool" where
  "holds_mutex pc \<longleftrightarrow> (case pc of None \<Rightarrow> False | Some (W_Sleeps b) \<Rightarrow> False | Some _ \<Rightarrow> True)"

lemma holds_mutex_simps [simp]:
  "holds_mutex None = False" "holds_mutex (Some (W_Sleeps b)) = False" "holds_mutex (Some W_Locked)"
  "holds_mutex (Some W_Checked)" "holds_mutex (Some (P_Installing h))" "holds_mutex (Some (P_Appending h))"
  "holds_mutex (Some P_Removing)" "holds_mutex (Some P_Leaving)"
  by (simp_all add: holds_mutex_def)

definition sig_inv :: "sig_sys \<Rightarrow> bool" where
  "sig_inv s \<longleftrightarrow>
     (\<forall>t. holds_mutex (sg_waits s t) \<longleftrightarrow> sg_owner s = Some t) \<and>
     (\<not> sg_nested s \<longrightarrow>
       (\<forall>t. sg_waits s t = Some W_Checked \<or> sg_waits s t = Some (W_Sleeps False) \<longrightarrow>
          \<not> gs_interrupted (sg_state s)))"

lemma wake_all_holds [simp]: "holds_mutex (wake_all w t) = holds_mutex (w t)"
  by (simp add: wake_all_def split: option.split thread_pc.split)

lemma wake_all_cases:
  "wake_all w t = Some W_Locked \<longleftrightarrow> w t = Some W_Locked"
  "wake_all w t = Some W_Checked \<longleftrightarrow> w t = Some W_Checked"
  "wake_all w t \<noteq> Some (W_Sleeps False)"
  by (auto simp: wake_all_def split: option.splits thread_pc.splits)

lemma destroy_wakes: "sg_waits (GlobalSignalHandler_destroy s) t \<noteq> Some (W_Sleeps False)"
  by (simp add: GlobalSignalHandler_destroy_def wake_all_cases)

lemma sig_inv_owner: "sig_inv s \<Longrightarrow> holds_mutex (sg_waits s t) = (sg_owner s = Some t)"
  by (simp add: sig_inv_def)

lemma sig_invD:
  "sig_inv s \<Longrightarrow> sg_waits s t = Some W_Locked \<Longrightarrow> sg_owner s = Some t"
  "sig_inv s \<Longrightarrow> sg_waits s t = Some W_Checked \<Longrightarrow> sg_owner s = Some t"
  "sig_inv s \<Longrightarrow> sg_waits s t = Some (P_Installing h) \<Longrightarrow> sg_owner s = Some t"
  "sig_inv s \<Longrightarrow> sg_waits s t = Some (P_Appending h) \<Longrightarrow> sg_owner s = Some t"
  "sig_inv s \<Longrightarrow> sg_waits s t = Some P_Removing \<Longrightarrow> sg_owner s = Some t"
  "sig_inv s \<Longrightarrow> sg_waits s t = Some P_Leaving \<Longrightarrow> sg_owner s = Some t"
  by (metis sig_inv_owner holds_mutex_simps(3-8))+

lemma sig_step_owner:
  assumes "sig_inv s" "sig_step e s = Some s'"
  shows "holds_mutex (sg_waits s' u) = (sg_owner s' = Some u)"
  using assms(2) sig_invD [OF assms(1)] sig_inv_owner [OF assms(1)]
  by (cases e) (auto simp: enter_def gs_notify_log split: if_splits option.splits thread_pc.splits sum.splits)

lemma sig_step_inv:
  assumes "sig_inv s" "sig_step e s = Some s'"
  shows "sig_inv s'"
proof -
  have "\<not> gs_interrupted (sg_state s')"
    if n: "\<not> sg_nested s'" and u: "sg_waits s' u = Some W_Checked \<or> sg_waits s' u = Some (W_Sleeps False)" for u
  proof (cases e)
    case (S_Signal t v)
    have "sg_owner s = Some u" if "sg_waits s u = Some W_Checked" using sig_invD(2) [OF assms(1) that] .
    then show ?thesis using assms n u S_Signal
      by (auto simp: sig_inv_def gs_notify_log wake_all_cases split: if_splits)
  qed (use assms n u in \<open>auto simp: sig_inv_def enter_def gs_pop_interrupted
      split: if_splits option.splits thread_pc.splits sum.splits\<close>)
  then show ?thesis using sig_step_owner [OF assms] unfolding sig_inv_def by blast
qed

lemma sig_reachable_inv: "sig_reachable s \<Longrightarrow> sig_inv s"
proof (induction rule: sig_reachable.induct)
  case init
  then show ?case by (simp add: sig_inv_def sig_init_def)
qed (use sig_step_inv in blast)

section \<open>Properties\<close>

text \<open>C22: Signals are delivered to the handlers innermost first, each once, and a signal wakes every
  thread that sleeps in \<open>wait\<close>: in a reachable state no thread sleeps unsignalled after a signal,
  unless a signal has been handled by a thread that was itself inside \<open>wait\<close>.\<close>

theorem signal_wakes_waiters:
  assumes "sig_reachable s" "\<not> sg_nested s"
  shows "(gs_interrupted (sg_state s) \<longrightarrow> sg_waits s t \<noteq> Some (W_Sleeps False)) \<and>
    (v \<in> {SIGINT, SIGTERM} \<and> sg_owner s = None \<longrightarrow>
      (\<exists>s'. sig_step (S_Signal t v) s = Some s' \<and> gs_interrupted (sg_state s') \<and>
         sg_calls s' = sg_calls s @ map (\<lambda>h. (h, v)) (rev (gs_stack (sg_state s)))))"
  using sig_reachable_inv [OF assms(1)] assms(2) by (auto simp: sig_inv_def gs_notify_log)

text \<open>A run that ends in the sleep of thread 0, with two handlers installed.\<close>

definition sleeping :: sig_sys where
  "sleeping = \<lparr>sg_state = gs_push 6 (gs_push 5 GlobalSignalHandler_new), sg_owner = None,
     sg_waits = (\<lambda>_. None)(0 \<mapsto> W_Sleeps False), sg_calls = [], sg_nested = False\<rparr>"

abbreviation sig_run :: "sig_event list \<Rightarrow> sig_sys \<Rightarrow> sig_sys option" where
  "sig_run \<equiv> run_events sig_step"

lemma sig_run_reachable: "sig_reachable s \<Longrightarrow> sig_run es s = Some s' \<Longrightarrow> sig_reachable s'"
  by (induction es arbitrary: s) (auto intro: sig_reachable.step split: option.splits)

lemma sleeping_reachable: "sig_reachable sleeping"
proof (rule sig_reachable.step [OF sig_run_reachable [OF sig_reachable.init]])
  show "sig_run [S_Push 0 5, S_Install 0, S_Append 0, S_Leave 0, S_Push 0 6, S_Install 0, S_Append 0, S_Leave 0,
      S_WaitLock 0, S_WaitCheck 0] sig_init = Some
    (sleeping\<lparr>sg_owner := Some 0, sg_waits := (\<lambda>_. None)(0 \<mapsto> W_Checked)\<rparr>)"
    by (simp add: sig_init_def sleeping_def enter_def gs_push_def GlobalSignalHandler_new_def)
  show "sig_step (S_WaitSleep 0) (sleeping\<lparr>sg_owner := Some 0, sg_waits := (\<lambda>_. None)(0 \<mapsto> W_Checked)\<rparr>) =
    Some sleeping"
    by (simp add: sleeping_def)
qed

lemma signal_wakes_waiters_witness:
  "\<exists>s'. sig_step (S_Signal 0 15) sleeping = Some s' \<and> sg_calls s' = [(6, 15), (5, 15)]"
  using signal_wakes_waiters [OF sleeping_reachable, of 0 15]
  by (auto simp: sleeping_def SIGTERM_def GlobalSignalHandler_new_def)

text \<open>Undisturbed, the steps of \<open>push\<close> and \<open>pop\<close> make up the constructor and the destructor of a handler.\<close>

lemma push_phases:
  assumes "sg_owner s = None" "sg_waits s t = None"
  shows "sig_run [S_Push t h, S_Install t, S_Append t, S_Leave t] s = Some (s\<lparr>sg_state := SignalHandler_new h (sg_state s)\<rparr>)"
proof -
  have "(sg_waits s)(t := None) = sg_waits s" using assms(2) by auto
  then show ?thesis using assms by (simp add: enter_def gs_push_def)
qed

lemma pop_phases:
  assumes "sg_owner s = None" "sg_waits s t = None" "SignalHandler_destroy (sg_state s) = Inr g"
  shows "sig_run [S_Pop t, S_Remove t, S_Leave t] s = Some (s\<lparr>sg_state := g\<rparr>)"
proof -
  have "(sg_waits s)(t := None) = sg_waits s" using assms(2) by auto
  then show ?thesis using assms by (simp add: enter_def)
qed

text \<open>Whatever a thread does that is no signal, it wakes nobody and takes back no interruption.\<close>

fun is_signal :: "sig_event \<Rightarrow> bool" where
  "is_signal (S_Signal t v) \<longleftrightarrow> v = SIGINT \<or> v = SIGTERM"
| "is_signal e \<longleftrightarrow> False"

definition missed :: "nat \<Rightarrow> sig_sys \<Rightarrow> bool" where
  "missed t s \<longleftrightarrow> gs_interrupted (sg_state s) \<and> sg_waits s t = Some (W_Sleeps False)"

lemma missed_step: "missed t s \<Longrightarrow> sig_step e s = Some s' \<Longrightarrow> \<not> is_signal e \<Longrightarrow> missed t s'"
  by (cases e) (auto simp: missed_def enter_def gs_pop_interrupted
      split: if_splits option.splits thread_pc.splits sum.splits bool.splits)

lemma missed_run:
  "missed t s \<Longrightarrow> sig_run es s = Some s' \<Longrightarrow> \<forall>e \<in> set es. \<not> is_signal e \<Longrightarrow> missed t s'"
  by (induction es arbitrary: s) (auto split: option.splits dest: missed_step)

text \<open>C39: A signal can be lost. Whenever a thread stands in \<open>wait\<close> between its test and its sleep and the signal is
  delivered to that very thread, the handler runs (the mutex is recursive), all callbacks are called and every other
  sleeper is woken; but the thread then goes to sleep although \<open>interrupted\<close> is set, and however the threads
  go on it sleeps, unsignalled, until another SIGINT or SIGTERM arrives.\<close>

theorem signal_lost_in_window:
  assumes "sig_reachable s" "sg_waits s t = Some W_Checked" "v \<in> {SIGINT, SIGTERM}"
  shows "\<exists>s'. sig_run [S_Signal t v, S_WaitSleep t] s = Some s' \<and>
    sg_calls s' = sg_calls s @ map (\<lambda>h. (h, v)) (rev (gs_stack (sg_state s))) \<and>
    (\<forall>u b. sg_waits s u = Some (W_Sleeps b) \<longrightarrow> sg_waits s' u = Some (W_Sleeps True)) \<and>
    gs_interrupted (sg_state s') \<and> sg_waits s' t = Some (W_Sleeps False) \<and>
    (\<forall>es s''. sig_run es s' = Some s'' \<and> (\<forall>e \<in> set es. \<not> is_signal e) \<longrightarrow>
       gs_interrupted (sg_state s'') \<and> sg_waits s'' t = Some (W_Sleeps False))"
proof -
  have own: "sg_owner s = Some t" using sig_reachable_inv [OF assms(1)] assms(2) by (simp add: sig_inv_def) (metis holds_mutex_simps(4))
  define s' where "s' = s\<lparr>sg_state := (sg_state s)\<lparr>gs_interrupted := True\<rparr>, sg_owner := None,
    sg_calls := sg_calls s @ map (\<lambda>h. (h, v)) (rev (gs_stack (sg_state s))),
    sg_waits := (wake_all (sg_waits s))(t \<mapsto> W_Sleeps False), sg_nested := True\<rparr>"
  have run: "sig_run [S_Signal t v, S_WaitSleep t] s = Some s'"
    using own assms(2,3) by (auto simp: gs_notify_log wake_all_cases s'_def)
  have missed: "missed t s'" by (simp add: missed_def s'_def)
  have others: "sg_waits s u = Some (W_Sleeps b) \<Longrightarrow> sg_waits s' u = Some (W_Sleeps True)" for u b
    using assms(2) by (auto simp: s'_def wake_all_def)
  have calls: "sg_calls s' = sg_calls s @ map (\<lambda>h. (h, v)) (rev (gs_stack (sg_state s)))" by (simp add: s'_def)
  show ?thesis
    using run calls others missed missed_run [OF missed] unfolding missed_def by blast
qed

lemma signal_lost_in_window_witness:
  "\<exists>s. sig_run [S_WaitLock 0, S_WaitCheck 0] sig_init = Some s \<and>
     (\<exists>s'. sig_run [S_Signal 0 15, S_WaitSleep 0] s = Some s' \<and> gs_interrupted (sg_state s') \<and>
        sg_waits s' 0 = Some (W_Sleeps False))"
proof -
  obtain s where s: "sig_run [S_WaitLock 0, S_WaitCheck 0] sig_init = Some s" "sg_waits s 0 = Some W_Checked"
    by (simp add: sig_init_def enter_def GlobalSignalHandler_new_def)
  have v: "(15 :: int) \<in> {SIGINT, SIGTERM}" by (simp add: SIGTERM_def)
  show ?thesis
    using signal_lost_in_window [OF sig_run_reachable [OF sig_reachable.init s(1)] s(2) v] s(1) by blast
qed

end
