(* ===== verification/RunSystem.thy ===== *)
theory RunSystem
  imports RunTrace ExecutorSystem SignalHandler
begin

text \<open>
  The main program at work (src/src/main.cpp, \<open>MainApp::runApp\<close>): the calls of a trace of \<open>runApp\<close> are carried
  out one after the other on the state of the components they are calls of, the executor with its threads
  (theory \<open>ExecutorSystem\<close>), the manager of status documents (theory \<open>PersistCallback\<close>) and the stack of
  signal handlers (theory \<open>SignalHandler\<close>), while the other threads, the operating system and termination
  signals act in between. A call whose trace says that it throws can only be carried out when the
  operation throws that exception, and a call of which the trace says that it returns when it returns.
\<close>

section \<open>State\<close>

text \<open>
  Where the main thread stands in its own call of \<open>kill\<close>: it may wait for \<open>_killMutex\<close>, or hold it. What it
  reads of the end of the program it reads in two steps: \<open>rs_seen\<close> is the status it has read, before it
  reads the exit code or the signal.
\<close>

datatype kill_turn = NotKilling | KillQueued | KillActive

record rsys =
  rs_done :: "app_event list"
  rs_todo :: "app_event list"
  rs_px :: psys
  rs_waiting :: bool
  rs_killing :: kill_turn
  rs_seen :: "ProgramStatus option"
  rs_mgr :: pc_manager
  rs_world :: world
  rs_sig :: signal_state
  rs_io :: bool

text \<open>
  The steps of the main thread (\<open>R_Look\<close> reads the status; with what \<open>pipe\<close> and \<open>fork\<close> return for \<open>R_Start\<close>), a signal, the steps of the
  other threads around the executor, a report of the thread that watches generated files, and the end of the
  thread that reads the output, from which on \<open>rs_io\<close> holds.
\<close>

datatype 'j run_step =
    R_Call
  | R_Start "(int \<times> int) option" string int
  | R_Wait
  | R_Woken
  | R_Kill
  | R_KillTurn
  | R_KillReturn
  | R_Look
  | R_Signal int
  | R_Other pevent
  | R_File string "'j json"
  | R_IOEnds

fun handler_id :: "handler \<Rightarrow> nat" where
  "handler_id KillOnSignal = 0"
| "handler_id StopDirSize = 1"
| "handler_id InterruptManager = 2"
| "handler_id LogSignal = 3"

text \<open>
  What the callback of a handler does to the executor: the first one calls \<open>kill\<close>, the others do not touch
  it. The call is queued; a call of \<open>kill\<close> on a program that is not \<open>RUNNING\<close> returns at once.
\<close>

definition run_callback :: "nat \<Rightarrow> int \<Rightarrow> psys \<Rightarrow> psys" where
  "run_callback h signalValue p =
     (if h = handler_id KillOnSignal
      then (case kill_event (\<lambda>_. 0) PKillCall p of None \<Rightarrow> p | Some p' \<Rightarrow> p') else p)"

section \<open>Steps\<close>

definition finish_call :: "rsys \<Rightarrow> rsys" where
  "finish_call s = s\<lparr>rs_done := rs_done s @ [hd (rs_todo s)], rs_todo := tl (rs_todo s)\<rparr>"

text \<open>
  The effect of a call, and whether it throws; \<open>None\<close> when it does not return, or not yet, or when it is not what
  the trace says. \<open>ioController.join()\<close> returns only when the thread that reads the output has ended, and
  \<open>signalHandler.wait()\<close> when a signal has arrived; the calls that wait for the program are steps of their own below.
  The calls without a component here (the server, the watcher, the executor of the command that runs afterwards)
  end as the trace says.
\<close>

fun call_effect :: "app_env \<Rightarrow> app_config \<Rightarrow> 'j services \<Rightarrow> app_event \<Rightarrow> rsys \<Rightarrow> (err option \<times> rsys) option" where
  "call_effect env c sv (EvProgramStarted host port) s =
     (case programStarted sv host port (rs_mgr s) (rs_world s) of
        None \<Rightarrow> None
      | Some (Inl e) \<Rightarrow> Some (Some e, s\<lparr>rs_mgr := (rs_mgr s)\<lparr>pc_hostName := host, pc_port := port\<rparr>\<rparr>)
      | Some (Inr (p, w)) \<Rightarrow> Some (None, s\<lparr>rs_mgr := p, rs_world := w\<rparr>))"
| "call_effect env c sv (EvProgramFinished workDirSize) s =
     (case rs_seen s of
        None \<Rightarrow> None
      | Some st \<Rightarrow>
          (case programFinished sv (st, px_exec (rs_px s)) workDirSize (rs_mgr s) (rs_world s) of
             None \<Rightarrow> None
           | Some (Inl e) \<Rightarrow> Some (Some e, s\<lparr>rs_seen := None\<rparr>)
           | Some (Inr w) \<Rightarrow> Some (None, s\<lparr>rs_seen := None, rs_world := w\<rparr>)))"
| "call_effect env c sv (EvPushHandler h) s =
     Some (ae_throws env (EvPushHandler h), s\<lparr>rs_sig := SignalHandler_new (handler_id h) (rs_sig s)\<rparr>)"
| "call_effect env c sv EvPopHandler s =
     (case SignalHandler_destroy (rs_sig s) of
        Inl _ \<Rightarrow> None
      | Inr g \<Rightarrow> Some (ae_throws env EvPopHandler, s\<lparr>rs_sig := g\<rparr>))"
| "call_effect env c sv (EvNewRunAfter args environ) s =
     (case rs_seen s of
        None \<Rightarrow> None
      | Some st \<Rightarrow>
          (if environ = run_after_environ (ae_dec env) c (st, px_exec (rs_px s))
           then Some (ae_throws env (EvNewRunAfter args environ), s\<lparr>rs_seen := None\<rparr>) else None))"
| "call_effect env c sv EvManagerInterrupt s =
     (if interrupted (rs_sig s)
      then Some (ae_throws env EvManagerInterrupt, s\<lparr>rs_mgr := PersistAndCallbackManager_interrupt (rs_mgr s)\<rparr>) else None)"
| "call_effect env c sv EvManagerWait s =
     Some (ae_throws env EvManagerWait, s\<lparr>rs_mgr := PersistAndCallbackManager_wait (rs_mgr s)\<rparr>)"
| "call_effect env c sv EvIOJoin s = (if rs_io s then Some (ae_throws env EvIOJoin, s) else None)"
| "call_effect env c sv EvWaitSignal s =
     (if interrupted (rs_sig s) then Some (ae_throws env EvWaitSignal, s) else None)"
| "call_effect env c sv EvExecutorStart s = None"
| "call_effect env c sv EvWaitProgram s = None"
| "call_effect env c sv EvKill s = None"
| "call_effect env c sv EvDestroyExecutor s = None"
| "call_effect env c sv ev s = Some (ae_throws env ev, s)"

text \<open>The events of the executor that the other threads may take: not those of the main thread, number 0.\<close>

fun other_thread :: "pevent \<Rightarrow> rsys \<Rightarrow> bool" where
  "other_thread (PStart pip err pid) s = False"
| "other_thread (PWait i t) s = (i \<noteq> 0)"
| "other_thread (PWoken i) s = (i \<noteq> 0)"
| "other_thread (PTimeout i) s = (i \<noteq> 0)"
| "other_thread PKillLock s =
     (case rs_killing s of NotKilling \<Rightarrow> True | KillQueued \<Rightarrow> px_queue (rs_px s) > 1 | KillActive \<Rightarrow> False)"
| "other_thread e s = True"

definition watching :: "rsys \<Rightarrow> bool" where
  "watching s \<longleftrightarrow> EvWatcherStart \<in> set (rs_done s) \<and> EvDestroyWatcher \<notin> set (rs_done s)"

text \<open>
  The thread that reads the output leaves its loop when \<open>readOutput\<close> finds the end of the output or fails: the
  system decides, from the end of the child and from the descriptor that \<open>kill\<close> closes when it gives up.
\<close>

definition output_over :: "app_env \<Rightarrow> rsys \<Rightarrow> bool" where
  "output_over env s \<longleftrightarrow> ae_readEnds env (px_child (rs_px s) \<noteq> Alive) (pipe_closed (px_exec (rs_px s)))"

text \<open>A call that ends as the trace says: \<open>r\<close> is the exception it has thrown.\<close>

definition ends_as :: "app_env \<Rightarrow> app_event \<Rightarrow> err option \<Rightarrow> rsys \<Rightarrow> rsys option" where
  "ends_as env ev r s = (if r = ae_throws env ev then Some (finish_call s) else None)"

definition next_call :: "rsys \<Rightarrow> app_event option" where
  "next_call s = (case rs_todo s of [] \<Rightarrow> None | ev # _ \<Rightarrow> Some ev)"

text \<open>The calls that begin with a look at the status of the program.\<close>

fun reads_status :: "app_event \<Rightarrow> bool" where
  "reads_status (EvProgramFinished workDirSize) = True"
| "reads_status (EvNewRunAfter args environ) = True"
| "reads_status ev = False"

fun rs_event ::
  "app_env \<Rightarrow> app_config \<Rightarrow> 'j services \<Rightarrow> (nat \<Rightarrow> int) \<Rightarrow> 'j run_step \<Rightarrow> rsys \<Rightarrow> rsys option" where
  "rs_event env c sv W R_Call s =
     (case next_call s of
        None \<Rightarrow> None
      | Some ev \<Rightarrow> (case call_effect env c sv ev s of None \<Rightarrow> None | Some (r, s') \<Rightarrow> ends_as env ev r s'))"
| "rs_event env c sv W (R_Start pip err pid) s =
     (if next_call s = Some EvExecutorStart then
        (case start_parent pip err pid (px_exec (rs_px s)) of
           Inl e \<Rightarrow> ends_as env EvExecutorStart (Some e) s
         | Inr _ \<Rightarrow>
             (case px_event W (PStart pip err pid) (rs_px s) of
                None \<Rightarrow> None | Some p \<Rightarrow> ends_as env EvExecutorStart None (s\<lparr>rs_px := p\<rparr>)))
      else None)"
| "rs_event env c sv W R_Wait s =
     (if next_call s = Some EvWaitProgram \<and> \<not> rs_waiting s then
        (case wait_enter 0 (px_exec (rs_px s)) of
           Inl e \<Rightarrow> ends_as env EvWaitProgram (Some e) s
         | Inr (WaitReturns _) \<Rightarrow> ends_as env EvWaitProgram None s
         | Inr (WaitBlocks _) \<Rightarrow>
             (case px_event W (PWait 0 0) (rs_px s) of
                None \<Rightarrow> None
              | Some p \<Rightarrow>
                  (if ae_throws env EvWaitProgram = None then Some (s\<lparr>rs_px := p, rs_waiting := True\<rparr>) else None)))
      else None)"
| "rs_event env c sv W R_Woken s =
     (if rs_waiting s then
        (case px_event W (PWoken 0) (rs_px s) of
           None \<Rightarrow> None
         | Some p \<Rightarrow> ends_as env EvWaitProgram None (s\<lparr>rs_px := p, rs_waiting := False\<rparr>))
      else None)"
| "rs_event env c sv W R_Kill s =
     (if (next_call s = Some EvKill \<or> next_call s = Some EvDestroyExecutor) \<and> rs_killing s = NotKilling then
        (case kill_event W PKillCall (rs_px s) of
           None \<Rightarrow> Some (finish_call s)
         | Some p \<Rightarrow> Some (s\<lparr>rs_px := p, rs_killing := KillQueued\<rparr>))
      else None)"
| "rs_event env c sv W R_KillTurn s =
     (if rs_killing s = KillQueued then
        (case kill_event W PKillLock (rs_px s) of
           None \<Rightarrow> None | Some p \<Rightarrow> Some (s\<lparr>rs_px := p, rs_killing := KillActive\<rparr>))
      else None)"
| "rs_event env c sv W R_KillReturn s =
     (if rs_killing s = KillActive \<and> px_kill (rs_px s) = K_idle
      then Some (finish_call (s\<lparr>rs_killing := NotKilling\<rparr>)) else None)"
| "rs_event env c sv W R_Look s =
     (case next_call s of
        None \<Rightarrow> None
      | Some ev \<Rightarrow>
          (if reads_status ev \<and> rs_seen s = None then Some (s\<lparr>rs_seen := Some (pe_status (px_exec (rs_px s)))\<rparr>)
           else None))"
| "rs_event env c sv W (R_Signal signalValue) s =
     (case globalSignalHandlerFunc run_callback signalValue (rs_sig s, rs_px s) of
        (g, p) \<Rightarrow> Some (s\<lparr>rs_sig := g, rs_px := p\<rparr>))"
| "rs_event env c sv W (R_Other e) s =
     (if other_thread e s then
        (case px_event W e (rs_px s) of None \<Rightarrow> None | Some p \<Rightarrow> Some (s\<lparr>rs_px := p\<rparr>))
      else None)"
| "rs_event env c sv W (R_File fileTag jsonObject) s =
     (if watching s then
        (case fileGenerated sv fileTag jsonObject (rs_mgr s, rs_world s) of
           None \<Rightarrow> None | Some (p, w) \<Rightarrow> Some (s\<lparr>rs_mgr := p, rs_world := w\<rparr>))
      else None)"
| "rs_event env c sv W R_IOEnds s =
     (if EvIOStart \<in> set (rs_done s) \<and> \<not> rs_io s \<and> output_over env s then Some (s\<lparr>rs_io := True\<rparr>) else None)"

definition rs_init :: "app_env \<Rightarrow> app_config \<Rightarrow> executor \<Rightarrow> pc_manager \<Rightarrow> rsys" where
  "rs_init env c ex p = \<lparr>rs_done = [], rs_todo = snd (runApp env c []), rs_px = psys_init ex, rs_waiting = False,
     rs_killing = NotKilling, rs_seen = None, rs_mgr = p, rs_world = \<lparr>wo_actions = [], wo_posts = 0\<rparr>,
     rs_sig = GlobalSignalHandler_new, rs_io = False\<rparr>"

definition rs_starts :: "app_env \<Rightarrow> app_config \<Rightarrow> rsys \<Rightarrow> bool" where
  "rs_starts env c s \<longleftrightarrow>
     (\<exists>ex getenv tryParse port0.
        ProgramExecutor_new (ac_args c) (ac_environ c) (ac_workDir c) True ''Program'' = Inr ex \<and>
        s = rs_init env c ex (PersistAndCallbackManager_new getenv tryParse port0 (ac_statusFile c)
              (ac_callbackAPI c) (ac_callbackToken c) (60 * 1000)))"

inductive rs_reachable :: "app_env \<Rightarrow> app_config \<Rightarrow> 'j services \<Rightarrow> (nat \<Rightarrow> int) \<Rightarrow> rsys \<Rightarrow> bool"
  for env c sv W where
  init: "rs_starts env c s \<Longrightarrow> rs_reachable env c sv W s"
| step: "rs_reachable env c sv W s \<Longrightarrow> rs_event env c sv W e s = Some s' \<Longrightarrow> rs_reachable env c sv W s'"

end
