(* ===== verification/RunInvariant.thy ===== *)
theory RunInvariant
  imports RunSystem
begin

text \<open>
  The invariants of the main program at work (theory \<open>RunSystem\<close>) and the proof that every step keeps them:
  how far the main thread is in the trace of \<open>runApp\<close>, that the program only runs inside its scope and
  under its signal handler, and which status documents have been written.
\<close>

section \<open>The executor between the calls of the main thread\<close>

text \<open>What the other threads may have done to the executor, as far as the main thread is concerned.\<close>

definition main_wait :: "psys \<Rightarrow> int option option" where
  "main_wait p = map_option fst (px_waits p 0)"

text \<open>
  A status that has been read is the truth about the child; only a call of \<open>kill\<close> that gives up can still
  replace it.
\<close>

definition seen_status :: "psys \<Rightarrow> ProgramStatus \<Rightarrow> bool" where
  "seen_status p st \<longleftrightarrow> st \<notin> {NOT_STARTED, RUNNING} \<and> exit_ok st (px_child p) (pe_waitStatus (px_exec p)) \<and>
     (st \<noteq> CANNOT_KILL \<longrightarrow> px_status p \<in> {st, CANNOT_KILL})"

definition px_later :: "psys \<Rightarrow> psys \<Rightarrow> bool" where
  "px_later p p' \<longleftrightarrow> px_inv p' \<and> main_wait p' = main_wait p \<and> (stopping p \<longrightarrow> stopping p') \<and>
     (px_status p \<noteq> RUNNING \<longrightarrow> px_status p' \<noteq> RUNNING) \<and>
     (px_status p = NOT_STARTED \<longleftrightarrow> px_status p' = NOT_STARTED) \<and>
     (\<forall>st. seen_status p st \<longrightarrow> seen_status p' st) \<and>
     (\<forall>st. px_child p = Reaped st \<longrightarrow> px_child p' = Reaped st)"

fun main_event :: "pevent \<Rightarrow> bool" where
  "main_event (PStart pip err pid) = True"
| "main_event (PWait i t) = (i = 0)"
| "main_event (PWoken i) = (i = 0)"
| "main_event (PTimeout i) = (i = 0)"
| "main_event e = False"

lemma other_thread_main: "other_thread e s \<Longrightarrow> \<not> main_event e"
  by (cases "(e, s)" rule: other_thread.cases) auto

lemma px_later_refl: "px_inv p \<Longrightarrow> px_later p p"
  by (simp add: px_later_def)

lemma px_later_trans: "px_later p q \<Longrightarrow> px_later q r \<Longrightarrow> px_later p r"
  by (auto simp: px_later_def)

lemma px_event_running:
  "px_event W e p = Some p' \<Longrightarrow> (\<forall>pip err pid. e \<noteq> PStart pip err pid) \<Longrightarrow> px_status p \<noteq> RUNNING \<Longrightarrow>
   px_status p' \<noteq> RUNNING"
  by (cases e) (auto simp: Let_def wait_publish_def split: if_splits sum.splits option.splits prod.splits
      bool.splits child.splits bg_thread.splits kill_pc.splits wait_step.splits)

lemma px_event_fresh:
  "px_inv p \<Longrightarrow> px_event W e p = Some p' \<Longrightarrow> (\<forall>pip err pid. e \<noteq> PStart pip err pid) \<Longrightarrow> px_status p = NOT_STARTED \<Longrightarrow>
   px_status p' = NOT_STARTED"
  by (cases e) (auto simp: px_inv_def px_fresh_def wait_enter_cases split: if_splits sum.splits option.splits prod.splits
      bool.splits child.splits bg_thread.splits kill_pc.splits wait_step.splits)

lemma px_event_seen:
  assumes "px_inv p" "px_event W e p = Some p'" "\<forall>pip err pid. e \<noteq> PStart pip err pid" "seen_status p st"
  shows "seen_status p' st"
proof (cases e)
  case PPublish
  then obtain r w where bg: "px_bg p = BgHas r w" using assms(2) by (auto split: bg_thread.splits)
  have "r > 0 \<and> px_child p = Reaped w" if "px_child p = Reaped w'" for w'
    using assms(1) bg that by (auto simp: px_inv_def)
  then show ?thesis using PPublish bg assms
    by (cases st) (auto simp: seen_status_def wait_publish_def Let_def split: if_splits)
next
  case PReap
  then show ?thesis using assms by (cases st) (auto simp: seen_status_def split: bg_thread.splits child.splits)
next
  case (PChildExit status)
  then show ?thesis using assms by (cases st) (auto simp: seen_status_def split: if_splits)
qed (use assms in \<open>auto simp: seen_status_def Let_def split: if_splits sum.splits option.splits prod.splits
      bool.splits child.splits bg_thread.splits kill_pc.splits wait_step.splits\<close>)

lemma px_event_main_wait:
  "px_event W e p = Some p' \<Longrightarrow> \<not> main_event e \<Longrightarrow> main_wait p' = main_wait p"
  by (cases e) (auto simp: Let_def main_wait_def broadcast_waits option.map_comp comp_def case_prod_beta
      split: if_splits sum.splits option.splits prod.splits
      bool.splits child.splits bg_thread.splits kill_pc.splits wait_step.splits)

lemma px_event_later:
  assumes "px_inv p" "px_event W e p = Some p'" "\<not> main_event e"
  shows "px_later p p'"
proof -
  have "\<forall>pip err pid. e \<noteq> PStart pip err pid" using assms(3) by auto
  then show ?thesis
    using assms px_event_inv px_event_stays px_event_running px_event_fresh px_event_seen px_event_main_wait stop.step_inv
    unfolding px_later_def by meson
qed

lemma run_callback_later:
  assumes "px_inv p"
  shows "px_later p (run_callback h v p)"
proof (cases "kill_event (\<lambda>_. 0) PKillCall p")
  case None
  then show ?thesis using px_later_refl [OF assms] by (simp add: run_callback_def)
next
  case (Some p')
  then have "px_later p p'" using px_event_later [OF assms kill_event_px [OF Some]] by simp
  then show ?thesis using px_later_refl [OF assms] Some by (simp add: run_callback_def)
qed

lemma callbacks_later: "px_inv p \<Longrightarrow> px_later p (fold (\<lambda>h. run_callback h v) hs p)"
proof (induction hs arbitrary: p)
  case (Cons h hs)
  have "px_inv (run_callback h v p)" using run_callback_later [OF Cons.prems] by (simp add: px_later_def)
  then show ?case using Cons.IH run_callback_later [OF Cons.prems] px_later_trans by (simp, blast)
qed (simp add: px_later_refl)

text \<open>A queued call of \<open>kill\<close> stays queued until its turn comes.\<close>

lemma callbacks_queue_stays: "px_queue p \<le> px_queue (fold (\<lambda>h. run_callback h v) hs p)"
proof (induction hs arbitrary: p)
  case (Cons h hs)
  have "px_queue p \<le> px_queue (run_callback h v p)" by (simp add: run_callback_def)
  then show ?case using Cons.IH [of "run_callback h v p"] by simp
qed simp

lemma other_thread_queue:
  "other_thread e s \<Longrightarrow> px_event W e (rs_px s) = Some p' \<Longrightarrow> rs_killing s = KillQueued \<Longrightarrow> 0 < px_queue (rs_px s) \<Longrightarrow>
   0 < px_queue p'"
  by (cases e) (auto simp: Let_def wait_publish_def split: if_splits sum.splits option.splits prod.splits
      bool.splits child.splits bg_thread.splits kill_pc.splits wait_step.splits)

section \<open>Invariants\<close>

text \<open>The main thread: what is done and what is left is the trace; when it waits, and when it kills.\<close>

definition main_ok :: "app_env \<Rightarrow> app_config \<Rightarrow> rsys \<Rightarrow> bool" where
  "main_ok env c s \<longleftrightarrow> snd (runApp env c []) = rs_done s @ rs_todo s \<and>
     (if rs_waiting s
      then next_call s = Some EvWaitProgram \<and> main_wait (rs_px s) = Some None \<and> ae_throws env EvWaitProgram = None
      else main_wait (rs_px s) = None) \<and>
     (rs_killing s \<noteq> NotKilling \<longrightarrow> next_call s \<in> {Some EvKill, Some EvDestroyExecutor} \<and>
        px_status (rs_px s) \<noteq> NOT_STARTED) \<and>
     (rs_killing s = KillQueued \<longrightarrow> 0 < px_queue (rs_px s)) \<and>
     (rs_killing s = KillActive \<longrightarrow> stopping (rs_px s))"

text \<open>The signal handlers are those of the monitor; the program may only run where the monitor says so.\<close>

definition scope_ok :: "app_env \<Rightarrow> rsys \<Rightarrow> bool" where
  "scope_ok env s \<longleftrightarrow> px_inv (rs_px s) \<and>
     (\<exists>run hs. monitor (rs_done s) = Some (run, hs) \<and> gs_stack (rs_sig s) = map handler_id (rev hs) \<and>
        (\<not> run \<longrightarrow> px_status (rs_px s) \<noteq> RUNNING)) \<and>
     (EvExecutorStart \<in> set (rs_done s) \<and> ae_throws env EvExecutorStart = None \<longleftrightarrow>
        px_status (rs_px s) \<noteq> NOT_STARTED)"

text \<open>
  The end as it was read is that of the child, except for one thing: a call of \<open>kill\<close> that gives up between
  the two reads makes the exit code or the signal -1.
\<close>

definition true_number :: "executor \<Rightarrow> int \<Rightarrow> int \<Rightarrow> bool" where
  "true_number ex n m \<longleftrightarrow> n = m \<or> pe_status ex = CANNOT_KILL \<and> n = - 1"

definition true_end :: "child \<Rightarrow> end_view \<Rightarrow> bool" where
  "true_end ch v \<longleftrightarrow>
     (case fst v of
        EXITED \<Rightarrow> (\<exists>w. ch = Reaped w \<and> WIFEXITED w \<and> true_number (snd v) (exitCode (snd v)) (WEXITSTATUS w))
      | SIGNALLED \<Rightarrow> (\<exists>w. ch = Reaped w \<and> WIFSIGNALED w \<and> true_number (snd v) (exitSignal (snd v)) (WTERMSIG w))
      | CANNOT_KILL \<Rightarrow> True
      | _ \<Rightarrow> False)"

lemma seen_true: "seen_status p st \<Longrightarrow> true_end (px_child p) (st, px_exec p)"
  by (cases st) (auto simp: seen_status_def true_end_def true_number_def exitCode_def exitSignal_def)

text \<open>The status that the main thread has read for the call it is about to make.\<close>

definition seen_ok :: "rsys \<Rightarrow> bool" where
  "seen_ok s \<longleftrightarrow> (\<forall>st. rs_seen s = Some st \<longrightarrow>
     seen_status (rs_px s) st \<and> (\<exists>ev. next_call s = Some ev \<and> reads_status ev))"

definition has_returned :: "app_env \<Rightarrow> rsys \<Rightarrow> app_event \<Rightarrow> bool" where
  "has_returned env s ev \<longleftrightarrow> ev \<in> set (rs_done s) \<and> ae_throws env ev = None"

definition started_event :: "app_env \<Rightarrow> app_event" where
  "started_event env = EvProgramStarted (ae_hostName env) (ae_port env)"

definition finished_event :: "app_env \<Rightarrow> app_event" where
  "finished_event env = EvProgramFinished (work_dir_size env)"

text \<open>The status documents that have been written, given what was read for the last one.\<close>

definition status_docs :: "app_env \<Rightarrow> rsys \<Rightarrow> end_view \<Rightarrow> 'j json list" where
  "status_docs env s v =
     (if has_returned env s (started_event env) then [started_doc (ae_hostName env) (ae_port env)] else []) @
     (if has_returned env s (finished_event env) then [finished_doc (rs_mgr s) v (work_dir_size env)] else [])"

definition docs_ok :: "app_env \<Rightarrow> app_config \<Rightarrow> 'j services \<Rightarrow> rsys \<Rightarrow> bool" where
  "docs_ok env c sv s \<longleftrightarrow>
     pc_statusFile (rs_mgr s) = ac_statusFile c \<and> pc_uri (rs_mgr s) = ac_callbackAPI c \<and>
     (has_returned env s (started_event env) \<longrightarrow>
        pc_hostName (rs_mgr s) = ae_hostName env \<and> pc_port (rs_mgr s) = ae_port env) \<and>
     (\<exists>v. (has_returned env s (finished_event env) \<longrightarrow> true_end (px_child (rs_px s)) v) \<and>
        saved (rs_world s) = (if ac_statusFile c = [] then []
          else map (\<lambda>d. (ac_statusFile c, jsonToString sv d)) (status_docs env s v)))"

section \<open>Steps of the components\<close>

lemma finish_call_sel [simp]:
  "rs_px (finish_call s) = rs_px s" "rs_waiting (finish_call s) = rs_waiting s"
  "rs_killing (finish_call s) = rs_killing s" "rs_mgr (finish_call s) = rs_mgr s"
  "rs_world (finish_call s) = rs_world s" "rs_sig (finish_call s) = rs_sig s" "rs_seen (finish_call s) = rs_seen s"
  "rs_io (finish_call s) = rs_io s"
  by (simp_all add: finish_call_def)

lemma finish_call_trace:
  "next_call s = Some ev \<Longrightarrow> rs_done (finish_call s) = rs_done s @ [ev]"
  "next_call s = Some ev \<Longrightarrow> rs_todo s = ev # rs_todo (finish_call s)"
  by (auto simp: finish_call_def next_call_def split: list.splits)

lemma next_call_update [simp]:
  "next_call (s\<lparr>rs_px := p\<rparr>) = next_call s" "next_call (s\<lparr>rs_waiting := b\<rparr>) = next_call s"
  "next_call (s\<lparr>rs_killing := k\<rparr>) = next_call s" "next_call (s\<lparr>rs_mgr := m\<rparr>) = next_call s"
  "next_call (s\<lparr>rs_world := w\<rparr>) = next_call s" "next_call (s\<lparr>rs_sig := g\<rparr>) = next_call s"
  "next_call (s\<lparr>rs_seen := v\<rparr>) = next_call s"
  by (simp_all add: next_call_def)

lemma ends_as_Some: "ends_as env ev r s = Some s' \<longleftrightarrow> r = ae_throws env ev \<and> s' = finish_call s"
  by (auto simp: ends_as_def)

lemma monitor_step_cases:
  assumes "monitor_step ev (run, hs) = Some (run', hs')"
  shows "run' = (if ev = EvExecutorStart then True else if ev = EvKill then False else run)"
    and "hs' = (case ev of EvPushHandler h \<Rightarrow> h # hs | EvPopHandler \<Rightarrow> tl hs | _ \<Rightarrow> hs)"
    and "after_program ev \<Longrightarrow> \<not> run"
    and "ev = EvWaitProgram \<Longrightarrow> hs \<noteq> [] \<and> hd hs = KillOnSignal"
    and "ev = EvPopHandler \<Longrightarrow> hs \<noteq> []"
  using assms by (cases ev; auto split: list.splits if_splits)+

text \<open>What a call of the main thread can change.\<close>

lemma call_effect_frame:
  assumes "call_effect env c sv ev s = Some (r, s')"
  shows "rs_done s' = rs_done s" "rs_todo s' = rs_todo s" "rs_px s' = rs_px s"
    "rs_waiting s' = rs_waiting s" "rs_killing s' = rs_killing s"
    "ev \<notin> {EvExecutorStart, EvWaitProgram, EvKill, EvDestroyExecutor}"
    "rs_seen s' = (if reads_status ev then None else rs_seen s)"
  using assms by (cases "(env, c, sv, ev, s)" rule: call_effect.cases;
      auto split: option.splits sum.splits prod.splits if_splits)+

lemma call_effect_sig:
  assumes "call_effect env c sv ev s = Some (r, s')" "gs_stack (rs_sig s) = map handler_id (rev hs)"
    and "ev = EvPopHandler \<Longrightarrow> hs \<noteq> []"
  shows "gs_stack (rs_sig s') =
    map handler_id (rev (case ev of EvPushHandler h \<Rightarrow> h # hs | EvPopHandler \<Rightarrow> tl hs | _ \<Rightarrow> hs))"
proof -
  have "hs \<noteq> [] \<Longrightarrow> butlast (map handler_id (rev hs)) = map handler_id (rev (tl hs))"
    by (cases hs) (simp_all add: butlast_append)
  then show ?thesis using assms
    by (cases "(env, c, sv, ev, s)" rule: call_effect.cases)
      (auto simp: gs_pop_def split: option.splits sum.splits prod.splits if_splits)
qed

lemma call_effect_docs:
  assumes "call_effect env c sv ev s = Some (r, s')" "\<forall>h p. ev \<noteq> EvProgramStarted h p" "\<forall>n. ev \<noteq> EvProgramFinished n"
  shows "rs_mgr s' = rs_mgr s" "rs_world s' = rs_world s"
  using assms by (cases "(env, c, sv, ev, s)" rule: call_effect.cases;
      auto split: option.splits sum.splits prod.splits if_splits)+

text \<open>The steps that are not the end of a call of the main thread.\<close>

definition silent_step :: "rsys \<Rightarrow> rsys \<Rightarrow> bool" where
  "silent_step s s' \<longleftrightarrow> rs_done s' = rs_done s \<and> rs_todo s' = rs_todo s"

lemma silent_next: "silent_step s s' \<Longrightarrow> next_call s' = next_call s"
  by (simp add: silent_step_def next_call_def)

section \<open>The reports in the trace\<close>

lemma full_reports_nth:
  assumes "j < length (full_reports env c args ex)"
  shows "(full_reports env c args ex ! j = EvExecutorStart \<longrightarrow> j = 0) \<and>
    (\<forall>h p. full_reports env c args ex ! j = EvProgramStarted h p \<longrightarrow>
       take j (full_reports env c args ex) = [EvExecutorStart] \<and> EvProgramStarted h p = started_event env) \<and>
    (full_reports env c args ex ! j = EvWaitProgram \<longrightarrow> EvExecutorStart \<in> set (take j (full_reports env c args ex))) \<and>
    (\<forall>n. full_reports env c args ex ! j = EvProgramFinished n \<longrightarrow>
       take j (full_reports env c args ex) = [EvExecutorStart, started_event env, EvWaitProgram] \<and>
       EvProgramFinished n = finished_event env) \<and>
    (\<forall>a e. full_reports env c args ex ! j = EvNewRunAfter a e \<longrightarrow> EvExecutorStart \<in> set (take j (full_reports env c args ex)))"
proof -
  have "j = 0 \<or> j = 1 \<or> j = 2 \<or> j = 3 \<or> j = 4"
    using assms by (auto simp: full_reports_def program_reports_def split: if_splits)
  then show ?thesis using assms
    by (elim disjE)
      (auto simp: full_reports_def program_reports_def started_event_def finished_event_def numeral_eq_Suc split: if_splits)
qed

lemma report_facts:
  assumes "snd (runApp env c []) = rs_done s @ rs_todo s" "next_call s = Some ev"
  shows "\<And>h p. ev = EvProgramStarted h p \<Longrightarrow>
      reports (rs_done s) = [EvExecutorStart] \<and> returned env [EvExecutorStart] \<and> ev = started_event env"
    and "\<And>n. ev = EvProgramFinished n \<Longrightarrow>
      reports (rs_done s) = [EvExecutorStart, started_event env, EvWaitProgram] \<and>
      returned env [EvExecutorStart, started_event env, EvWaitProgram] \<and> ev = finished_event env"
    and "ev = EvWaitProgram \<or> (\<exists>a e. ev = EvNewRunAfter a e) \<Longrightarrow>
      EvExecutorStart \<in> set (rs_done s) \<and> ae_throws env EvExecutorStart = None"
    and "ev = EvExecutorStart \<Longrightarrow> EvExecutorStart \<notin> set (rs_done s)"
proof -
  have t: "snd (runApp env c []) = rs_done s @ ev # rs_todo (finish_call s)"
    using assms(1) finish_call_trace(2) [OF assms(2)] by simp
  have P: "is_report ev \<Longrightarrow> \<exists>args ex j. j < length (full_reports env c args ex) \<and>
      reports (rs_done s) = take j (full_reports env c args ex) \<and>
      ev = full_reports env c args ex ! j \<and> returned env (reports (rs_done s))"
    by (rule report_position [OF t])
  show "reports (rs_done s) = [EvExecutorStart] \<and> returned env [EvExecutorStart] \<and> ev = started_event env"
    if ev: "ev = EvProgramStarted h p" for h p
    using P full_reports_nth ev by (metis is_report.simps(2))
  show "reports (rs_done s) = [EvExecutorStart, started_event env, EvWaitProgram] \<and>
      returned env [EvExecutorStart, started_event env, EvWaitProgram] \<and> ev = finished_event env"
    if ev: "ev = EvProgramFinished n" for n
    using P full_reports_nth ev by (metis is_report.simps(4))
  show "EvExecutorStart \<in> set (rs_done s) \<and> ae_throws env EvExecutorStart = None"
    if ev: "ev = EvWaitProgram \<or> (\<exists>a e. ev = EvNewRunAfter a e)"
  proof -
    have "is_report ev" using ev by auto
    then obtain args ex j where j: "j < length (full_reports env c args ex)"
        "reports (rs_done s) = take j (full_reports env c args ex)"
        "ev = full_reports env c args ex ! j" "returned env (reports (rs_done s))"
      using P by blast
    then have "EvExecutorStart \<in> set (reports (rs_done s))" using full_reports_nth [OF j(1)] ev by metis
    then show ?thesis using j(4) by (auto simp: returned_def)
  qed
  show "EvExecutorStart \<notin> set (rs_done s)" if ev: "ev = EvExecutorStart"
  proof -
    obtain args ex j where j: "j < length (full_reports env c args ex)"
        "reports (rs_done s) = take j (full_reports env c args ex)" "ev = full_reports env c args ex ! j"
      using P ev by auto
    then have "reports (rs_done s) = []" using full_reports_nth [OF j(1)] ev by auto
    then show ?thesis by (auto simp: filter_empty_conv)
  qed
qed

lemma reported: "is_report ev \<Longrightarrow> reports t = L \<Longrightarrow> ev \<in> set t \<longleftrightarrow> ev \<in> set L"
  by auto

section \<open>Every step keeps the invariants\<close>

lemma main_ok_finish:
  assumes "main_ok env c s" "next_call s = Some ev" "rs_done s1 = rs_done s" "rs_todo s1 = rs_todo s"
    and "\<not> rs_waiting s1" "main_wait (rs_px s1) = None" "rs_killing s1 = NotKilling"
  shows "main_ok env c (finish_call s1)"
proof -
  have "next_call s1 = Some ev" using assms(2,4) by (simp add: next_call_def)
  from finish_call_trace [OF this] show ?thesis using assms by (simp add: main_ok_def)
qed

lemma main_ok_silent:
  assumes "main_ok env c s" "px_later (rs_px s) (rs_px s')" "silent_step s s'"
    and "rs_waiting s' = rs_waiting s" "rs_killing s' = rs_killing s"
    and "rs_killing s = KillQueued \<Longrightarrow> 0 < px_queue (rs_px s) \<Longrightarrow> 0 < px_queue (rs_px s')"
  shows "main_ok env c s'"
  using assms silent_next [OF assms(3)] by (auto simp: main_ok_def px_later_def silent_step_def)

lemma main_ok_idle:
  assumes "main_ok env c s" "next_call s = Some ev"
  shows "ev \<noteq> EvWaitProgram \<Longrightarrow> \<not> rs_waiting s \<and> main_wait (rs_px s) = None"
    and "ev \<notin> {EvKill, EvDestroyExecutor} \<Longrightarrow> rs_killing s = NotKilling"
  using assms by (auto simp: main_ok_def split: if_splits)

lemma scope_finish:
  assumes H: "\<And>h. ae_throws env (EvPushHandler h) = None"
    and s: "scope_ok env s" "main_ok env c s" "next_call s = Some ev"
    and s1: "rs_done s1 = rs_done s" "rs_todo s1 = rs_todo s" "px_inv (rs_px s1)"
    and stack: "\<And>hs. gs_stack (rs_sig s) = map handler_id (rev hs) \<Longrightarrow> (ev = EvPopHandler \<Longrightarrow> hs \<noteq> []) \<Longrightarrow>
      gs_stack (rs_sig s1) =
        map handler_id (rev (case ev of EvPushHandler h \<Rightarrow> h # hs | EvPopHandler \<Rightarrow> tl hs | _ \<Rightarrow> hs))"
    and running: "ev \<noteq> EvExecutorStart \<Longrightarrow> px_status (rs_px s) \<noteq> RUNNING \<or> ev = EvKill \<Longrightarrow> px_status (rs_px s1) \<noteq> RUNNING"
    and begun: "px_status (rs_px s1) \<noteq> NOT_STARTED \<longleftrightarrow>
      px_status (rs_px s) \<noteq> NOT_STARTED \<or> ev = EvExecutorStart \<and> ae_throws env ev = None"
  shows "scope_ok env (finish_call s1)"
proof -
  have n1: "next_call s1 = Some ev" using s(3) s1(2) by (simp add: next_call_def)
  obtain run hs where m: "monitor (rs_done s) = Some (run, hs)" "gs_stack (rs_sig s) = map handler_id (rev hs)"
      "\<not> run \<longrightarrow> px_status (rs_px s) \<noteq> RUNNING"
    using s(1) unfolding scope_ok_def by blast
  have "snd (runApp env c []) = (rs_done s @ [ev]) @ rs_todo (finish_call s)"
    using s(2) finish_call_trace(2) [OF s(3)] by (simp add: main_ok_def)
  from runApp_monitored [OF H this] obtain run' hs' where m': "monitor (rs_done s @ [ev]) = Some (run', hs')" by blast
  then have step: "monitor_step ev (run, hs) = Some (run', hs')" using m(1) by simp
  note C = monitor_step_cases [OF step]
  have "gs_stack (rs_sig s1) = map handler_id (rev hs')" using stack [OF m(2)] C(2,5) by simp
  moreover have "\<not> run' \<longrightarrow> px_status (rs_px s1) \<noteq> RUNNING" using C(1) running m(3) by (auto split: if_splits)
  moreover have "(EvExecutorStart \<in> set (rs_done s @ [ev]) \<and> ae_throws env EvExecutorStart = None) =
      (px_status (rs_px s1) \<noteq> NOT_STARTED)"
    using s(1) begun by (auto simp: scope_ok_def)
  ultimately show ?thesis using m' s1 finish_call_trace [OF n1] by (simp add: scope_ok_def)
qed

lemma scope_silent:
  assumes "scope_ok env s" "px_later (rs_px s) (rs_px s')" "silent_step s s'" "gs_stack (rs_sig s') = gs_stack (rs_sig s)"
  shows "scope_ok env s'"
  using assms by (auto simp: scope_ok_def px_later_def silent_step_def)

definition child_stays :: "rsys \<Rightarrow> rsys \<Rightarrow> bool" where
  "child_stays s s' \<longleftrightarrow> (\<forall>st. px_child (rs_px s) = Reaped st \<longrightarrow> px_child (rs_px s') = Reaped st)"

lemma true_end_stays: "true_end ch v \<Longrightarrow> (\<forall>st. ch = Reaped st \<longrightarrow> ch' = Reaped st) \<Longrightarrow> true_end ch' v"
  unfolding true_end_def by (cases "fst v") auto

lemma seen_silent:
  "seen_ok s \<Longrightarrow> px_later (rs_px s) (rs_px s') \<Longrightarrow> silent_step s s' \<Longrightarrow> rs_seen s' = rs_seen s \<Longrightarrow> seen_ok s'"
  using silent_next [of s s'] by (simp add: seen_ok_def px_later_def)

lemma seen_none: "rs_seen s = None \<Longrightarrow> seen_ok s"
  by (simp add: seen_ok_def)

lemma unseen: "seen_ok s \<Longrightarrow> next_call s = Some ev \<Longrightarrow> \<not> reads_status ev \<Longrightarrow> rs_seen s = None"
  by (cases "rs_seen s") (auto simp: seen_ok_def)

lemma docs_same:
  fixes sv :: "'j services"
  assumes "docs_ok env c sv s" "child_stays s s'"
    and "has_returned env s' (started_event env) = has_returned env s (started_event env)"
    and "has_returned env s' (finished_event env) = has_returned env s (finished_event env)"
    and "saved (rs_world s') = saved (rs_world s)" "\<exists>l. rs_mgr s' = (rs_mgr s)\<lparr>pc_lastPosted := l\<rparr>"
  shows "docs_ok env c sv s'"
proof -
  obtain l where l: "rs_mgr s' = (rs_mgr s)\<lparr>pc_lastPosted := l\<rparr>" using assms(6) by blast
  have f: "finished_doc (rs_mgr s') v n = (finished_doc (rs_mgr s) v n :: 'j json)" for v n
    by (simp add: finished_doc_def l)
  obtain v where v: "has_returned env s (finished_event env) \<longrightarrow> true_end (px_child (rs_px s)) v"
      "saved (rs_world s) = (if ac_statusFile c = [] then []
          else map (\<lambda>d. (ac_statusFile c, jsonToString sv d)) (status_docs env s v))"
    using assms(1) unfolding docs_ok_def by blast
  have "status_docs env s' v = (status_docs env s v :: 'j json list)" unfolding status_docs_def assms(3,4) f ..
  moreover have "has_returned env s' (finished_event env) \<longrightarrow> true_end (px_child (rs_px s')) v"
    using v(1) true_end_stays assms(2,4) unfolding child_stays_def by blast
  ultimately have "\<exists>v. (has_returned env s' (finished_event env) \<longrightarrow> true_end (px_child (rs_px s')) v) \<and>
      saved (rs_world s') = (if ac_statusFile c = [] then []
          else map (\<lambda>d. (ac_statusFile c, jsonToString sv d)) (status_docs env s' v))"
    using v(2) assms(5) by (intro exI [of _ v]) simp
  then show ?thesis using assms(1,3) l unfolding docs_ok_def by simp
qed

lemma docs_finish:
  assumes "docs_ok env c sv s" "child_stays s s1" "next_call s = Some ev" "rs_done s1 = rs_done s" "rs_todo s1 = rs_todo s"
    and "ev \<noteq> started_event env" "ev \<noteq> finished_event env" "rs_mgr s1 = rs_mgr s" "rs_world s1 = rs_world s"
  shows "docs_ok env c sv (finish_call s1)"
proof (rule docs_same [OF assms(1)])
  have n1: "next_call s1 = Some ev" using assms(3,5) by (simp add: next_call_def)
  show "child_stays s (finish_call s1)" using assms(2) by (simp add: child_stays_def)
  show "has_returned env (finish_call s1) (started_event env) = has_returned env s (started_event env)"
    "has_returned env (finish_call s1) (finished_event env) = has_returned env s (finished_event env)"
    using finish_call_trace(1) [OF n1] assms(4,6,7) by (auto simp: has_returned_def)
  have "rs_mgr (finish_call s1) = (rs_mgr s)\<lparr>pc_lastPosted := pc_lastPosted (rs_mgr s)\<rparr>" using assms(8) by simp
  then show "\<exists>l. rs_mgr (finish_call s1) = (rs_mgr s)\<lparr>pc_lastPosted := l\<rparr>"
    by (rule exI [of _ "pc_lastPosted (rs_mgr s)"])
qed (use assms(9) in simp)

lemma report_events: "is_report (started_event env)" "is_report (finished_event env)"
  by (simp_all add: started_event_def finished_event_def)

lemma event_neq [simp]: "started_event env \<noteq> finished_event env" "finished_event env \<noteq> started_event env"
  "started_event env \<noteq> EvExecutorStart" "finished_event env \<noteq> EvExecutorStart"
  "started_event env \<noteq> EvWaitProgram" "finished_event env \<noteq> EvWaitProgram"
  by (simp_all add: started_event_def finished_event_def)

text \<open>Reporting the start: no document has been written before.\<close>

lemma docs_started:
  assumes docs: "docs_ok env c sv s" and main: "main_ok env c s"
    and n: "next_call s = Some (EvProgramStarted h p)"
    and eff: "call_effect env c sv (EvProgramStarted h p) s = Some (r, s1)" "r = ae_throws env (EvProgramStarted h p)"
  shows "docs_ok env c sv (finish_call s1)"
proof -
  have "snd (runApp env c []) = rs_done s @ rs_todo s" using main by (simp add: main_ok_def)
  note F = report_facts(1) [OF this n refl]
  then have hp: "h = ae_hostName env" "p = ae_port env" by (simp_all add: started_event_def)
  have none: "\<not> has_returned env s (started_event env)" "\<not> has_returned env s (finished_event env)"
    using reported [OF report_events(1) conjunct1 [OF F]] reported [OF report_events(2) conjunct1 [OF F]]
    by (simp_all add: has_returned_def)
  note fr = call_effect_frame [OF eff(1)]
  have n1: "next_call s1 = Some (EvProgramStarted h p)" using n fr(2) by (simp add: next_call_def)
  have dn: "rs_done (finish_call s1) = rs_done s @ [started_event env]"
    using finish_call_trace(1) [OF n1] fr(1) hp by (simp add: started_event_def)
  have ret: "has_returned env (finish_call s1) (started_event env) \<longleftrightarrow> r = None"
    "\<not> has_returned env (finish_call s1) (finished_event env)"
    using dn none eff(2) hp by (auto simp: has_returned_def started_event_def finished_event_def)
  have saved0: "saved (rs_world s) = []" using docs none by (auto simp: docs_ok_def status_docs_def)
  show ?thesis
  proof (cases r)
    case (Some e)
    then have "rs_mgr s1 = (rs_mgr s)\<lparr>pc_hostName := h, pc_port := p\<rparr>" "rs_world s1 = rs_world s"
      using eff(1) by (auto split: option.splits sum.splits)
    then show ?thesis using docs ret saved0 Some by (auto simp: docs_ok_def status_docs_def)
  next
    case None
    then have ps: "programStarted sv h p (rs_mgr s) (rs_world s) = Some (Inr (rs_mgr s1, rs_world s1))"
      using eff(1) by (auto split: option.splits sum.splits)
    define m where "m = (rs_mgr s)\<lparr>pc_hostName := h, pc_port := p\<rparr>"
    have m1: "rs_mgr s1 = m" "publish sv m (started_doc h p) (rs_world s) = Some (Inr (rs_world s1))"
      using ps by (auto simp: programStarted_def Let_def m_def)
        (metis Inl_Inr_False Inr_inject map_sum.simps Pair_inject sum.exhaust_sel)+
    have "saved (rs_world s1) =
        (if ac_statusFile c = [] then [] else [(ac_statusFile c, jsonToString sv (started_doc h p))])"
      using publish_saves [OF m1(2)] saved0 docs by (simp add: m_def docs_ok_def)
    then show ?thesis using docs ret None m1(1) hp by (simp add: docs_ok_def status_docs_def m_def)
  qed
qed

text \<open>Where the status is read the program has ended.\<close>

lemma report_ended:
  assumes main: "main_ok env c s" and scope: "scope_ok env s" and H: "\<And>h. ae_throws env (EvPushHandler h) = None"
    and n: "next_call s = Some ev" "reads_status ev"
  shows "seen_status (rs_px s) (px_status (rs_px s))"
proof -
  have t: "snd (runApp env c []) = rs_done s @ rs_todo s" using main by (simp add: main_ok_def)
  obtain run hs where mon: "monitor (rs_done s) = Some (run, hs)" "\<not> run \<longrightarrow> px_status (rs_px s) \<noteq> RUNNING"
    using scope by (auto simp: scope_ok_def)
  have "snd (runApp env c []) = (rs_done s @ [ev]) @ rs_todo (finish_call s)"
    using t finish_call_trace(2) [OF n(1)] by simp
  from runApp_monitored [OF H this] obtain run' hs' where "monitor_step ev (run, hs) = Some (run', hs')"
    using mon(1) by auto
  moreover have "after_program ev" using n(2) by (cases ev) simp_all
  ultimately have "\<not> run" using monitor_step_cases(3) by fastforce
  moreover have "EvExecutorStart \<in> set (rs_done s) \<and> ae_throws env EvExecutorStart = None"
  proof (cases ev)
    case (EvProgramFinished k)
    note F = report_facts(2) [OF t n(1) EvProgramFinished]
    then show ?thesis using reported [OF _ conjunct1 [OF F], of EvExecutorStart] by simp
  next
    case (EvNewRunAfter a e)
    then show ?thesis using report_facts(3) [OF t n(1)] by blast
  qed (use n(2) in simp_all)
  ultimately show ?thesis using scope mon(2) by (auto simp: seen_status_def scope_ok_def px_inv_def)
qed

text \<open>Reporting the end: the document of the start has been written.\<close>

lemma docs_finished:
  assumes docs: "docs_ok env c sv s" and main: "main_ok env c s" and seen: "seen_ok s"
    and n: "next_call s = Some (EvProgramFinished k)"
    and eff: "call_effect env c sv (EvProgramFinished k) s = Some (r, s1)" "r = ae_throws env (EvProgramFinished k)"
  shows "docs_ok env c sv (finish_call s1)"
proof -
  have t: "snd (runApp env c []) = rs_done s @ rs_todo s" using main by (simp add: main_ok_def)
  note F = report_facts(2) [OF t n refl]
  then have k: "k = work_dir_size env" by (simp add: finished_event_def)
  have before: "has_returned env s (started_event env)" "\<not> has_returned env s (finished_event env)"
    using reported [OF report_events(1) conjunct1 [OF F]] reported [OF report_events(2) conjunct1 [OF F]] F
    by (simp_all add: has_returned_def)
  note fr = call_effect_frame [OF eff(1)]
  have n1: "next_call s1 = Some (EvProgramFinished k)" using n fr(2) by (simp add: next_call_def)
  have dn: "rs_done (finish_call s1) = rs_done s @ [finished_event env]"
    using finish_call_trace(1) [OF n1] fr(1) k by (simp add: finished_event_def)
  have ret: "has_returned env (finish_call s1) (started_event env)"
    "has_returned env (finish_call s1) (finished_event env) \<longleftrightarrow> r = None"
    using dn before eff(2) k by (auto simp: has_returned_def started_event_def finished_event_def)
  show ?thesis
  proof (cases r)
    case (Some e)
    then have "s1 = s\<lparr>rs_seen := None\<rparr>" using eff(1) by (auto split: option.splits sum.splits)
    then show ?thesis using docs ret before Some by (auto simp: docs_ok_def status_docs_def)
  next
    case None
    then obtain st where st: "rs_seen s = Some st" using eff(1) by (auto split: option.splits)
    define v where "v = (st, px_exec (rs_px s))"
    have pf: "publish sv (rs_mgr s) (finished_doc (rs_mgr s) v k) (rs_world s) = Some (Inr (rs_world s1))"
        and m1: "rs_mgr s1 = rs_mgr s"
      using eff(1) None st by (auto simp: programFinished_def v_def split: option.splits sum.splits)
    have "true_end (px_child (rs_px s)) v" using seen st seen_true by (simp add: seen_ok_def v_def)
    moreover obtain v0 where "saved (rs_world s) = (if ac_statusFile c = [] then []
          else map (\<lambda>d. (ac_statusFile c, jsonToString sv d)) (status_docs env s v0))"
      using docs by (auto simp: docs_ok_def)
    ultimately show ?thesis
      using publish_saves [OF pf] docs ret before None m1 fr(3) k
      by (auto simp: docs_ok_def status_docs_def simp del: split_paired_Ex intro!: exI [of _ v])
  qed
qed

definition rs_inv :: "app_env \<Rightarrow> app_config \<Rightarrow> 'j services \<Rightarrow> rsys \<Rightarrow> bool" where
  "rs_inv env c sv s \<longleftrightarrow> (\<forall>h. ae_throws env (EvPushHandler h) = None) \<and>
     main_ok env c s \<and> scope_ok env s \<and> docs_ok env c sv s \<and> seen_ok s"

lemma rs_invI:
  "(\<And>h. ae_throws env (EvPushHandler h) = None) \<Longrightarrow> main_ok env c s \<Longrightarrow> scope_ok env s \<Longrightarrow> docs_ok env c sv s \<Longrightarrow>
   seen_ok s \<Longrightarrow> rs_inv env c sv s"
  by (simp add: rs_inv_def)

text \<open>The end of a call that changes neither the handlers nor the documents.\<close>

lemma rs_inv_finish:
  assumes inv: "rs_inv env c sv s" and n: "next_call s = Some ev"
    and ev: "ev \<noteq> EvPopHandler" "\<forall>h. ev \<noteq> EvPushHandler h" "\<not> is_report ev \<or> ev = EvExecutorStart \<or> ev = EvWaitProgram"
    and s1: "rs_done s1 = rs_done s" "rs_todo s1 = rs_todo s" "rs_mgr s1 = rs_mgr s" "rs_world s1 = rs_world s"
      "rs_sig s1 = rs_sig s" "\<not> rs_waiting s1" "rs_killing s1 = NotKilling" "rs_seen s1 = rs_seen s"
    and px: "px_inv (rs_px s1)" "main_wait (rs_px s1) = None" "child_stays s s1"
    and running: "ev \<noteq> EvExecutorStart \<Longrightarrow> px_status (rs_px s) \<noteq> RUNNING \<or> ev = EvKill \<Longrightarrow> px_status (rs_px s1) \<noteq> RUNNING"
    and begun: "px_status (rs_px s1) \<noteq> NOT_STARTED \<longleftrightarrow>
      px_status (rs_px s) \<noteq> NOT_STARTED \<or> ev = EvExecutorStart \<and> ae_throws env ev = None"
  shows "rs_inv env c sv (finish_call s1)"
proof (rule rs_invI)
  have H: "ae_throws env (EvPushHandler h) = None" for h using inv by (simp add: rs_inv_def)
  have I: "main_ok env c s" "scope_ok env s" "docs_ok env c sv s" using inv by (simp_all add: rs_inv_def)
  show "ae_throws env (EvPushHandler h) = None" for h by (rule H)
  show "main_ok env c (finish_call s1)" by (rule main_ok_finish [OF I(1) n s1(1,2,6) px(2) s1(7)])
  show "scope_ok env (finish_call s1)"
  proof (rule scope_finish [OF H I(2,1) n s1(1,2) px(1)])
    show "gs_stack (rs_sig s1) = map handler_id (rev (case ev of EvPushHandler h \<Rightarrow> h # hs | EvPopHandler \<Rightarrow> tl hs | _ \<Rightarrow> hs))"
      if "gs_stack (rs_sig s) = map handler_id (rev hs)" for hs
      using that ev(1,2) s1(5) by (cases ev) simp_all
  qed (use running begun in blast)+
  show "docs_ok env c sv (finish_call s1)"
    by (rule docs_finish [OF I(3) px(3) n s1(1,2) _ _ s1(3,4)]) (use ev(3) in \<open>auto simp: started_event_def finished_event_def\<close>)
  have "\<not> reads_status ev" using ev(3) by (cases ev) auto
  then show "seen_ok (finish_call s1)" using inv unseen [OF _ n] s1(8) by (intro seen_none) (simp add: rs_inv_def)
qed

text \<open>A step in which only the executor changes, by what other threads may do.\<close>

lemma rs_inv_silent:
  assumes inv: "rs_inv env c sv s" and px: "px_later (rs_px s) (rs_px s')" and silent: "silent_step s s'"
    and same: "rs_waiting s' = rs_waiting s" "rs_killing s' = rs_killing s" "gs_stack (rs_sig s') = gs_stack (rs_sig s)"
      "saved (rs_world s') = saved (rs_world s)" "\<exists>l. rs_mgr s' = (rs_mgr s)\<lparr>pc_lastPosted := l\<rparr>" "rs_seen s' = rs_seen s"
    and queue: "rs_killing s = KillQueued \<Longrightarrow> 0 < px_queue (rs_px s) \<Longrightarrow> 0 < px_queue (rs_px s')"
  shows "rs_inv env c sv s'"
proof (rule rs_invI)
  have I: "main_ok env c s" "scope_ok env s" "docs_ok env c sv s" using inv by (simp_all add: rs_inv_def)
  show "ae_throws env (EvPushHandler h) = None" for h using inv by (simp add: rs_inv_def)
  show "main_ok env c s'" by (rule main_ok_silent [OF I(1) px silent same(1,2) queue])
  show "scope_ok env s'" by (rule scope_silent [OF I(2) px silent same(3)])
  show "seen_ok s'" by (rule seen_silent [OF _ px silent same(6)]) (use inv in \<open>simp add: rs_inv_def\<close>)
  show "docs_ok env c sv s'"
    by (rule docs_same [OF I(3) _ _ _ same(4,5)])
      (use px silent in \<open>simp_all add: child_stays_def px_later_def has_returned_def silent_step_def\<close>)
qed

lemma same_manager: "\<exists>l. p = p\<lparr>pc_lastPosted := l\<rparr>"
  by (rule exI [of _ "pc_lastPosted p"]) simp

lemma R_Call_inv:
  assumes inv: "rs_inv env c sv s" and ev: "rs_event env c sv W R_Call s = Some s'"
  shows "rs_inv env c sv s'"
proof (rule rs_invI)
  have H: "ae_throws env (EvPushHandler h) = None" for h using inv by (simp add: rs_inv_def)
  have I: "main_ok env c s" "scope_ok env s" "docs_ok env c sv s" using inv by (simp_all add: rs_inv_def)
  obtain e r s1 where n: "next_call s = Some e" and eff: "call_effect env c sv e s = Some (r, s1)"
    and r: "r = ae_throws env e" and s': "s' = finish_call s1"
    using ev by (auto simp: ends_as_Some split: option.splits prod.splits)
  note fr = call_effect_frame [OF eff]
  have idle: "\<not> rs_waiting s1" "main_wait (rs_px s1) = None" "rs_killing s1 = NotKilling"
    using main_ok_idle [OF I(1) n] fr by auto
  have seen: "seen_ok s" using inv by (simp add: rs_inv_def)
  show "ae_throws env (EvPushHandler h) = None" for h by (rule H)
  show "seen_ok s'" unfolding s' using fr(7) unseen [OF seen n] by (intro seen_none) simp
  show "main_ok env c s'" unfolding s' by (rule main_ok_finish [OF I(1) n fr(1,2) idle])
  have pinv: "px_inv (rs_px s1)" using I(2) fr(3) by (simp add: scope_ok_def)
  show "scope_ok env s'" unfolding s'
    by (rule scope_finish [OF H I(2,1) n fr(1,2) pinv call_effect_sig [OF eff]]) (use fr in auto)
  show "docs_ok env c sv s'" unfolding s'
  proof (cases "(\<exists>h p. e = EvProgramStarted h p) \<or> (\<exists>k. e = EvProgramFinished k)")
    case True
    then show "docs_ok env c sv (finish_call s1)"
      using docs_started [OF I(3,1)] docs_finished [OF I(3,1) seen] n eff r by blast
  next
    case False
    have "child_stays s s1" using fr(3) by (simp add: child_stays_def)
    then show "docs_ok env c sv (finish_call s1)"
      using docs_finish [OF I(3) _ n fr(1,2)] call_effect_docs [OF eff] False
      by (auto simp: started_event_def finished_event_def)
  qed
qed

lemma R_Start_inv:
  assumes inv: "rs_inv env c sv s" and ev: "rs_event env c sv W (R_Start pip err pid) s = Some s'"
  shows "rs_inv env c sv s'"
proof -
  have I: "main_ok env c s" "scope_ok env s" using inv by (simp_all add: rs_inv_def)
  have n: "next_call s = Some EvExecutorStart" using ev by (auto split: if_splits)
  have idle: "\<not> rs_waiting s" "main_wait (rs_px s) = None" "rs_killing s = NotKilling"
    using main_ok_idle [OF I(1) n] by auto
  have pinv: "px_inv (rs_px s)" using I(2) by (simp add: scope_ok_def)
  show ?thesis
  proof (cases "start_parent pip err pid (px_exec (rs_px s))")
    case (Inl e)
    then have "s' = finish_call s" "ae_throws env EvExecutorStart = Some e"
      using ev n by (auto simp: ends_as_Some)
    then show ?thesis using rs_inv_finish [OF inv n, of s] idle pinv by (simp add: child_stays_def)
  next
    case (Inr ex)
    then obtain p where p: "px_event W (PStart pip err pid) (rs_px s) = Some p"
        "s' = finish_call (s\<lparr>rs_px := p\<rparr>)" "ae_throws env EvExecutorStart = None"
      using ev n by (auto simp: ends_as_Some split: option.splits if_splits)
    then have "p = (rs_px s)\<lparr>px_exec := ex, px_child := (if pid > 0 then Alive else NoChild), px_bg := BgWaits\<rparr>"
      using Inr by (auto split: if_splits)
    then have "main_wait p = None" "px_status p = RUNNING"
      using idle(2) start_parent_ok(2) [OF Inr] by (simp_all add: main_wait_def)
    then show ?thesis unfolding p(2)
      using rs_inv_finish [OF inv n, of "s\<lparr>rs_px := p\<rparr>"] idle px_event_inv [OF pinv p(1)] px_event_stays [OF pinv p(1)]
      using p(3) by (simp add: child_stays_def)
  qed
qed

lemma wait_blocks_px:
  assumes "px_inv p" "px_event W (PWait 0 0) p = Some p'" "wait_enter 0 (px_exec p) = Inr (WaitBlocks to)"
  shows "px_inv p'" "px_exec p' = px_exec p" "px_child p' = px_child p" "main_wait p' = Some None"
  using assms px_event_inv [OF assms(1,2)]
  by (auto simp: main_wait_def wait_enter_cases split: if_splits ProgramStatus.splits)

lemma woken_px:
  assumes "px_inv p" "px_event W (PWoken 0) p = Some p'"
  shows "px_inv p'" "px_exec p' = px_exec p" "px_child p' = px_child p" "main_wait p' = None"
  using assms px_event_inv [OF assms]
  by (auto simp: main_wait_def split: option.splits prod.splits bool.splits)

lemma R_Wait_inv:
  assumes inv: "rs_inv env c sv s" and ev: "rs_event env c sv W R_Wait s = Some s'"
  shows "rs_inv env c sv s'"
proof -
  have I: "main_ok env c s" "scope_ok env s" "docs_ok env c sv s" using inv by (simp_all add: rs_inv_def)
  have n: "next_call s = Some EvWaitProgram" "\<not> rs_waiting s" using ev by (auto split: if_splits)
  have idle: "rs_killing s = NotKilling" using main_ok_idle [OF I(1) n(1)] by simp
  have seen: "rs_seen s = None" using inv unseen [OF _ n(1)] by (simp add: rs_inv_def)
  have pinv: "px_inv (rs_px s)" using I(2) by (simp add: scope_ok_def)
  have none: "main_wait (rs_px s) = None" using I(1) n(2) by (simp add: main_ok_def)
  have ends: "rs_inv env c sv (finish_call s)"
    using rs_inv_finish [OF inv n(1), of s] idle n(2) pinv none by (simp add: child_stays_def)
  show ?thesis
  proof (cases "\<exists>to. wait_enter 0 (px_exec (rs_px s)) = Inr (WaitBlocks to)")
    case True
    then obtain to p where p: "wait_enter 0 (px_exec (rs_px s)) = Inr (WaitBlocks to)"
        "px_event W (PWait 0 0) (rs_px s) = Some p" "s' = s\<lparr>rs_px := p, rs_waiting := True\<rparr>"
        "ae_throws env EvWaitProgram = None"
      using ev n by (auto simp del: px_event.simps split: option.splits if_splits)
    note P = wait_blocks_px [OF pinv p(2,1)]
    have "main_ok env c s'" using I(1) n idle P p(3,4) by (simp add: main_ok_def)
    moreover have "scope_ok env s'" using I(2) P p(3) by (simp add: scope_ok_def)
    moreover have "docs_ok env c sv s'"
      by (rule docs_same [OF I(3)]) (simp_all add: p(3) P child_stays_def has_returned_def same_manager)
    ultimately show ?thesis using inv seen_none [of s'] seen p(3) by (simp add: rs_inv_def)
  next
    case False
    then have "s' = finish_call s" using ev n
      by (auto simp: ends_as_Some simp del: px_event.simps split: sum.splits wait_step.splits)
    then show ?thesis using ends by simp
  qed
qed

lemma R_Woken_inv:
  assumes inv: "rs_inv env c sv s" and ev: "rs_event env c sv W R_Woken s = Some s'"
  shows "rs_inv env c sv s'"
proof -
  have I: "main_ok env c s" "scope_ok env s" using inv by (simp_all add: rs_inv_def)
  obtain p where p: "rs_waiting s" "px_event W (PWoken 0) (rs_px s) = Some p"
      "s' = finish_call (s\<lparr>rs_px := p, rs_waiting := False\<rparr>)"
    using ev by (auto simp: ends_as_Some simp del: px_event.simps split: if_splits option.splits)
  have n: "next_call s = Some EvWaitProgram" using I(1) p(1) by (simp add: main_ok_def)
  have pinv: "px_inv (rs_px s)" using I(2) by (simp add: scope_ok_def)
  note P = woken_px [OF pinv p(2)]
  show ?thesis unfolding p(3)
    using rs_inv_finish [OF inv n, of "s\<lparr>rs_px := p, rs_waiting := False\<rparr>"] main_ok_idle [OF I(1) n] P
    by (simp add: child_stays_def)
qed

lemma R_Kill_inv:
  assumes inv: "rs_inv env c sv s" and ev: "rs_event env c sv W R_Kill s = Some s'"
  shows "rs_inv env c sv s'"
proof -
  have I: "main_ok env c s" "scope_ok env s" "docs_ok env c sv s" using inv by (simp_all add: rs_inv_def)
  obtain e where n: "next_call s = Some e" "e = EvKill \<or> e = EvDestroyExecutor" and nk: "rs_killing s = NotKilling"
    using ev by (auto split: if_splits)
  have idle: "\<not> rs_waiting s" "main_wait (rs_px s) = None" using main_ok_idle [OF I(1) n(1)] n(2) by auto
  have pinv: "px_inv (rs_px s)" using I(2) by (simp add: scope_ok_def)
  have seen: "rs_seen s = None" using inv unseen [OF _ n(1)] n(2) by (auto simp: rs_inv_def)
  show ?thesis
  proof (cases "px_status (rs_px s) = RUNNING")
    case False
    then have "s' = finish_call s" using ev n nk by auto
    then show ?thesis using rs_inv_finish [OF inv n(1), of s] n(2) idle nk pinv False by (auto simp: child_stays_def)
  next
    case True
    define p where "p = (rs_px s)\<lparr>px_queue := px_queue (rs_px s) + 1\<rparr>"
    have s': "s' = s\<lparr>rs_px := p, rs_killing := KillQueued\<rparr>" using True ev n nk by (auto simp: p_def)
    have "px_event W PKillCall (rs_px s) = Some p" using True by (simp add: p_def)
    then have later: "px_later (rs_px s) p" by (rule px_event_later [OF pinv]) simp
    have "0 < px_queue p" by (simp add: p_def)
    then have "main_ok env c s'" using I(1) n nk idle later True by (auto simp: s' main_ok_def px_later_def)
    moreover have "scope_ok env s'"
      by (rule scope_silent [OF I(2)]) (use later in \<open>simp_all add: s' silent_step_def\<close>)
    moreover have "docs_ok env c sv s'"
      by (rule docs_same [OF I(3)])
        (use later in \<open>simp_all add: s' child_stays_def px_later_def has_returned_def same_manager\<close>)
    ultimately show ?thesis using inv seen_none [of s'] seen s' by (simp add: rs_inv_def)
  qed
qed

lemma R_KillTurn_inv:
  assumes inv: "rs_inv env c sv s" and ev: "rs_event env c sv W R_KillTurn s = Some s'"
  shows "rs_inv env c sv s'"
proof -
  have I: "main_ok env c s" "scope_ok env s" "docs_ok env c sv s" using inv by (simp_all add: rs_inv_def)
  obtain p where p: "rs_killing s = KillQueued" "kill_event W PKillLock (rs_px s) = Some p"
      "s' = s\<lparr>rs_px := p, rs_killing := KillActive\<rparr>"
    using ev by (auto simp del: kill_event.simps split: if_splits option.splits)
  have pinv: "px_inv (rs_px s)" using I(2) by (simp add: scope_ok_def)
  have "rs_seen s = None" using inv unseen [of s EvKill] unseen [of s EvDestroyExecutor] p(1)
    by (auto simp: rs_inv_def main_ok_def)
  then have seen: "seen_ok s'" by (intro seen_none) (simp add: p(3))
  have later: "px_later (rs_px s) p" using px_event_later [OF pinv kill_event_px [OF p(2)]] by simp
  have "px_status (rs_px s) \<noteq> NOT_STARTED" using I(1) p(1) by (simp add: main_ok_def)
  then have "stopping p" using p(2) later by (auto simp: stopping_def px_later_def split: if_splits)
  then have "main_ok env c s'" using I(1) p(1) later by (auto simp: p(3) main_ok_def px_later_def stopping_def)
  moreover have "scope_ok env s'"
    by (rule scope_silent [OF I(2)]) (use later in \<open>simp_all add: p(3) silent_step_def\<close>)
  moreover have "docs_ok env c sv s'"
    by (rule docs_same [OF I(3)])
      (use later in \<open>simp_all add: p(3) child_stays_def px_later_def has_returned_def same_manager\<close>)
  ultimately show ?thesis using inv seen by (simp add: rs_inv_def)
qed

lemma R_KillReturn_inv:
  assumes inv: "rs_inv env c sv s" and ev: "rs_event env c sv W R_KillReturn s = Some s'"
  shows "rs_inv env c sv s'"
proof -
  have I: "main_ok env c s" "scope_ok env s" using inv by (simp_all add: rs_inv_def)
  have p: "rs_killing s = KillActive" "px_kill (rs_px s) = K_idle" "s' = finish_call (s\<lparr>rs_killing := NotKilling\<rparr>)"
    using ev by (auto split: if_splits)
  obtain e where n: "next_call s = Some e" "e = EvKill \<or> e = EvDestroyExecutor" "stopping (rs_px s)"
    using I(1) p(1) by (auto simp: main_ok_def)
  have idle: "\<not> rs_waiting s" "main_wait (rs_px s) = None" using main_ok_idle [OF I(1) n(1)] n(2) by auto
  show ?thesis unfolding p(3)
    using rs_inv_finish [OF inv n(1), of "s\<lparr>rs_killing := NotKilling\<rparr>"] n(2,3) idle p(2)
    by (auto simp: child_stays_def stopping_def)
qed

lemma R_Look_inv:
  assumes inv: "rs_inv env c sv s" and ev: "rs_event env c sv W R_Look s = Some s'"
  shows "rs_inv env c sv s'"
proof -
  have H: "ae_throws env (EvPushHandler h) = None" for h using inv by (simp add: rs_inv_def)
  have I: "main_ok env c s" "scope_ok env s" "docs_ok env c sv s" using inv by (simp_all add: rs_inv_def)
  obtain e where n: "next_call s = Some e" "reads_status e" "s' = s\<lparr>rs_seen := Some (px_status (rs_px s))\<rparr>"
    using ev by (auto split: option.splits if_splits)
  have "main_ok env c s'" "scope_ok env s'" using I(1,2) n(3) by (simp_all add: main_ok_def scope_ok_def)
  moreover have "docs_ok env c sv s'"
    by (rule docs_same [OF I(3)]) (simp_all add: n(3) child_stays_def has_returned_def same_manager)
  moreover have "seen_ok s'" using report_ended [OF I(1,2) H n(1,2)] n by (simp add: seen_ok_def)
  ultimately show ?thesis using H by (simp add: rs_inv_def)
qed

lemma R_others_inv:
  assumes inv: "rs_inv env c sv s"
    and ev: "rs_event env c sv W e s = Some s'" "(\<exists>v. e = R_Signal v) \<or> (\<exists>x. e = R_Other x) \<or> (\<exists>t d. e = R_File t d) \<or> e = R_IOEnds"
  shows "rs_inv env c sv s'"
proof -
  have pinv: "px_inv (rs_px s)" using inv by (simp add: rs_inv_def scope_ok_def)
  consider (Signal) v where "e = R_Signal v" | (Other) x where "e = R_Other x" | (File) t d where "e = R_File t d"
    | (IOEnds) "e = R_IOEnds"
    using ev(2) by blast
  then show ?thesis
  proof cases
    case IOEnds
    then have s': "s' = s\<lparr>rs_io := True\<rparr>" using ev(1) by (auto split: if_splits)
    show ?thesis using px_later_refl [OF pinv]
      by (intro rs_inv_silent [OF inv]) (simp_all add: s' silent_step_def same_manager)
  next
    case Signal
    define g where "g = fst (globalSignalHandlerFunc run_callback v (rs_sig s, rs_px s))"
    define p where "p = snd (globalSignalHandlerFunc run_callback v (rs_sig s, rs_px s))"
    have s': "s' = s\<lparr>rs_sig := g, rs_px := p\<rparr>" using ev(1) Signal by (simp add: g_def p_def split: prod.splits)
    have "px_later (rs_px s) p" "gs_stack g = gs_stack (rs_sig s)" "px_queue (rs_px s) \<le> px_queue p"
      using callbacks_later [OF pinv] px_later_refl [OF pinv] callbacks_queue_stays
      by (simp_all add: p_def g_def globalSignalHandlerFunc_def gs_notify_def)
    then show ?thesis by (intro rs_inv_silent [OF inv]) (simp_all add: s' silent_step_def same_manager)
  next
    case Other
    then obtain p where p: "other_thread x s" "px_event W x (rs_px s) = Some p" "s' = s\<lparr>rs_px := p\<rparr>"
      using ev(1) by (auto simp del: px_event.simps split: if_splits option.splits)
    have "px_later (rs_px s) p" using px_event_later [OF pinv p(2)] other_thread_main [OF p(1)] .
    then show ?thesis using other_thread_queue [OF p(1,2)]
      by (intro rs_inv_silent [OF inv]) (simp_all add: p(3) silent_step_def same_manager)
  next
    case File
    then obtain p w where p: "fileGenerated sv t d (rs_mgr s, rs_world s) = Some (p, w)" "s' = s\<lparr>rs_mgr := p, rs_world := w\<rparr>"
      using ev(1) by (auto split: if_splits option.splits)
    then show ?thesis
      using rs_inv_silent [OF inv, of s'] fileGenerated_saves [OF p(1)] px_later_refl [OF pinv]
      by (simp add: silent_step_def)
  qed
qed

lemma rs_event_inv: "rs_inv env c sv s \<Longrightarrow> rs_event env c sv W e s = Some s' \<Longrightarrow> rs_inv env c sv s'"
  by (cases e; hypsubst;
    (erule (1) R_Call_inv R_Start_inv R_Wait_inv R_Woken_inv R_Kill_inv R_KillTurn_inv R_KillReturn_inv R_Look_inv
     | erule (1) R_others_inv, blast))

interpretation rs: event_system "rs_event env c sv W" "rs_inv env c sv" for env c sv W
  by unfold_locales (rule rs_event_inv)

lemma rs_starts_inv:
  assumes "\<And>h. ae_throws env (EvPushHandler h) = None" "rs_starts env c s"
  shows "rs_inv env c sv s"
proof -
  obtain ex p where ex: "ProgramExecutor_new (ac_args c) (ac_environ c) (ac_workDir c) True ''Program'' = Inr ex"
    and s: "s = rs_init env c ex p" "pc_statusFile p = ac_statusFile c" "pc_uri p = ac_callbackAPI c"
    using assms(2) by (auto simp: rs_starts_def PersistAndCallbackManager_new_def)
  have "px_inv (psys_init ex)" using px_reachable_inv [OF px_reachable.init [OF ex]] .
  moreover have "pe_status ex = NOT_STARTED" using ProgramExecutor_new_ok [OF ex] by simp
  ultimately show ?thesis using assms(1) s
    by (intro rs_invI)
      (simp_all add: rs_init_def main_ok_def scope_ok_def docs_ok_def seen_ok_def psys_init_def main_wait_def monitor_def
        GlobalSignalHandler_new_def has_returned_def status_docs_def ex_bool_eq)
qed

lemma rs_reachable_inv:
  assumes "\<And>h. ae_throws env (EvPushHandler h) = None" "rs_reachable env c sv W s"
  shows "rs_inv env c sv s"
  using assms(2) by induction (blast intro: rs_starts_inv [OF assms(1)] rs_event_inv)+

text \<open>Every step is, for the executor, a run of the executor's own system, so that its invariants hold here too.\<close>

lemma callbacks_px: "\<exists>es. px_run W es p = Some (fold (\<lambda>h. run_callback h v) hs p)"
proof (induction hs arbitrary: p)
  case (Cons h hs)
  obtain es where es: "px_run W es (run_callback h v p) = Some (fold (\<lambda>h. run_callback h v) hs (run_callback h v p))"
    using Cons.IH by blast
  have "run_callback h v p = p \<or> px_event W PKillCall p = Some (run_callback h v p)" by (auto simp: run_callback_def)
  then show ?case
  proof
    assume "run_callback h v p = p"
    then show ?thesis using es by auto
  next
    assume "px_event W PKillCall p = Some (run_callback h v p)"
    then show ?thesis using es by (intro exI [of _ "PKillCall # es"]) (simp del: px_event.simps)
  qed
qed (auto intro: exI [of _ "[]"])

lemma one_event_px: "px_event W x p = Some p' \<Longrightarrow> \<exists>es. px_run W es p = Some p'"
  by (intro exI [of _ "[x]"]) simp

lemma no_event_px: "\<exists>es. px_run W es p = Some p"
  by (intro exI [of _ "[]"]) simp

lemma rs_event_px:
  assumes ev: "rs_event env c sv W e s = Some s'"
  shows "\<exists>es. px_run W es (rs_px s) = Some (rs_px s')"
proof (cases e)
  case R_Call
  then obtain x r s1 where x: "call_effect env c sv x s = Some (r, s1)" "s' = finish_call s1"
    using ev by (auto simp: ends_as_Some split: option.splits)
  then show ?thesis using no_event_px [of W "rs_px s"] call_effect_frame(3) [OF x(1)] by simp
next
  case (R_Signal v)
  then show ?thesis using ev callbacks_px [of W "rs_px s"] no_event_px [of W "rs_px s"]
    by (auto simp: globalSignalHandlerFunc_def gs_notify_def split: prod.splits if_splits)
next
  case R_Kill
  then show ?thesis using ev no_event_px [of W "rs_px s"] one_event_px [OF kill_event_px, of W PKillCall "rs_px s"]
    by (auto simp del: px_event.simps kill_event.simps split: option.splits if_splits)
next
  case R_KillTurn
  then show ?thesis using ev one_event_px [OF kill_event_px, of W PKillLock "rs_px s"]
    by (auto simp del: px_event.simps kill_event.simps split: option.splits if_splits)
qed (use ev no_event_px [of W "rs_px s"] one_event_px [of W _ "rs_px s"] in \<open>auto simp: ends_as_Some
      simp del: px_event.simps kill_event.simps split: option.splits sum.splits prod.splits if_splits wait_step.splits\<close>)

lemma rs_reachable_px: "rs_reachable env c sv W s \<Longrightarrow> px_reachable W (rs_px s)"
proof (induction rule: rs_reachable.induct)
  case (init s)
  then show ?case by (auto simp: rs_starts_def rs_init_def intro: px_reachable.init)
next
  case (step s e s')
  then show ?case using rs_event_px [OF step.hyps(2)] px_run_reachable by blast
qed

lemma rs_run_reachable:
  "rs_reachable env c sv W s \<Longrightarrow> run_events (rs_event env c sv W) es s = Some s' \<Longrightarrow> rs_reachable env c sv W s'"
  by (induction es arbitrary: s) (auto split: option.splits intro: rs_reachable.step)

end
