(* ===== verification/RunReport.thy ===== *)
theory RunReport
  imports RunInvariant
begin

text \<open>
  What the main program guarantees as a whole (theories \<open>RunSystem\<close>, \<open>RunInvariant\<close>): the end of the program
  before anything that relies on it, the truth of the two status documents and of the environment of
  the command that runs after the program, and the way from a termination signal to the end of the wait.
\<close>

section \<open>A run\<close>

text \<open>
  A configuration with a status file and a command to run afterwards, and the trace of its \<open>runApp\<close> when
  no call throws; \<open>v\<close> is what the main thread reads of the end when it prepares the command.
\<close>

definition sample_config :: app_config where
  "sample_config = BaseApp_new\<lparr>ac_args := [''ls''], ac_statusFile := ''/tmp/s.json'', ac_runAfter := ''true''\<rparr>"

definition sample_run_env :: "end_view \<Rightarrow> app_env" where
  "sample_run_env v = (sample_env (\<lambda>_. None))\<lparr>ae_end := (\<lambda>_. v)\<rparr>"

lemma sample_config_sel [simp]:
  "ac_args sample_config = [''ls'']" "ac_statusFile sample_config = ''/tmp/s.json''"
  "ac_runAfter sample_config = ''true''" "ac_workDir sample_config = []" "ac_environ sample_config = []"
  "ac_outputFile sample_config = []" "ac_callbackAPI sample_config = []" "ac_callbackToken sample_config = []"
  "ac_watchGenerated sample_config = False" "ac_noExit sample_config = False" "ac_serverHost sample_config = []"
  "ac_serverPort sample_config = 0" "ac_bufferSize sample_config = DEFAULT_BUFFER_SIZE"
  "manager_enabled sample_config"
  by (simp_all add: sample_config_def BaseApp_new_def manager_enabled_def)

lemma sample_run_env_sel [simp]:
  "ae_throws (sample_run_env v) ev = None" "ae_shell (sample_run_env v) = Some ''/bin/bash''"
  "ae_hostName (sample_run_env v) = ''host''" "ae_port (sample_run_env v) = 8080"
  "ae_end (sample_run_env v) t = v" "ae_interrupted (sample_run_env v) t = False"
  "ae_runAfterFinishes (sample_run_env v)" "ae_parent (sample_run_env v) p = None"
  "ae_exists (sample_run_env v) p = (p = ''/tmp/old.json'')" "work_dir_size (sample_run_env v) = 10"
  "ae_readEnds (sample_run_env v) e cl = (e \<or> cl)"
  by (simp_all add: sample_run_env_def sample_env_def work_dir_size_def to_ssize_def SIZE_MOD_def)

lemma quiet_act: "ae_throws env ev = None \<Longrightarrow> act env ev t = (Inr (), t @ [ev])"
  by (simp add: act_def)

lemma sample_trace:
  "snd (runApp (sample_run_env v) sample_config []) =
    [EvHostName, EvCreateDirectories [], EvNewManager, EvNewExecutor [''ls''] [] [], EvNewBuffer DEFAULT_BUFFER_SIZE,
     EvNewController, EvBind [] 0, EvServerStart, EvExecutorStart, EvIOStart, EvProgramStarted ''host'' 8080,
     EvPushHandler KillOnSignal, EvWaitProgram, EvPopHandler, EvKill, EvIOJoin, EvCloseBuffer,
     EvPushHandler StopDirSize, EvDirSize, EvPopHandler, EvProgramFinished 10,
     EvNewRunAfter [''/bin/bash'', ''-c'', ''true'']
       (run_after_environ (ae_dec (sample_run_env v)) sample_config v),
     EvRunAfterStart, EvRunAfterWait 30000, EvDestroyRunAfter, EvPushHandler InterruptManager, EvManagerWait,
     EvPopHandler, EvServerStop, EvDestroyServer, EvDestroyController, EvDestroyBuffer, EvDestroyExecutor,
     EvDestroyManager]"
  by (simp add: runApp_def run_objects_def run_body_def run_watched_def run_program_def finish_io_def
      report_end_def run_after_def wait_manager_def wait_exit_def prepare_dirs_def make_parents_def
      makeParents_def scoped_def finally_do_def on_cond_def if_interrupted_def with_end_def
      bind_action_def ret_def quiet_act RUN_AFTER_TIMEOUT_SECONDS_def)

definition sample_child :: executor where
  "sample_child = \<lparr>pe_captureOutput = True, pe_loggingTag = ''Program'', pe_args = [''ls''], pe_environ = [],
     pe_workDir = [], pe_status = NOT_STARTED, pe_waitStatus = 0, pe_processId = - 1, pe_pipeFd = 0, pe_calls = []\<rparr>"

definition sample_reporter :: pc_manager where
  "sample_reporter = PersistAndCallbackManager_new (\<lambda>_. None) (\<lambda>_. None) 0 ''/tmp/s.json'' [] [] (60 * 1000)"

lemma sample_reporter_sel [simp]:
  "pc_statusFile sample_reporter = ''/tmp/s.json''" "pc_uri sample_reporter = []"
  by (simp_all add: sample_reporter_def PersistAndCallbackManager_new_def)

definition sample_begin :: "end_view \<Rightarrow> rsys" where
  "sample_begin v = rs_init (sample_run_env v) sample_config sample_child sample_reporter"

lemma sample_begins: "rs_reachable (sample_run_env v) sample_config sv W (sample_begin v)"
proof (rule rs_reachable.init)
  have "ProgramExecutor_new [''ls''] [] [] True ''Program'' = Inr sample_child"
    by (simp add: ProgramExecutor_new_def sample_child_def)
  then show "rs_starts (sample_run_env v) sample_config (sample_begin v)"
    unfolding rs_starts_def sample_begin_def sample_reporter_def sample_config_sel by blast
qed

text \<open>Services that print of a document only its status, and the exit code if it is 0 or -1.\<close>

fun print_status :: "unit json \<Rightarrow> string" where
  "print_status (JObject kvs) = (case map_of kvs ''status'' of Some (JString st) \<Rightarrow> st | _ \<Rightarrow> []) @
     (case map_of kvs ''exitCode'' of
        Some (JInt n) \<Rightarrow> (if n = 0 then '' 0'' else if n = - 1 then '' -1'' else '' ?'') | _ \<Rightarrow> [])"
| "print_status _ = []"

definition report_services :: "unit services" where
  "report_services = sample_services\<lparr>sv_stringify := print_status\<rparr>"

lemma report_services_sel [simp]:
  "sv_stringify report_services = print_status" "sv_saveFails report_services f = None"
  by (simp_all add: report_services_def)

abbreviation sample_step :: "end_view \<Rightarrow> unit run_step \<Rightarrow> rsys \<Rightarrow> rsys option" where
  "sample_step v \<equiv> rs_event (sample_run_env v) sample_config report_services (\<lambda>_. 1000)"

text \<open>The executor after its start, and the run up to the wait for the program.\<close>

definition running_child :: executor where
  "running_child = sample_child\<lparr>pe_processId := 100, pe_calls := [SysClose 4], pe_pipeFd := 3, pe_status := RUNNING\<rparr>"

definition running_px :: psys where
  "running_px = (psys_init running_child)\<lparr>px_child := Alive, px_bg := BgWaits, px_waits := (\<lambda>_. None)(0 \<mapsto> (None, False))\<rparr>"

definition sample_waiting :: "end_view \<Rightarrow> rsys" where
  "sample_waiting v =
     \<lparr>rs_done = take 12 (rs_todo (sample_begin v)), rs_todo = drop 12 (rs_todo (sample_begin v)), rs_px = running_px,
      rs_waiting = True, rs_killing = NotKilling, rs_seen = None,
      rs_mgr = sample_reporter\<lparr>pc_hostName := ''host'', pc_port := 8080\<rparr>,
      rs_world = \<lparr>wo_actions = [ASave ''/tmp/s.json'' ''RUNNING''], wo_posts = 0\<rparr>,
      rs_sig = gs_push 0 GlobalSignalHandler_new, rs_io = False\<rparr>"

lemma sample_waits:
  "run_events (sample_step v) [R_Call, R_Call, R_Call, R_Call, R_Call, R_Call, R_Call, R_Call,
     R_Start (Some (3, 4)) [] 100, R_Call, R_Call, R_Call, R_Wait] (sample_begin v) = Some (sample_waiting v)"
  by (simp add: sample_begin_def rs_init_def sample_trace next_call_def ends_as_def finish_call_def
      start_parent_def sample_child_def psys_init_def sys_def wait_enter_def programStarted_def publish_def
      saveFile_def jsonToString_def started_doc_def sample_waiting_def running_px_def running_child_def)

text \<open>The child ends, and the main thread goes on to the report of the end.\<close>

lemma sample_reports:
  "\<exists>s. run_events (sample_step v) [R_Other (PChildExit (exit_status 0)), R_Other PReap, R_Other PPublish, R_Woken,
       R_Call, R_Kill, R_IOEnds, R_Call, R_Call, R_Call, R_Call, R_Call, R_Look, R_Call] (sample_waiting v) = Some s \<and>
     rs_done s = take 21 (rs_todo (sample_begin v)) \<and> rs_todo s = drop 21 (rs_todo (sample_begin v)) \<and>
     px_exec (rs_px s) = running_child\<lparr>pe_status := EXITED, pe_waitStatus := exit_status 0\<rparr> \<and> rs_seen s = None"
proof -
  have w: "WIFEXITED (exit_status 0)" "terminated (exit_status 0)"
    by (simp_all add: WIFEXITED_def WTERMSIG_def exit_status_def terminated_def)
  show ?thesis
    by (simp add: sample_begin_def rs_init_def sample_trace next_call_def ends_as_def finish_call_def
        sample_waiting_def running_px_def running_child_def sample_child_def psys_init_def wait_publish_def w
        broadcast_def output_over_def programFinished_def publish_def saveFile_def jsonToString_def gs_push_def gs_append_def gs_pop_def
        tryInstallGlobalHandler_def GlobalSignalHandler_new_def)
qed

section \<open>Consequences of the invariants\<close>

text \<open>Where the main thread is past the scope of the program, the program has ended.\<close>

definition past_program :: "rsys \<Rightarrow> bool" where
  "past_program s \<longleftrightarrow> (case next_call s of None \<Rightarrow> True | Some ev \<Rightarrow> after_program ev)"

lemma past_program_ended:
  assumes inv: "rs_inv env c sv s" and past: "past_program s"
  shows "px_status (rs_px s) \<noteq> RUNNING" "px_child (rs_px s) = Alive \<longrightarrow> px_status (rs_px s) = CANNOT_KILL"
proof -
  have H: "ae_throws env (EvPushHandler h) = None" for h using inv by (simp add: rs_inv_def)
  have I: "main_ok env c s" "scope_ok env s" using inv by (simp_all add: rs_inv_def)
  have t: "snd (runApp env c []) = rs_done s @ rs_todo s" using I(1) by (simp add: main_ok_def)
  obtain run hs where m: "monitor (rs_done s) = Some (run, hs)" "\<not> run \<longrightarrow> px_status (rs_px s) \<noteq> RUNNING"
    using I(2) unfolding scope_ok_def by blast
  have "\<not> run"
  proof (cases "next_call s")
    case None
    then have "rs_todo s = []" by (simp add: next_call_def split: list.splits)
    then have "monitor (rs_done s) = Some (False, [])"
      using runApp_end [OF H, of c] t by simp
    then show ?thesis using m(1) by simp
  next
    case (Some ev)
    have "snd (runApp env c []) = (rs_done s @ [ev]) @ rs_todo (finish_call s)"
      using t finish_call_trace(2) [OF Some] by simp
    from runApp_monitored [OF H this] obtain run' hs' where step: "monitor_step ev (run, hs) = Some (run', hs')"
      using m(1) by auto
    show ?thesis using monitor_step_cases(3) [OF step] past Some by (simp add: past_program_def)
  qed
  then show stop: "px_status (rs_px s) \<noteq> RUNNING" using m(2) by simp
  show "px_child (rs_px s) = Alive \<longrightarrow> px_status (rs_px s) = CANNOT_KILL"
    using I(2) stop by (cases "px_status (rs_px s)") (auto simp: scope_ok_def px_inv_def px_fresh_def)
qed


section \<open>From a signal to the end of the wait\<close>

lemma callbacks_queue:
  "px_status p = RUNNING \<Longrightarrow> px_status (fold (\<lambda>h. run_callback h v) hs p) = RUNNING \<and>
     px_queue p + (if handler_id KillOnSignal \<in> set hs then 1 else 0) \<le> px_queue (fold (\<lambda>h. run_callback h v) hs p)"
proof (induction hs arbitrary: p)
  case (Cons h hs)
  have "px_status (run_callback h v p) = RUNNING"
    "px_queue p + (if h = handler_id KillOnSignal then 1 else 0) \<le> px_queue (run_callback h v p)"
    using Cons.prems by (simp_all add: run_callback_def)
  then show ?case using Cons.IH [of "run_callback h v p"] by auto
qed simp

lemma callbacks_frame: "px_waits (fold (\<lambda>h. run_callback h v) hs p) = px_waits p"
proof (induction hs arbitrary: p)
  case (Cons h hs)
  have "px_waits (run_callback h v p) = px_waits p" by (simp add: run_callback_def)
  then show ?case using Cons.IH by simp
qed simp

lemma others_run:
  assumes "\<forall>e \<in> set es. e = PKillLock \<or> killer_step e" "rs_killing s = NotKilling"
    and "px_run W es (rs_px s) = Some p"
  shows "run_events (rs_event env c sv W) (map R_Other es) s = Some (s\<lparr>rs_px := p\<rparr>)"
  using assms
proof (induction es arbitrary: s)
  case (Cons e es)
  obtain q where q: "px_event W e (rs_px s) = Some q" "px_run W es q = Some p"
    using Cons.prems(3) by (auto split: option.splits)
  have "other_thread e s" using Cons.prems(1,2) by (cases e) (auto simp: killer_step_def)
  then have "rs_event env c sv W (R_Other e) s = Some (s\<lparr>rs_px := q\<rparr>)" using q(1) by simp
  then show ?case using Cons.IH [of "s\<lparr>rs_px := q\<rparr>"] Cons.prems q(2) by simp
qed simp

text \<open>While the main thread waits, the handler that kills the program is installed.\<close>

lemma waiting_handler:
  assumes inv: "rs_inv env c sv s" and w: "rs_waiting s"
  shows "handler_id KillOnSignal \<in> set (gs_stack (rs_sig s))" "rs_killing s = NotKilling"
    "next_call s = Some EvWaitProgram" "ae_throws env EvWaitProgram = None" "\<exists>b. px_waits (rs_px s) 0 = Some (None, b)"
proof -
  have H: "ae_throws env (EvPushHandler h) = None" for h using inv by (simp add: rs_inv_def)
  have I: "main_ok env c s" "scope_ok env s" using inv by (simp_all add: rs_inv_def)
  show n: "next_call s = Some EvWaitProgram" using I(1) w by (simp add: main_ok_def)
  show "rs_killing s = NotKilling" using main_ok_idle [OF I(1) n] by simp
  show "ae_throws env EvWaitProgram = None" "\<exists>b. px_waits (rs_px s) 0 = Some (None, b)"
    using I(1) w by (auto simp: main_ok_def main_wait_def)
  obtain run hs where m: "monitor (rs_done s) = Some (run, hs)" "gs_stack (rs_sig s) = map handler_id (rev hs)"
    using I(2) unfolding scope_ok_def by blast
  have "snd (runApp env c []) = (rs_done s @ [EvWaitProgram]) @ rs_todo (finish_call s)"
    using I(1) finish_call_trace(2) [OF n] by (simp add: main_ok_def)
  from runApp_monitored [OF H this] obtain run' hs' where
    step: "monitor_step EvWaitProgram (run, hs) = Some (run', hs')" using m(1) by auto
  show "handler_id KillOnSignal \<in> set (gs_stack (rs_sig s))"
    using monitor_step_cases(4) [OF step] m(2) by (cases hs) auto
qed

lemma signal_run:
  assumes inv: "rs_inv env c sv s" and w: "rs_waiting s" and W: "\<forall>n. W n > 0" and v: "v = SIGINT \<or> v = SIGTERM"
  shows "\<exists>es s'. (\<forall>e \<in> set es. e = PKillLock \<or> killer_step e) \<and> length es \<le> 11 \<and>
    run_events (rs_event env c sv W) (R_Signal v # map R_Other es @ [R_Woken]) s = Some s' \<and>
    px_status (rs_px s') \<noteq> RUNNING \<and> rs_done s' = rs_done s @ [EvWaitProgram]"
proof -
  note wh = waiting_handler [OF inv w]
  have pinv: "px_inv (rs_px s)" using inv by (simp add: rs_inv_def scope_ok_def)
  define p where "p = fold (\<lambda>h. run_callback h v) (rev (gs_stack (rs_sig s))) (rs_px s)"
  define s1 where "s1 = s\<lparr>rs_sig := (rs_sig s)\<lparr>gs_interrupted := True\<rparr>, rs_px := p\<rparr>"
  have s1: "rs_event env c sv W (R_Signal v) s = Some s1"
    using v by (simp add: globalSignalHandlerFunc_def gs_notify_def s1_def p_def)
  have pi: "px_inv p" "px_waits p = px_waits (rs_px s)"
    using callbacks_later [OF pinv] callbacks_frame by (simp_all add: p_def px_later_def)
  obtain es q where es: "\<forall>e \<in> set es. e = PKillLock \<or> killer_step e" "length es \<le> 11" "px_run W es p = Some q"
      "px_inv q" "px_status q \<noteq> RUNNING" "px_waits q 0 = Some (None, True)"
  proof (cases "px_status (rs_px s) = RUNNING")
    case True
    then have "px_queue p > 0" using callbacks_queue [OF True, of v "rev (gs_stack (rs_sig s))"] wh(1) by (simp add: p_def)
    then show thesis using kill_run [OF pi(1) W] that wh(5) pi(2) by metis
  next
    case False
    then have "px_status p \<noteq> RUNNING" using callbacks_later [OF pinv] by (simp add: p_def px_later_def)
    then have "all_signalled (px_waits p)" using pi(1) by (simp add: px_inv_def)
    moreover obtain b where "px_waits p 0 = Some (None, b)" using wh(5) pi(2) by auto
    ultimately have "px_waits p 0 = Some (None, True)" by (cases b) (auto simp: all_signalled_def)
    then show thesis using that [of "[]" p] pi \<open>px_status p \<noteq> RUNNING\<close> by simp
  qed
  let ?s2 = "s1\<lparr>rs_px := q\<rparr>"
  have "run_events (rs_event env c sv W) (map R_Other es) s1 = Some ?s2"
    by (rule others_run [OF es(1)]) (use wh(2) es(3) in \<open>simp_all add: s1_def\<close>)
  moreover have "rs_event env c sv W R_Woken ?s2 =
      Some (finish_call (?s2\<lparr>rs_px := q\<lparr>px_waits := (px_waits q)(0 := None)\<rparr>, rs_waiting := False\<rparr>))"
    using w wh(4) es(6) by (simp add: s1_def ends_as_def)
  ultimately have "run_events (rs_event env c sv W) (R_Signal v # map R_Other es @ [R_Woken]) s =
      Some (finish_call (?s2\<lparr>rs_px := q\<lparr>px_waits := (px_waits q)(0 := None)\<rparr>, rs_waiting := False\<rparr>))"
    using s1 by (simp add: run_events_append)
  moreover have "rs_done (finish_call (?s2\<lparr>rs_px := q\<lparr>px_waits := (px_waits q)(0 := None)\<rparr>, rs_waiting := False\<rparr>)) =
      rs_done s @ [EvWaitProgram]"
    using wh(3) by (auto simp: finish_call_def s1_def next_call_def split: list.splits)
  ultimately show ?thesis using es(1,2,5) by (intro exI [of _ es] exI) (auto simp: finish_call_def)
qed

section \<open>Properties\<close>

text \<open>C5: Whatever the other threads, the operating system and signals do, and whichever calls throw: when
  the main thread is past the scope of the program, up to its end, the program is not \<open>RUNNING\<close>; a
  child may be alive then only if \<open>kill\<close> has given up on it. In particular the destructor of the
  executor never has anything to kill.\<close>

theorem program_ended_before_rest:
  assumes "rs_reachable env c sv W s" "\<And>h. ae_throws env (EvPushHandler h) = None" "past_program s"
  shows "px_status (rs_px s) \<noteq> RUNNING \<and> (px_child (rs_px s) = Alive \<longrightarrow> px_status (rs_px s) = CANNOT_KILL)"
  using past_program_ended [OF rs_reachable_inv [OF assms(2,1)] assms(3)] by blast



text \<open>C6: A termination signal gets the main thread out of its wait for the program: while it waits, the handler
  that kills the program is installed, and from there SIGINT or SIGTERM and at most eleven steps of
  \<open>kill\<close>, with positive waits, lead to a state in which the program is no longer \<open>RUNNING\<close> and the main thread
  goes on with the next call.\<close>

theorem signal_ends_wait:
  assumes "rs_reachable env c sv W s" "\<And>h. ae_throws env (EvPushHandler h) = None"
    and "rs_waiting s" "\<forall>n. W n > 0" "v = SIGINT \<or> v = SIGTERM"
  shows "\<exists>es s'. (\<forall>e \<in> set es. e = PKillLock \<or> killer_step e) \<and> length es \<le> 11 \<and>
    run_events (rs_event env c sv W) (R_Signal v # map R_Other es @ [R_Woken]) s = Some s' \<and>
    px_status (rs_px s') \<noteq> RUNNING \<and> rs_done s' = rs_done s @ [EvWaitProgram]"
  by (rule signal_run [OF rs_reachable_inv [OF assms(2,1)] assms(3-5)])

lemma sample_waiting_reachable: "rs_reachable (sample_run_env v) sample_config report_services (\<lambda>_. 1000) (sample_waiting v)"
  by (rule rs_run_reachable [OF sample_begins sample_waits])

text \<open>The state in which the sample run has reported the end.\<close>

definition quiet_view :: end_view where
  "quiet_view = (EXITED, running_child\<lparr>pe_status := EXITED, pe_waitStatus := exit_status 0\<rparr>)"

lemma sample_reported:
  obtains s where "rs_reachable (sample_run_env v) sample_config report_services (\<lambda>_. 1000) s"
    "rs_done s = take 21 (rs_todo (sample_begin v))" "rs_todo s = drop 21 (rs_todo (sample_begin v))"
    "px_exec (rs_px s) = snd quiet_view" "rs_seen s = None"
  using sample_reports [of v] rs_run_reachable [OF sample_waiting_reachable] unfolding quiet_view_def snd_conv by blast

lemma program_ended_before_rest_witness:
  "\<exists>s. rs_reachable (sample_run_env quiet_view) sample_config report_services (\<lambda>_. 1000) s \<and>
     past_program s \<and> px_status (rs_px s) \<noteq> RUNNING"
proof -
  obtain s where s: "rs_reachable (sample_run_env quiet_view) sample_config report_services (\<lambda>_. 1000) s"
    "rs_todo s = drop 21 (rs_todo (sample_begin quiet_view))"
    using sample_reported [of quiet_view] by blast
  have p: "past_program s" using s(2) by (simp add: past_program_def next_call_def sample_begin_def rs_init_def sample_trace)
  show ?thesis using program_ended_before_rest [OF s(1) _ p] s(1) p by auto
qed



lemma signal_ends_wait_witness:
  "\<exists>es s'. run_events (sample_step quiet_view) (R_Signal 15 # map R_Other es @ [R_Woken]) (sample_waiting quiet_view) = Some s' \<and>
     px_status (rs_px s') \<noteq> RUNNING"
proof -
  have "rs_waiting (sample_waiting quiet_view)" by (simp add: sample_waiting_def)
  from signal_ends_wait [OF sample_waiting_reachable _ this, of 15] show ?thesis by (auto simp: SIGTERM_def)
qed

section \<open>A kill that gives up late\<close>

text \<open>
  When a call of \<open>kill\<close> gives up on a program that has ended meanwhile, that is final; what is read of the end
  from then on is \<open>CANNOT_KILL\<close>, and so it is told to the command that runs afterwards.
\<close>

definition told_cannot :: "app_event list \<Rightarrow> bool" where
  "told_cannot evs \<longleftrightarrow> (\<forall>args environ. EvNewRunAfter args environ \<in> set evs \<longrightarrow>
     map_of environ (ENV_PREFIX @ ''PROGRAM_EXIT_STATUS'') = Some ''CANNOT_KILL'')"

definition lost_end :: "app_event list \<Rightarrow> rsys \<Rightarrow> bool" where
  "lost_end evs s \<longleftrightarrow> published (rs_px s) \<and> px_done (rs_px s) \<and> (rs_seen s = None \<or> rs_seen s = Some CANNOT_KILL) \<and>
     (\<exists>evs'. rs_done s = evs @ evs' \<and> told_cannot evs')"

lemma told_call:
  assumes "call_effect env c sv ev s = Some (r, s')" "rs_seen s = None \<or> rs_seen s = Some CANNOT_KILL"
  shows "told_cannot [ev]"
proof (cases "\<exists>args environ. ev = EvNewRunAfter args environ")
  case True
  then obtain args environ where ev: "ev = EvNewRunAfter args environ" by blast
  then have "environ = run_after_environ (ae_dec env) c (CANNOT_KILL, px_exec (rs_px s))"
    using assms by (auto split: option.splits if_splits)
  then show ?thesis
    using run_after_map_of(1) [of "ae_dec env" "(CANNOT_KILL, px_exec (rs_px s))" c] by (simp add: told_cannot_def end_visible_def ev)
qed (auto simp: told_cannot_def)

lemma told_append: "told_cannot (xs @ ys) \<longleftrightarrow> told_cannot xs \<and> told_cannot ys"
  by (auto simp: told_cannot_def)

text \<open>How a step changes what has been done and seen.\<close>

lemma rs_event_done:
  assumes inv: "rs_inv env c sv s" and ev: "rs_event env c sv W e s = Some s'"
  shows "rs_done s' = rs_done s \<and> rs_seen s' \<in> {rs_seen s, Some (px_status (rs_px s))} \<or>
    (\<exists>x r s1. next_call s = Some x \<and> call_effect env c sv x s = Some (r, s1) \<and> rs_done s' = rs_done s @ [x] \<and>
       rs_seen s' \<in> {rs_seen s, None}) \<or>
    (\<exists>x \<in> {EvExecutorStart, EvWaitProgram, EvKill, EvDestroyExecutor}. rs_done s' = rs_done s @ [x] \<and> rs_seen s' = rs_seen s)"
proof (cases e)
  case R_Call
  then obtain x r s1 where x: "next_call s = Some x" "call_effect env c sv x s = Some (r, s1)" "s' = finish_call s1"
    using ev by (auto simp: ends_as_Some split: option.splits)
  have n: "next_call s1 = Some x" using x(1) call_effect_frame(2) [OF x(2)] by (simp add: next_call_def)
  have "rs_done s' = rs_done s @ [x]" "rs_seen s' \<in> {rs_seen s, None}"
    using finish_call_trace(1) [OF n] call_effect_frame(1,7) [OF x(2)] x(3) by simp_all
  then show ?thesis using x(1,2) by blast
next
  case R_Kill
  then show ?thesis using ev by (auto simp: finish_call_trace split: option.splits if_splits)
next
  case R_KillReturn
  then have k: "rs_killing s = KillActive" "s' = finish_call (s\<lparr>rs_killing := NotKilling\<rparr>)"
    using ev by (auto split: if_splits)
  then have "next_call s = Some EvKill \<or> next_call s = Some EvDestroyExecutor" using inv by (simp add: rs_inv_def main_ok_def)
  then show ?thesis using k(2) by (auto simp: finish_call_trace)
next
  case R_Woken
  then have w: "rs_waiting s" using ev by (auto split: if_splits)
  have "next_call s = Some EvWaitProgram" using waiting_handler(3) [OF inv w] .
  then show ?thesis using ev R_Woken
    by (auto simp: ends_as_Some finish_call_trace simp del: px_event.simps split: option.splits if_splits)
qed (use ev in \<open>auto simp: ends_as_Some finish_call_trace
      simp del: px_event.simps kill_event.simps split: option.splits sum.splits prod.splits if_splits wait_step.splits\<close>)

lemma lost_end_step:
  assumes inv: "rs_inv env c sv s" and ev: "rs_event env c sv W e s = Some s'" and lost: "lost_end evs s"
  shows "lost_end evs s'"
proof -
  obtain es where "px_run W es (rs_px s) = Some (rs_px s')" using rs_event_px [OF ev] by blast
  then have px: "published (rs_px s')" "px_done (rs_px s')"
    using run_follows [of "rs_px s" W es "rs_px s'"] lost by (simp_all add: lost_end_def follows_def)
  obtain evs' where d: "rs_done s = evs @ evs'" "told_cannot evs'" and seen: "rs_seen s = None \<or> rs_seen s = Some CANNOT_KILL"
    and st: "px_status (rs_px s) = CANNOT_KILL"
    using lost by (auto simp: lost_end_def px_done_def)
  from rs_event_done [OF inv ev] consider (silent) "rs_done s' = rs_done s" "rs_seen s' \<in> {rs_seen s, Some CANNOT_KILL}"
    | (call) x r s1 where "call_effect env c sv x s = Some (r, s1)" "rs_done s' = rs_done s @ [x]" "rs_seen s' \<in> {rs_seen s, None}"
    | (other) x where "\<forall>args environ. x \<noteq> EvNewRunAfter args environ" "rs_done s' = rs_done s @ [x]" "rs_seen s' = rs_seen s"
    unfolding st by blast
  then have "(rs_seen s' = None \<or> rs_seen s' = Some CANNOT_KILL) \<and> (\<exists>evs'. rs_done s' = evs @ evs' \<and> told_cannot evs')"
  proof cases
    case silent
    then show ?thesis using d seen by auto
  next
    case call
    have "told_cannot (evs' @ [x])" using d(2) told_call [OF call(1) seen] by (simp only: told_append)
    then show ?thesis using d(1) call(2,3) seen by auto
  next
    case other
    have "told_cannot [x]" using other(1) by (auto simp: told_cannot_def)
    then have "told_cannot (evs' @ [x])" using d(2) by (simp only: told_append)
    then show ?thesis using d(1) other(2,3) seen by auto
  qed
  then show ?thesis using px by (simp add: lost_end_def)
qed

lemma lost_end_run:
  "rs_inv env c sv s \<Longrightarrow> lost_end evs s \<Longrightarrow> run_events (rs_event env c sv W) es s = Some s' \<Longrightarrow> lost_end evs s'"
proof (induction es arbitrary: s)
  case (Cons e es)
  then obtain s1 where s1: "rs_event env c sv W e s = Some s1" "run_events (rs_event env c sv W) es s1 = Some s'"
    by (auto split: option.splits)
  show ?case using Cons.IH [OF rs_event_inv [OF Cons.prems(1) s1(1)] lost_end_step [OF Cons.prems(1) s1(1) Cons.prems(2)] s1(2)] .
qed simp

text \<open>C40: A call of \<open>kill\<close> from another thread that gives up late spoils the report of a program that has exited:
  whenever the main thread is about to report the end of an exited program while a call of \<open>kill\<close> has seen its
  last wait time out, \<open>kill\<close> can give up between the two reads of the end. Then the document that is saved says
  \<open>EXITED\<close>, with an exit code that reads as -1 whatever the child's own code was; and whatever happens later the
  executor says \<open>CANNOT_KILL\<close>, and this is what the command that runs afterwards is told.\<close>

theorem reported_exit_code_lost:
  fixes sv :: "'j services"
  assumes "rs_reachable env c sv W s" "\<And>h. ae_throws env (EvPushHandler h) = None"
    and "next_call s = Some (EvProgramFinished n)" "rs_seen s = None" "ae_throws env (EvProgramFinished n) = None"
    and "px_status (rs_px s) = EXITED" "px_kill (rs_px s) = K_giveup"
    and "ac_statusFile c \<noteq> []" "sv_saveFails sv (ac_statusFile c) = None" "pc_maxRetry (rs_mgr s) \<noteq> - 1"
  shows "\<exists>w ex s'. px_child (rs_px s) = Reaped w \<and> WIFEXITED w \<and> exitCode (px_exec (rs_px s)) = WEXITSTATUS w \<and>
    run_events (rs_event env c sv W) [R_Look, R_Other PKillGiveUp, R_Call] s = Some s' \<and>
    rs_done s' = rs_done s @ [EvProgramFinished n] \<and> exitCode ex = - 1 \<and>
    saved (rs_world s') = saved (rs_world s) @
      [(ac_statusFile c, jsonToString sv (finished_doc (rs_mgr s) (EXITED, ex) n))] \<and>
    (\<forall>es s''. run_events (rs_event env c sv W) es s' = Some s'' \<longrightarrow> px_status (rs_px s'') = CANNOT_KILL \<and>
       (\<exists>evs. rs_done s'' = rs_done s' @ evs \<and> told_cannot evs))"
proof -
  have inv: "rs_inv env c sv s" by (rule rs_reachable_inv [OF assms(2,1)])
  have pub: "published (rs_px s)" by (rule reachable_published [OF rs_reachable_px [OF assms(1)]])
  have "px_ended (rs_px s)" using pub assms(6) by (simp add: px_ended_def published_def)
  then obtain w where w: "px_child (rs_px s) = Reaped w" "WIFEXITED w" "pe_waitStatus (px_exec (rs_px s)) = w"
    using assms(6) by (auto elim: ended_cases)
  have bg: "px_bg (rs_px s) = BgDone" using pub assms(6) by (simp add: published_def)
  have named: "pc_statusFile (rs_mgr s) = ac_statusFile c" using inv by (simp add: rs_inv_def docs_ok_def)
  define p where "p = broadcast ((rs_px s)\<lparr>px_exec := give_up (px_exec (rs_px s)), px_kill := K_idle\<rparr>)"
  have px: "px_event W PKillGiveUp (rs_px s) = Some p" using assms(7) by (simp add: p_def)
  have ex: "px_exec p = give_up (px_exec (rs_px s))" "px_status p = CANNOT_KILL" by (simp_all add: p_def)
  define ex where "ex = px_exec p"
  obtain w' where w': "publish sv (rs_mgr s) (finished_doc (rs_mgr s) (EXITED, ex) n) (rs_world s) = Some (Inr w')"
    using publish_returns [of "rs_mgr s" sv] assms(9,10) named by metis
  define s1 where "s1 = s\<lparr>rs_px := p, rs_seen := None, rs_world := w'\<rparr>"
  have run: "run_events (rs_event env c sv W) [R_Look, R_Other PKillGiveUp, R_Call] s = Some (finish_call s1)"
    using assms(3-6) px w' by (simp add: ends_as_def programFinished_def next_call_def ex_def s1_def)
  have n1: "next_call s1 = Some (EvProgramFinished n)" using assms(3) by (simp add: s1_def next_call_def)
  have done1: "rs_done (finish_call s1) = rs_done s @ [EvProgramFinished n]"
    using finish_call_trace(1) [OF n1] by (simp add: s1_def)
  have saved1: "saved (rs_world (finish_call s1)) = saved (rs_world s) @
      [(ac_statusFile c, jsonToString sv (finished_doc (rs_mgr s) (EXITED, ex) n))]"
    using publish_saves [OF w'] named assms(8) by (simp add: s1_def)
  have "published p" "px_bg p = BgDone"
    using published_step [OF pub px] bg by (simp_all add: follows_def)
  then have "lost_end (rs_done (finish_call s1)) (finish_call s1)"
    using ex by (simp add: lost_end_def px_done_def told_cannot_def s1_def)
  moreover have "rs_inv env c sv (finish_call s1)"
    by (rule rs_reachable_inv [OF assms(2) rs_run_reachable [OF assms(1) run]])
  ultimately have later: "\<forall>es s''. run_events (rs_event env c sv W) es (finish_call s1) = Some s'' \<longrightarrow>
      px_status (rs_px s'') = CANNOT_KILL \<and> (\<exists>evs. rs_done s'' = rs_done (finish_call s1) @ evs \<and> told_cannot evs)"
    using lost_end_run [of env c sv "finish_call s1" "rs_done (finish_call s1)" W] by (auto simp: lost_end_def px_done_def)
  have codes: "exitCode (px_exec (rs_px s)) = WEXITSTATUS w" "exitCode ex = - 1"
    using w(3) assms(6) by (simp_all add: exitCode_def ex_def ex)
  show ?thesis
    by (rule exI [of _ w], rule exI [of _ ex], rule exI [of _ "finish_call s1"])
      (use w codes run done1 saved1 later in blast)
qed

text \<open>
  The run in which another thread, in \<open>kill\<close>, has sent its three signals and is about to give up when the
  child exits, up to the report.
\<close>

definition lost_kill :: "unit run_step list" where
  "lost_kill = map R_Other
     [PKillCall, PKillLock, PKillSend, PKillEnter, PKillTimeout, PKillSend, PKillEnter, PKillTimeout,
      PKillSend, PKillEnter, PKillTimeout, PChildExit (exit_status 0), PReap, PPublish]"

definition to_report :: "unit run_step list" where
  "to_report = [R_Woken, R_Call, R_Kill, R_IOEnds, R_Call, R_Call, R_Call, R_Call, R_Call]"

lemma lost_kill_run:
  "\<exists>s. run_events (sample_step quiet_view) (lost_kill @ to_report) (sample_waiting quiet_view) = Some s \<and>
     next_call s = Some (EvProgramFinished 10) \<and> rs_seen s = None \<and> px_status (rs_px s) = EXITED \<and>
     px_kill (rs_px s) = K_giveup \<and> pc_maxRetry (rs_mgr s) \<noteq> - 1 \<and> saved (rs_world s) = [(''/tmp/s.json'', ''RUNNING'')]"
proof -
  have w: "WIFEXITED (exit_status 0)" "terminated (exit_status 0)"
    by (simp_all add: WIFEXITED_def WTERMSIG_def exit_status_def terminated_def)
  have "\<exists>s. run_events (sample_step quiet_view) lost_kill (sample_waiting quiet_view) = Some s \<and>
      s = (sample_waiting quiet_view)\<lparr>rs_px := rs_px s\<rparr> \<and> px_status (rs_px s) = EXITED \<and>
      px_child (rs_px s) = Reaped (exit_status 0) \<and> px_kill (rs_px s) = K_giveup \<and>
      px_waits (rs_px s) 0 = Some (None, True)"
    by (simp add: lost_kill_def sample_waiting_def running_px_def running_child_def sample_child_def psys_init_def
        wait_publish_def w broadcast_def wait_enter_def kill_signal_def killIfRunning_def sys_def)
  then obtain s p where s: "run_events (sample_step quiet_view) lost_kill (sample_waiting quiet_view) = Some s"
      "s = (sample_waiting quiet_view)\<lparr>rs_px := p\<rparr>" "px_status p = EXITED"
      "px_child p = Reaped (exit_status 0)" "px_kill p = K_giveup" "px_waits p 0 = Some (None, True)"
    by auto
  have "\<exists>s'. run_events (sample_step quiet_view) to_report s = Some s' \<and>
     next_call s' = Some (EvProgramFinished 10) \<and> rs_seen s' = None \<and> px_status (rs_px s') = EXITED \<and>
     px_kill (rs_px s') = K_giveup \<and> pc_maxRetry (rs_mgr s') \<noteq> - 1 \<and> saved (rs_world s') = [(''/tmp/s.json'', ''RUNNING'')]"
    unfolding s(2) to_report_def
    using s(3-6) by (simp add: sample_begin_def rs_init_def sample_trace next_call_def ends_as_def finish_call_def
        sample_waiting_def output_over_def gs_push_def gs_append_def gs_pop_def tryInstallGlobalHandler_def
        GlobalSignalHandler_new_def sample_reporter_def PersistAndCallbackManager_new_def CALLBACK_MAX_RETRY_def)
  then show ?thesis using s(1) by (auto simp: run_events_append)
qed

lemma reported_exit_code_lost_witness:
  "\<exists>s s'. rs_reachable (sample_run_env quiet_view) sample_config report_services (\<lambda>_. 1000) s \<and>
     run_events (sample_step quiet_view) [R_Look, R_Other PKillGiveUp, R_Call] s = Some s' \<and>
     saved (rs_world s') = [(''/tmp/s.json'', ''RUNNING''), (''/tmp/s.json'', ''EXITED -1'')]"
proof -
  obtain s where s: "run_events (sample_step quiet_view) (lost_kill @ to_report) (sample_waiting quiet_view) = Some s"
    "next_call s = Some (EvProgramFinished 10)" "rs_seen s = None" "px_status (rs_px s) = EXITED"
    "px_kill (rs_px s) = K_giveup" "pc_maxRetry (rs_mgr s) \<noteq> - 1" "saved (rs_world s) = [(''/tmp/s.json'', ''RUNNING'')]"
    using lost_kill_run by blast
  note reach = rs_run_reachable [OF sample_waiting_reachable s(1)]
  obtain ex s' where "exitCode ex = - 1" "run_events (sample_step quiet_view) [R_Look, R_Other PKillGiveUp, R_Call] s = Some s'"
    "saved (rs_world s') = saved (rs_world s) @
      [(ac_statusFile sample_config, jsonToString report_services (finished_doc (rs_mgr s) (EXITED, ex) 10))]"
    using reported_exit_code_lost [OF reach _ s(2,3) _ s(4,5) _ _ s(6)] by auto
  then show ?thesis using reach s(7)
    by (intro exI [of _ s] exI [of _ s']) (simp add: jsonToString_def finished_doc_def)
qed

end
