(* ===== verification/RunProgress.thy ===== *)
theory RunProgress
  imports RunReport
begin

text \<open>
  The main program at work (theory \<open>RunSystem\<close>) never gets stuck: from every state it can be brought to its
  end by its own steps, SIGTERM and the steps of \<open>kill\<close>, whatever the program it runs does. The
  theory gives the steps of each call a rank and instantiates the contract \<open>ending_system\<close>.
\<close>

section \<open>Progress\<close>

text \<open>
  The steps of the main thread, a SIGTERM, the steps of a call of \<open>kill\<close>, and that with which the thread that
  reads the output comes to its end: none of the child.
\<close>

fun own_step :: "'j run_step \<Rightarrow> bool" where
  "own_step (R_Other e) \<longleftrightarrow> e = PKillLock \<or> killer_step e"
| "own_step (R_Signal v) \<longleftrightarrow> v = SIGTERM"
| "own_step (R_File t d) \<longleftrightarrow> False"
| "own_step e \<longleftrightarrow> True"

text \<open>How many such steps the next call needs at most, and the whole rest.\<close>

definition wait_rank :: "rsys \<Rightarrow> nat" where
  "wait_rank s =
     (if \<not> rs_waiting s then 15
      else if px_waits (rs_px s) 0 = Some (None, True) then 0
      else if px_kill (rs_px s) \<noteq> K_idle then kill_rank (px_kill (rs_px s))
      else if px_queue (rs_px s) > 0 then 13 else 14)"

definition turn_rank :: "rsys \<Rightarrow> nat" where
  "turn_rank s =
     (case rs_killing s of
        NotKilling \<Rightarrow> 30
      | KillQueued \<Rightarrow> 12 + kill_rank (px_kill (rs_px s))
      | KillActive \<Rightarrow> kill_rank (px_kill (rs_px s)))"

definition call_rank :: "rsys \<Rightarrow> nat" where
  "call_rank s =
     (case next_call s of
        Some EvWaitProgram \<Rightarrow> wait_rank s
      | Some EvKill \<Rightarrow> turn_rank s
      | Some EvDestroyExecutor \<Rightarrow> turn_rank s
      | Some EvManagerInterrupt \<Rightarrow> (if interrupted (rs_sig s) then 0 else 1)
      | Some EvWaitSignal \<Rightarrow> (if interrupted (rs_sig s) then 0 else 1)
      | Some EvIOJoin \<Rightarrow> (if rs_io s then 0 else 1)
      | Some ev \<Rightarrow> (if reads_status ev \<and> rs_seen s = None then 1 else 0)
      | None \<Rightarrow> 0)"

definition rest_rank :: "rsys \<Rightarrow> nat" where
  "rest_rank s = 40 * length (rs_todo s) + call_rank s"

lemma wait_rank_le: "px_inv (rs_px s) \<Longrightarrow> wait_rank s \<le> 15"
  using kill_rank_bound [of "rs_px s"] by (simp add: wait_rank_def)

lemma turn_rank_le: "px_inv (rs_px s) \<Longrightarrow> turn_rank s \<le> 30"
  using kill_rank_bound [of "rs_px s"] by (simp add: turn_rank_def split: kill_turn.split)

lemma call_rank_le: "px_inv (rs_px s) \<Longrightarrow> call_rank s \<le> 30"
  using wait_rank_le [of s] turn_rank_le [of s] by (auto simp: call_rank_def split: option.split app_event.split)

lemma call_rank_same:
  "next_call s' = next_call s \<Longrightarrow> wait_rank s' < wait_rank s \<Longrightarrow> next_call s = Some EvWaitProgram \<Longrightarrow> call_rank s' < call_rank s"
  "next_call s' = next_call s \<Longrightarrow> turn_rank s' < turn_rank s \<Longrightarrow> next_call s \<in> {Some EvKill, Some EvDestroyExecutor} \<Longrightarrow>
   call_rank s' < call_rank s"
  by (auto simp: call_rank_def)

lemma rest_rank_silent: "rs_todo s' = rs_todo s \<Longrightarrow> call_rank s' < call_rank s \<Longrightarrow> rest_rank s' < rest_rank s"
  by (simp add: rest_rank_def)

lemma rest_rank_finish:
  assumes "rs_inv env c sv (finish_call s1)" "next_call s = Some ev" "rs_todo s1 = rs_todo s"
  shows "rest_rank (finish_call s1) < rest_rank s"
proof -
  have "next_call s1 = Some ev" using assms(2,3) by (simp add: next_call_def)
  then have "rs_todo s = ev # rs_todo (finish_call s1)" using finish_call_trace(2) assms(3) by metis
  moreover have "call_rank (finish_call s1) \<le> 30"
    using assms(1) by (intro call_rank_le) (simp add: rs_inv_def scope_ok_def)
  ultimately show ?thesis by (simp add: rest_rank_def)
qed

section \<open>Each call\<close>

text \<open>
  The calls that start, await and report the program do not throw, there is no command to run afterwards, documents
  can be saved, the waits are positive, and the read of the output comes back when the child has ended or
  the pipe is closed.
\<close>

definition undisturbed :: "app_env \<Rightarrow> app_config \<Rightarrow> 'j services \<Rightarrow> (nat \<Rightarrow> int) \<Rightarrow> bool" where
  "undisturbed env c sv W \<longleftrightarrow> (\<forall>ev. is_report ev \<longrightarrow> ae_throws env ev = None) \<and> ac_runAfter c = [] \<and>
     (ac_statusFile c = [] \<or> sv_saveFails sv (ac_statusFile c) = None) \<and> (\<forall>n. W n > 0) \<and>
     (\<forall>ended closed. ended \<or> closed \<longrightarrow> ae_readEnds env ended closed)"

definition live :: "app_env \<Rightarrow> app_config \<Rightarrow> 'j services \<Rightarrow> (nat \<Rightarrow> int) \<Rightarrow> rsys \<Rightarrow> bool" where
  "live env c sv W s \<longleftrightarrow> rs_inv env c sv s \<and> undisturbed env c sv W \<and> pc_maxRetry (rs_mgr s) \<noteq> - 1 \<and>
     px_reachable W (rs_px s)"

definition progresses :: "app_env \<Rightarrow> app_config \<Rightarrow> 'j services \<Rightarrow> (nat \<Rightarrow> int) \<Rightarrow> rsys \<Rightarrow> bool" where
  "progresses env c sv W s \<longleftrightarrow>
     (\<exists>e s'. own_step e \<and> rs_event env c sv W e s = Some s' \<and> rest_rank s' < rest_rank s)"

lemma progress_finish:
  assumes "rs_inv env c sv s" "next_call s = Some ev" "own_step e"
    and "rs_event env c sv W e s = Some (finish_call s1)" "rs_todo s1 = rs_todo s"
  shows "progresses env c sv W s"
  unfolding progresses_def
  using assms rest_rank_finish [OF rs_event_inv [OF assms(1,4)] assms(2,5)] by blast

lemma progress_silent:
  assumes "own_step e" "rs_event env c sv W e s = Some s'" "rs_todo s' = rs_todo s" "call_rank s' < call_rank s"
  shows "progresses env c sv W s"
  unfolding progresses_def using assms rest_rank_silent by blast

lemma liveD:
  assumes "live env c sv W s"
  shows "rs_inv env c sv s" "main_ok env c s" "scope_ok env s" "px_inv (rs_px s)" "\<forall>n. W n > 0"
    "snd (runApp env c []) = rs_done s @ rs_todo s" "is_report ev \<Longrightarrow> ae_throws env ev = None"
proof -
  show I: "rs_inv env c sv s" and "\<forall>n. W n > 0" and "is_report ev \<Longrightarrow> ae_throws env ev = None"
    using assms by (simp_all add: live_def undisturbed_def)
  show M: "main_ok env c s" and S: "scope_ok env s" using I by (simp_all add: rs_inv_def)
  show "px_inv (rs_px s)" using S by (simp add: scope_ok_def)
  show "snd (runApp env c []) = rs_done s @ rs_todo s" using M by (simp add: main_ok_def)
qed

text \<open>Without a command to run afterwards there is no call that prepares it.\<close>

lemma no_run_after:
  assumes "snd (runApp env c []) = rs_done s @ rs_todo s" "next_call s = Some ev" "ac_runAfter c = []"
  shows "ev \<noteq> EvNewRunAfter args environ"
proof
  assume ev: "ev = EvNewRunAfter args environ"
  have "snd (runApp env c []) = rs_done s @ ev # rs_todo (finish_call s)"
    using assms(1) finish_call_trace(2) [OF assms(2)] by simp
  from report_position [OF this] ev obtain args' ex j where
    "j < length (full_reports env c args' ex)" "EvNewRunAfter args environ = full_reports env c args' ex ! j" by auto
  then have "EvNewRunAfter args environ \<in> set (full_reports env c args' ex)" by simp
  then show False using assms(3) by (auto simp: full_reports_def program_reports_def split: if_splits)
qed

text \<open>The calls that do not wait.\<close>

lemma call_ready:
  assumes live: "live env c sv W s" and n: "next_call s = Some ev"
    and ev: "ev \<notin> {EvExecutorStart, EvWaitProgram, EvKill, EvDestroyExecutor}"
      "ev = EvManagerInterrupt \<or> ev = EvWaitSignal \<longrightarrow> interrupted (rs_sig s)" "ev = EvIOJoin \<longrightarrow> rs_io s"
      "reads_status ev \<longrightarrow> rs_seen s \<noteq> None"
  shows "\<exists>s1. call_effect env c sv ev s = Some (ae_throws env ev, s1)"
proof -
  have H: "ae_throws env (EvPushHandler h) = None" for h using live by (simp add: live_def rs_inv_def)
  note I = liveD [OF live]
  have U: "pc_maxRetry (rs_mgr s) \<noteq> - 1" "ac_runAfter c = []" "\<And>ev. is_report ev \<Longrightarrow> ae_throws env ev = None"
      "pc_statusFile (rs_mgr s) = [] \<or> sv_saveFails sv (pc_statusFile (rs_mgr s)) = None"
    using live by (simp_all add: live_def undisturbed_def rs_inv_def docs_ok_def)
  have pop: "gs_stack (rs_sig s) \<noteq> []" if "ev = EvPopHandler"
  proof -
    obtain run hs where m: "monitor (rs_done s) = Some (run, hs)" "gs_stack (rs_sig s) = map handler_id (rev hs)"
      using I(3) unfolding scope_ok_def by blast
    have "snd (runApp env c []) = (rs_done s @ [ev]) @ rs_todo (finish_call s)"
      using I(6) finish_call_trace(2) [OF n] by simp
    from runApp_monitored [OF H this] obtain run' hs' where "monitor_step ev (run, hs) = Some (run', hs')"
      using m(1) by auto
    then show ?thesis using monitor_step_cases(5) that m(2) by fastforce
  qed
  have pub: "\<exists>w'. publish sv ((rs_mgr s)\<lparr>pc_hostName := h, pc_port := p\<rparr>) doc w = Some (Inr w')"
    "\<exists>w'. publish sv (rs_mgr s) doc w = Some (Inr w')" for h p doc w
    using U by (intro publish_returns; simp)+
  show ?thesis
  proof (cases ev)
    case (EvProgramStarted h p)
    obtain w' where "publish sv ((rs_mgr s)\<lparr>pc_hostName := h, pc_port := p\<rparr>) (started_doc h p) (rs_world s) = Some (Inr w')"
      using pub(1) by blast
    then show ?thesis using U(3) EvProgramStarted by (simp add: programStarted_def)
  next
    case (EvProgramFinished k)
    obtain st where st: "rs_seen s = Some st" using ev(4) EvProgramFinished by auto
    obtain w' where "publish sv (rs_mgr s) (finished_doc (rs_mgr s) (st, px_exec (rs_px s)) k) (rs_world s) = Some (Inr w')"
      using pub(2) by blast
    then show ?thesis using U(3) EvProgramFinished st by (simp add: programFinished_def)
  next
    case (EvNewRunAfter a e)
    then show ?thesis using no_run_after [OF I(6) n U(2)] by blast
  qed (use ev pop in \<open>auto simp: gs_pop_def\<close>)
qed

lemma progress_call:
  assumes live: "live env c sv W s" and n: "next_call s = Some ev"
    and ev: "ev \<notin> {EvExecutorStart, EvWaitProgram, EvKill, EvDestroyExecutor}"
      "ev = EvManagerInterrupt \<or> ev = EvWaitSignal \<longrightarrow> interrupted (rs_sig s)" "ev = EvIOJoin \<longrightarrow> rs_io s"
      "reads_status ev \<longrightarrow> rs_seen s \<noteq> None"
  shows "progresses env c sv W s"
proof -
  obtain s1 where s1: "call_effect env c sv ev s = Some (ae_throws env ev, s1)" using call_ready [OF assms] by blast
  have "rs_event env c sv W R_Call s = Some (finish_call s1)" using n s1 by (simp add: ends_as_def)
  from progress_finish [OF liveD(1) [OF live] n _ this call_effect_frame(2) [OF s1]] show ?thesis by simp
qed

lemma progress_interrupt:
  assumes "next_call s = Some ev" "ev = EvManagerInterrupt \<or> ev = EvWaitSignal" "\<not> interrupted (rs_sig s)"
  shows "progresses env c sv W s"
proof -
  obtain p where p: "rs_event env c sv W (R_Signal SIGTERM) s = Some (s\<lparr>rs_sig := (rs_sig s)\<lparr>gs_interrupted := True\<rparr>, rs_px := p\<rparr>)"
    by (simp add: globalSignalHandlerFunc_def gs_notify_def)
  show ?thesis by (rule progress_silent [OF _ p]) (use assms in \<open>auto simp: call_rank_def\<close>)
qed

text \<open>
  When the main thread joins the thread that reads the output, the program has ended, so that the read ends, or was
  given up, and then \<open>kill\<close> has closed the pipe.
\<close>

lemma progress_join:
  assumes live: "live env c sv W s" and n: "next_call s = Some EvIOJoin" and io: "\<not> rs_io s"
  shows "progresses env c sv W s"
proof -
  note I = liveD [OF live]
  have "rs_done s @ rs_todo s = rs_done s @ EvIOJoin # rs_todo (finish_call s)" using finish_call_trace(2) [OF n] by simp
  then have begun: "io_begun env (rs_done s)" using runApp_joins [of env c] unfolding I(6) joins_ok_def by blast
  then have "px_status (rs_px s) \<noteq> NOT_STARTED" using I(3) by (simp add: scope_ok_def io_begun_def)
  moreover have "px_status (rs_px s) \<noteq> RUNNING"
    by (rule past_program_ended(1) [OF I(1)]) (simp add: past_program_def n)
  ultimately have "px_ended (rs_px s)" using I(4) by (simp add: px_ended_def)
  then have "px_child (rs_px s) \<noteq> Alive \<or> pipe_closed (px_exec (rs_px s))"
    using reachable_pipe [of W "rs_px s"] live by (auto simp: live_def elim: ended_cases)
  then have "output_over env s" using live by (auto simp: output_over_def live_def undisturbed_def)
  then have ends: "rs_event env c sv W R_IOEnds s = Some (s\<lparr>rs_io := True\<rparr>)" using begun io by (simp add: io_begun_def)
  have "next_call (s\<lparr>rs_io := True\<rparr>) = Some EvIOJoin" using n by (simp add: next_call_def)
  then have "call_rank (s\<lparr>rs_io := True\<rparr>) < call_rank s" using n io by (simp add: call_rank_def)
  then show ?thesis by (intro progress_silent [OF _ ends]) simp_all
qed

lemma progress_look:
  assumes "next_call s = Some ev" "reads_status ev" "rs_seen s = None"
  shows "progresses env c sv W s"
proof -
  have look: "rs_event env c sv W R_Look s = Some (s\<lparr>rs_seen := Some (px_status (rs_px s))\<rparr>)" using assms by simp
  show ?thesis by (rule progress_silent [OF _ look]) (use assms in \<open>cases ev; simp add: call_rank_def\<close>)+
qed

lemma progress_start:
  assumes live: "live env c sv W s" and n: "next_call s = Some EvExecutorStart"
  shows "progresses env c sv W s"
proof -
  note I = liveD [OF live]
  have "EvExecutorStart \<notin> set (rs_done s)" using report_facts(4) [OF I(6) n] by simp
  then have "px_status (rs_px s) = NOT_STARTED" using I(3) by (simp add: scope_ok_def)
  then obtain p where p: "rs_event env c sv W (R_Start (Some (3, 4)) [] 100) s = Some (finish_call (s\<lparr>rs_px := p\<rparr>))"
    using n I(7) [of EvExecutorStart] by (auto simp: start_parent_def Let_def ends_as_def)
  show ?thesis by (rule progress_finish [OF I(1) n _ p]) simp_all
qed

text \<open>The wait, which a SIGTERM and a call of \<open>kill\<close> end.\<close>

lemma progress_wait_begin:
  assumes live: "live env c sv W s" and n: "next_call s = Some EvWaitProgram" "\<not> rs_waiting s"
  shows "progresses env c sv W s"
proof -
  note I = liveD [OF live]
  have T: "ae_throws env EvWaitProgram = None" using I(7) by simp
  have "px_status (rs_px s) \<noteq> NOT_STARTED"
    using report_facts(3) [OF I(6) n(1)] I(3) by (simp add: scope_ok_def)
  moreover have w: "px_waits (rs_px s) 0 = None" using I(2) n(2) by (simp add: main_ok_def main_wait_def)
  ultimately consider "rs_event env c sv W R_Wait s = Some (finish_call s)"
    | p where "rs_event env c sv W R_Wait s = Some (s\<lparr>rs_px := p, rs_waiting := True\<rparr>)"
    using n T by (cases "px_status (rs_px s)") (auto simp: wait_enter_cases ends_as_def)
  then show ?thesis
  proof cases
    case 1
    show ?thesis by (rule progress_finish [OF I(1) n(1) _ 1]) simp_all
  next
    case 2
    let ?s = "s\<lparr>rs_px := p, rs_waiting := True\<rparr>"
    have "rs_inv env c sv ?s" by (rule rs_event_inv [OF I(1) 2])
    then have "wait_rank ?s \<le> 14"
      using kill_rank_bound [of p] by (simp add: rs_inv_def scope_ok_def wait_rank_def)
    then have "wait_rank ?s < wait_rank s" using n(2) by (simp add: wait_rank_def)
    then have "call_rank ?s < call_rank s" using n(1) by (intro call_rank_same(1)) simp_all
    then show ?thesis by (intro progress_silent [OF _ 2]) simp_all
  qed
qed

lemma callbacks_kill: "px_kill (fold (\<lambda>h. run_callback h v) hs p) = px_kill p"
proof (induction hs arbitrary: p)
  case (Cons h hs)
  have "px_kill (run_callback h v p) = px_kill p" by (simp add: run_callback_def)
  then show ?case using Cons.IH by simp
qed simp

lemma progress_other:
  assumes "next_call s = Some ev" "other_thread e s" "e = PKillLock \<or> killer_step e" "px_event W e (rs_px s) = Some p"
    and "call_rank (s\<lparr>rs_px := p\<rparr>) < call_rank s"
  shows "progresses env c sv W s"
  using assms by (intro progress_silent [where e = "R_Other e" and s' = "s\<lparr>rs_px := p\<rparr>"]) auto

lemma killer_other: "killer_step e \<Longrightarrow> other_thread e s"
  by (cases e) (auto simp: killer_step_def)

lemma progress_waiting:
  assumes live: "live env c sv W s" and w: "rs_waiting s"
  shows "progresses env c sv W s"
proof -
  note I = liveD(1) [OF live] and pinv = liveD(4) [OF live] and W = liveD(5) [OF live]
  note wh = waiting_handler [OF I w]
  obtain b where b: "px_waits (rs_px s) 0 = Some (None, b)" using wh(5) by blast
  show ?thesis
  proof (cases b)
    case True
    then have "rs_event env c sv W R_Woken s =
        Some (finish_call (s\<lparr>rs_px := (rs_px s)\<lparr>px_waits := (px_waits (rs_px s))(0 := None)\<rparr>, rs_waiting := False\<rparr>))"
      using w b wh(4) by (simp add: ends_as_def)
    from progress_finish [OF I wh(3) _ this] show ?thesis by simp
  next
    case False
    then have "\<not> all_signalled (px_waits (rs_px s))" using b by (auto simp: all_signalled_def)
    then have run: "px_status (rs_px s) = RUNNING" using pinv by (simp add: px_inv_def)
    consider (busy) "px_kill (rs_px s) \<noteq> K_idle" | (queued) "px_kill (rs_px s) = K_idle" "px_queue (rs_px s) > 0"
      | (free) "px_kill (rs_px s) = K_idle" "px_queue (rs_px s) = 0" by blast
    then show ?thesis
    proof cases
      case busy
      obtain e p where e: "killer_step e" "px_event W e (rs_px s) = Some p"
          "kill_rank (px_kill p) < kill_rank (px_kill (rs_px s))"
        using killer_progress [OF pinv] W busy by blast
      obtain b' where b': "px_waits p 0 = Some (None, b')" using killer_waits [OF e(1,2) b] by blast
      have "b'" if "px_kill p = K_idle"
      proof -
        have "all_signalled (px_waits p)"
          using kill_returns [OF pinv e(2) busy that] px_event_inv [OF pinv e(2)] by (simp add: px_inv_def)
        then show ?thesis using b' by (cases b') (auto simp: all_signalled_def)
      qed
      then have "wait_rank (s\<lparr>rs_px := p\<rparr>) < wait_rank s"
        using w b b' e(3) False busy by (auto simp: wait_rank_def)
      then show ?thesis using e wh(3) killer_other
        by (intro progress_other [OF wh(3) _ _ e(2)]) (auto intro: call_rank_same)
    next
      case queued
      define p where "p = (rs_px s)\<lparr>px_queue := px_queue (rs_px s) - 1, px_kill := K_send 1, px_sends := []\<rparr>"
      have "px_event W PKillLock (rs_px s) = Some p" using queued by (simp add: p_def)
      moreover have "wait_rank (s\<lparr>rs_px := p\<rparr>) < wait_rank s"
        using w b False queued by (simp add: wait_rank_def p_def)
      ultimately show ?thesis using wh(2,3)
        by (intro progress_other [OF wh(3), of PKillLock]) (auto intro: call_rank_same)
    next
      case free
      define p where "p = fold (\<lambda>h. run_callback h SIGTERM) (rev (gs_stack (rs_sig s))) (rs_px s)"
      let ?s = "s\<lparr>rs_sig := (rs_sig s)\<lparr>gs_interrupted := True\<rparr>, rs_px := p\<rparr>"
      have "rs_event env c sv W (R_Signal SIGTERM) s = Some ?s"
        by (simp add: globalSignalHandlerFunc_def gs_notify_def p_def)
      moreover have "px_queue p > 0"
        using callbacks_queue [OF run, of SIGTERM "rev (gs_stack (rs_sig s))"] wh(1) by (simp add: p_def)
      then have "wait_rank ?s < wait_rank s"
        using w b False free by (simp add: wait_rank_def p_def callbacks_kill callbacks_frame)
      ultimately show ?thesis using wh(3)
        by (intro progress_silent [where e = "R_Signal SIGTERM" and s' = ?s]) (auto intro: call_rank_same)
    qed
  qed
qed

text \<open>The calls of \<open>kill\<close> of the main thread itself.\<close>

lemma progress_kill:
  assumes live: "live env c sv W s" and n: "next_call s = Some ev" "ev \<in> {EvKill, EvDestroyExecutor}"
  shows "progresses env c sv W s"
proof -
  note I = liveD(1,2) [OF live] and pinv = liveD(4) [OF live] and W = liveD(5) [OF live]
  have n2: "next_call s \<in> {Some EvKill, Some EvDestroyExecutor}" using n by auto
  have step: "progresses env c sv W s" if busy: "px_kill (rs_px s) \<noteq> K_idle" and turn: "rs_killing s \<noteq> NotKilling"
  proof -
    obtain e p where e: "killer_step e" "px_event W e (rs_px s) = Some p"
        "kill_rank (px_kill p) < kill_rank (px_kill (rs_px s))"
      using killer_progress [OF pinv] W busy by blast
    then have "turn_rank (s\<lparr>rs_px := p\<rparr>) < turn_rank s" using turn by (cases "rs_killing s") (simp_all add: turn_rank_def)
    then show ?thesis using e n2 killer_other
      by (intro progress_other [OF n(1) _ _ e(2)]) (auto intro: call_rank_same)
  qed
  show ?thesis
  proof (cases "rs_killing s")
    case NotKilling
    show ?thesis
    proof (cases "px_status (rs_px s) = RUNNING")
      case True
      let ?s = "s\<lparr>rs_px := (rs_px s)\<lparr>px_queue := px_queue (rs_px s) + 1\<rparr>, rs_killing := KillQueued\<rparr>"
      have "rs_event env c sv W R_Kill s = Some ?s" using True NotKilling n2 by auto
      moreover have "turn_rank ?s < turn_rank s"
        using kill_rank_bound [OF pinv] NotKilling by (simp add: turn_rank_def)
      ultimately show ?thesis using n2
        by (intro progress_silent [where e = R_Kill and s' = ?s]) (auto intro: call_rank_same)
    next
      case False
      then have "rs_event env c sv W R_Kill s = Some (finish_call s)" using NotKilling n2 by auto
      from progress_finish [OF I(1) n(1) _ this] show ?thesis by simp
    qed
  next
    case KillQueued
    show ?thesis
    proof (cases "px_kill (rs_px s) = K_idle")
      case True
      have "px_queue (rs_px s) > 0" using I(2) KillQueued by (simp add: main_ok_def)
      define p where "p = (rs_px s)\<lparr>px_queue := px_queue (rs_px s) - 1, px_kill := K_send 1, px_sends := []\<rparr>"
      have turn: "rs_event env c sv W R_KillTurn s = Some (s\<lparr>rs_px := p, rs_killing := KillActive\<rparr>)"
        using True KillQueued \<open>px_queue (rs_px s) > 0\<close> by (simp add: p_def)
      have "turn_rank (s\<lparr>rs_px := p, rs_killing := KillActive\<rparr>) < turn_rank s"
        using KillQueued True by (simp add: turn_rank_def p_def)
      then show ?thesis using n2 by (intro progress_silent [OF _ turn]) (auto intro: call_rank_same)
    qed (use step KillQueued in simp)
  next
    case KillActive
    show ?thesis
    proof (cases "px_kill (rs_px s) = K_idle")
      case True
      then have "rs_event env c sv W R_KillReturn s = Some (finish_call (s\<lparr>rs_killing := NotKilling\<rparr>))"
        using KillActive by simp
      from progress_finish [OF I(1) n(1) _ this] show ?thesis by simp
    qed (use step KillActive in simp)
  qed
qed

lemma live_progress:
  assumes "live env c sv W s" "rs_todo s \<noteq> []"
  shows "progresses env c sv W s"
proof -
  obtain ev where n: "next_call s = Some ev" using assms(2) by (cases "rs_todo s") (simp_all add: next_call_def)
  consider (start) "ev = EvExecutorStart" | (waiting) "rs_waiting s" | (wait) "ev = EvWaitProgram" "\<not> rs_waiting s"
    | (kill) "ev \<in> {EvKill, EvDestroyExecutor}"
    | (interrupt) "ev = EvManagerInterrupt \<or> ev = EvWaitSignal" "\<not> interrupted (rs_sig s)"
    | (join) "ev = EvIOJoin" "\<not> rs_io s" | (look) "reads_status ev" "rs_seen s = None"
    | (call) "ev \<notin> {EvExecutorStart, EvWaitProgram, EvKill, EvDestroyExecutor}"
        "ev = EvManagerInterrupt \<or> ev = EvWaitSignal \<longrightarrow> interrupted (rs_sig s)" "ev = EvIOJoin \<longrightarrow> rs_io s"
        "reads_status ev \<longrightarrow> rs_seen s \<noteq> None"
    by blast
  then show ?thesis
  proof cases
    case start
    show ?thesis by (rule progress_start [OF assms(1) n [unfolded start]])
  next
    case waiting
    show ?thesis by (rule progress_waiting [OF assms(1) waiting])
  next
    case wait
    show ?thesis by (rule progress_wait_begin [OF assms(1) n [unfolded wait(1)] wait(2)])
  next
    case kill
    show ?thesis by (rule progress_kill [OF assms(1) n kill])
  next
    case interrupt
    show ?thesis by (rule progress_interrupt [OF n interrupt])
  next
    case join
    show ?thesis by (rule progress_join [OF assms(1) n [unfolded join(1)] join(2)])
  next
    case look
    show ?thesis by (rule progress_look [OF n look])
  next
    case call
    show ?thesis by (rule progress_call [OF assms(1) n call])
  qed
qed

text \<open>The manager keeps its number of retries.\<close>

lemma programStarted_retries:
  "programStarted sv h p m w = Some (Inr (m', w')) \<Longrightarrow> pc_maxRetry m' = pc_maxRetry m"
  by (auto simp: programStarted_def Let_def)
    (metis Inl_Inr_False Inr_inject map_sum.simps Pair_inject sum.exhaust_sel pc_manager.select_convs(4)
      pc_manager.update_convs(6,7) pc_manager.surjective)

lemma call_effect_retries:
  "call_effect env c sv ev s = Some (r, s') \<Longrightarrow> pc_maxRetry (rs_mgr s') = pc_maxRetry (rs_mgr s)"
  by (cases "(env, c, sv, ev, s)" rule: call_effect.cases)
    (auto split: option.splits sum.splits prod.splits if_splits dest: programStarted_retries)

lemma fileGenerated_retries:
  "fileGenerated sv t d (m, w) = Some (m', w') \<Longrightarrow> pc_maxRetry m' = pc_maxRetry m"
  using fileGenerated_saves [of sv t d m w m' w'] by auto

lemma rs_event_retries: "rs_event env c sv W e s = Some s' \<Longrightarrow> pc_maxRetry (rs_mgr s') = pc_maxRetry (rs_mgr s)"
  by (cases e) (auto simp: ends_as_Some simp del: px_event.simps kill_event.simps
      split: option.splits sum.splits prod.splits if_splits wait_step.splits
      dest: call_effect_retries fileGenerated_retries)

lemma live_step: "live env c sv W s \<Longrightarrow> rs_event env c sv W e s = Some s' \<Longrightarrow> live env c sv W s'"
  using rs_event_inv rs_event_retries rs_event_px px_run_reachable unfolding live_def by metis

interpretation live: ending_system "rs_event env c sv W" "live env c sv W" own_step "\<lambda>s. rs_todo s \<noteq> []" rest_rank
  for env c sv W
  by unfold_locales (rule live_step, assumption+, use live_progress in \<open>simp add: progresses_def\<close>)

section \<open>Property\<close>




end
