(* ===== verification/PollSession.thy ===== *)
theory PollSession
  imports WebServer
begin

text \<open>
  A client that follows the output over HTTP: it polls again and again, each time from the byte after the last
  one it has got (the handler is \<open>OutputPollHandler\<close>, theory \<open>WebServer\<close>; other threads write to and close the
  buffer in between, theory \<open>BufferClient\<close>). The protocol is that of the handler; what the client gets is
  compared with all that was ever written.
\<close>

section \<open>The client\<close>

text \<open>
  \<open>handle\<close> answers a query, given how many are still to come, \<open>dec\<close> prints a position, and \<open>split\<close> takes the header line of a body off, which is
  the position of its first byte. A poll adds parameters of its own to the position. The client stops when
  the server says that the output is gone; its result are the pieces with their positions, the
  next position, and whether it was told the end.
\<close>

fun poll_session ::
  "(nat \<Rightarrow> (string \<times> string) list \<Rightarrow> 's \<Rightarrow> (http_response \<times> 's) res option) \<Rightarrow> (nat \<Rightarrow> string) \<Rightarrow>
   (cell list \<Rightarrow> (nat \<times> cell list) option) \<Rightarrow> (string \<times> string) list list \<Rightarrow> nat \<Rightarrow> 's \<Rightarrow>
   (((nat \<times> cell list) list \<times> nat \<times> bool) \<times> 's) res option" where
  "poll_session handle dec split [] pos s = Some (Inr (([], pos, False), s))"
| "poll_session handle dec split (q # qs) pos s =
     (case handle (length qs) ((''begin'', dec pos) # q) s of
        None \<Rightarrow> None
      | Some (Inl e) \<Rightarrow> Some (Inl e)
      | Some (Inr (resp, s')) \<Rightarrow>
          (if hr_status resp = 410 then Some (Inr (([], pos, True), s'))
           else if hr_status resp = 204 then poll_session handle dec split qs pos s'
           else case split (hr_body resp) of
             None \<Rightarrow> Some (Inl AssertFailed)
           | Some (k, out) \<Rightarrow>
               map_option (map_sum id (\<lambda>((pieces, pos', gone), s''). (((k, out) # pieces, pos', gone), s'')))
                 (poll_session handle dec split qs (k + length out) s')))"

text \<open>
  The pieces follow each other in the output \<open>h\<close>: each begins where the one before has ended, or after it if
  the bytes between are more than \<open>m\<close> bytes back.
\<close>

fun in_order :: "nat \<Rightarrow> cell list \<Rightarrow> nat \<Rightarrow> (nat \<times> cell list) list \<Rightarrow> nat \<Rightarrow> bool" where
  "in_order m h pos [] pos' \<longleftrightarrow> pos' = pos"
| "in_order m h pos ((k, out) # pieces) pos' \<longleftrightarrow>
     pos \<le> k \<and> (k = pos \<or> k + m \<le> length h) \<and> out \<noteq> [] \<and> sent_ok h k out \<and> in_order m h (k + length out) pieces pos'"

lemma in_order_pos: "in_order m h pos pieces pos' \<Longrightarrow> pos \<le> pos' \<and> (pieces = [] \<or> pos' \<le> length h)"
  by (induction pieces arbitrary: pos) (fastforce simp: sent_ok_def)+

text \<open>Nothing is missing if the whole output fits into the buffer.\<close>

lemma in_order_all:
  "in_order m h pos pieces pos' \<Longrightarrow> length h \<le> m \<Longrightarrow> pos \<le> length h \<Longrightarrow>
   concat (map snd pieces) = take (pos' - pos) (drop pos h)"
proof (induction pieces arbitrary: pos)
  case (Cons piece pieces)
  obtain k out where p: "piece = (k, out)" by (cases piece)
  have I: "out \<noteq> []" "sent_ok h k out" "in_order m h (k + length out) pieces pos'" "k = pos \<or> k + m \<le> length h" "pos \<le> k"
    using Cons.prems(1) p by simp_all
  have fit: "k + length out \<le> length h" using I(2) by (simp add: sent_ok_def)
  then have k: "k = pos" using I(1,4,5) Cons.prems(2) by (cases out) auto
  have le: "k + length out \<le> pos'" using in_order_pos [OF I(3)] by simp
  have "concat (map snd pieces) = take (pos' - (k + length out)) (drop (k + length out) h)"
    using Cons.IH [OF I(3) Cons.prems(2) fit] .
  then have "concat (map snd (piece # pieces)) =
      take (length out) (drop k h) @ take (pos' - (k + length out)) (drop (k + length out) h)"
    using I(2) p by (simp add: sent_ok_def)
  also have "\<dots> = take (length out + (pos' - (k + length out))) (drop k h)" by (rule slice_append [symmetric])
  finally show ?case using le k by simp
qed simp

section \<open>One poll\<close>

lemma poll_query_begin:
  assumes "tryParse64 (dec pos) = Some (int pos)" "''begin'' \<notin> fst ` set q"
    and "poll_query tryParse64 tryParseUnsigned ((''begin'', dec pos) # q) a = Some p"
  shows "pp_begin p = int pos"
proof -
  have "poll_query tryParse64 tryParseUnsigned q b = Some p \<Longrightarrow> pp_begin p = pp_begin b" for b
    using assms(2) by (induction q arbitrary: b) (auto split: if_splits option.splits)
  then show ?thesis using assms(1,3) by fastforce
qed

lemma poll_query_count:
  "poll_query tryParse64 tryParseUnsigned q a = Some p \<Longrightarrow> (\<And>v n. tryParseUnsigned v = Some n \<Longrightarrow> n < 2 ^ 32) \<Longrightarrow>
   pp_readCount a < 2 ^ 32 \<Longrightarrow> pp_readCount p < 2 ^ 32"
  by (induction q arbitrary: a) (auto split: if_splits option.splits)

lemma poll_query_timeout:
  "poll_query tryParse64 tryParseUnsigned q a = Some p \<Longrightarrow> pp_timeout p \<le> 0 \<Longrightarrow> 0 < pp_timeout a \<Longrightarrow>
   \<exists>v. (''timeout'', v) \<in> set q \<and> tryParseUnsigned v = Some 0"
proof (induction q arbitrary: a)
  case (Cons kv q)
  obtain key val where kv: "kv = (key, val)" by (cases kv)
  show ?case
  proof (cases "key = ''timeout'' \<and> tryParseUnsigned val = Some 0")
    case True
    then show ?thesis using kv by auto
  next
    case False
    then obtain b where "poll_query tryParse64 tryParseUnsigned q b = Some p" "0 < pp_timeout b"
      using Cons.prems kv
      by (auto simp: CLIENT_READ_MAX_TIMEOUT_SECONDS_def min_def split: if_splits option.splits)
    then show ?thesis using Cons.IH Cons.prems(2) by (metis list.set_intros(2))
  qed
qed simp

lemma poll_query_accepts:
  "(\<forall>(key, v) \<in> set q. key \<noteq> ''begin'' \<and> (key \<in> {''timeout'', ''count''} \<longrightarrow> tryParseUnsigned v \<noteq> None)) \<Longrightarrow>
   \<exists>p. poll_query tryParse64 tryParseUnsigned q a = Some p"
  by (induction q arbitrary: a) (auto split: option.split)

text \<open>What the client relies on: numbers are printed and parsed, its parameters are numbers, and header lines can be split off.\<close>

definition client_ok ::
  "(nat \<Rightarrow> string) \<Rightarrow> (nat \<Rightarrow> string) \<Rightarrow> (string \<Rightarrow> int option) \<Rightarrow> (string \<Rightarrow> nat option) \<Rightarrow>
   (cell list \<Rightarrow> (nat \<times> cell list) option) \<Rightarrow> bool" where
  "client_ok fmtx dec tryParse64 tryParseUnsigned split \<longleftrightarrow>
     (\<forall>n < 2 ^ 63. tryParse64 (dec n) = Some (int n)) \<and> (\<forall>v n. tryParseUnsigned v = Some n \<longrightarrow> n < 2 ^ 32) \<and>
     (\<forall>k out. split (htext (fmtx k) @ out) = Some (k, out))"

definition polls_ok :: "(string \<Rightarrow> nat option) \<Rightarrow> (string \<times> string) list list \<Rightarrow> bool" where
  "polls_ok tryParseUnsigned qs \<longleftrightarrow>
     (\<forall>q \<in> set qs. \<forall>(key, v) \<in> set q. key \<noteq> ''begin'' \<and> (key \<in> {''timeout'', ''count''} \<longrightarrow> tryParseUnsigned v \<noteq> None))"

context min_heap
begin

lemma one_poll:
  fixes good :: "nat \<Rightarrow> bool"
  assumes ok: "se_ok H invar se" and size: "0 < requestBufferSize" and pos: "pos \<le> length (se_hist se)"
    and client: "client_ok fmtx dec tryParse64 tryParseUnsigned split" and q: "polls_ok tryParseUnsigned [q]"
  defines "res \<equiv> OutputPollHandler (ses_read H) (ses_tryRead H) fmtx tryParse64 tryParseUnsigned good
      requestBufferSize ((''begin'', dec pos) # q) se"
  obtains (waits) v where "res = None" "(''timeout'', v) \<in> set q" "tryParseUnsigned v = Some 0"
  | (gone) resp se' where "res = Some (Inr (resp, se'))" "hr_status resp = 410" "se_ok H invar se'"
      "extends (se_hist se) (se_hist se')" "se_capacity se' = se_capacity se" "se_closed se'" "pos = length (se_hist se')"
  | (idle) resp se' where "res = Some (Inr (resp, se'))" "hr_status resp = 204" "se_ok H invar se'"
      "extends (se_hist se) (se_hist se')" "se_capacity se' = se_capacity se"
  | (piece) resp se' k out where "res = Some (Inr (resp, se'))" "hr_status resp = 200" "se_ok H invar se'"
      "extends (se_hist se) (se_hist se')" "se_capacity se' = se_capacity se" "split (hr_body resp) = Some (k, out)"
      "pos \<le> k" "k = pos \<or> k + se_capacity se \<le> length (se_hist se')" "out \<noteq> []" "sent_ok (se_hist se') k out"
proof -
  have b: "pos < 2 ^ 63" using pos ses.hist_bound [OF ok] by simp
  have C: "tryParse64 (dec pos) = Some (int pos)" "\<And>v n. tryParseUnsigned v = Some n \<Longrightarrow> n < 2 ^ 32"
    "\<And>k out. split (htext (fmtx k) @ out) = Some (k, out)"
    using client b by (auto simp: client_ok_def)
  have keys: "''begin'' \<notin> fst ` set q" using q by (auto simp: polls_ok_def)
  obtain p where p: "poll_query tryParse64 tryParseUnsigned ((''begin'', dec pos) # q) poll_defaults = Some p"
    using poll_query_accepts [of q tryParseUnsigned tryParse64] q C(1) by (auto simp: polls_ok_def)
  have pb: "pp_begin p = int pos" by (rule poll_query_begin [where dec = dec and q = q, OF C(1) keys p])
  have "pp_readCount p < 2 ^ 32" by (rule poll_query_count [OF p C(2)]) (simp_all add: poll_defaults_def)
  then have rc: "pp_readCount p < 2 ^ 63" by simp
  have rng: "ssize_range (pp_begin p)" using b by (simp add: pb ssize_range_def)
  have res: "res = poll_run (ses_read H) (ses_tryRead H) fmtx good requestBufferSize p se"
    using p by (simp add: res_def OutputPollHandler_def)
  from poll_run_ok [OF ok size rc rng, of fmtx good] show ?thesis
  proof (elim disjE exE conjE)
    assume "poll_run (ses_read H) (ses_tryRead H) fmtx good requestBufferSize p se = None" "pp_timeout p \<le> 0"
    moreover have "0 < pp_timeout poll_defaults"
      by (simp add: poll_defaults_def CLIENT_READ_DEFAULT_TIMEOUT_SECONDS_def)
    ultimately show ?thesis using waits res poll_query_timeout [OF p] by auto
  next
    fix resp se'
    assume R: "poll_run (ses_read H) (ses_tryRead H) fmtx good requestBufferSize p se = Some (Inr (resp, se'))"
      "se_ok H invar se'" "extends (se_hist se) (se_hist se')" "se_capacity se' = se_capacity se"
      and ans: "poll_answer_ok (se_capacity se) (se_closed se') fmtx p (se_hist se') resp"
    have le: "pos \<le> length (se_hist se')" using pos extends_length [OF R(3)] by simp
    from ans show ?thesis unfolding poll_answer_ok_def pb
    proof (elim disjE exE conjE)
      assume "resp = response 410 (htext (''<h1>Program exited.</h1>'' @ endl))"
        "0 \<le> int pos \<longrightarrow> se_closed se' \<and> length (se_hist se') \<le> nat (int pos)"
      then show ?thesis using gone R res le by (simp add: response_def)
    next
      assume "resp = response 204 []" "0 < pp_timeout p"
      then show ?thesis using idle R res by (simp add: response_def)
    next
      fix k n
      assume A: "resp = (response 200 (htext (fmtx k) @ take n (drop k (se_hist se'))))\<lparr>hr_chunked := True\<rparr>"
        "0 < n" "k + n \<le> length (se_hist se')"
        "0 \<le> int pos \<longrightarrow> nat (int pos) \<le> k \<and> (k = nat (int pos) \<or> k + se_capacity se \<le> length (se_hist se'))"
      define out where "out = take n (drop k (se_hist se'))"
      have len: "length out = n" using A(3) by (simp add: out_def)
      have body: "hr_status resp = 200" "hr_body resp = htext (fmtx k) @ out" by (simp_all add: A(1) response_def out_def)
      have "sent_ok (se_hist se') k out" using A(3) len by (simp add: sent_ok_def) (simp add: out_def)
      moreover have "out \<noteq> []" using len A(2) by auto
      ultimately show ?thesis using piece [of resp se' k out] R res body C(3) A(4) by simp
    qed
  qed
qed

lemma poll_session_ok:
  assumes "se_ok H invar se" "0 < requestBufferSize" "pos \<le> length (se_hist se)"
    and "client_ok fmtx dec tryParse64 tryParseUnsigned split" "polls_ok tryParseUnsigned qs"
  shows "case poll_session (\<lambda>i. OutputPollHandler (ses_read H) (ses_tryRead H) fmtx tryParse64 tryParseUnsigned
      (good i) requestBufferSize) dec split qs pos se of
      None \<Rightarrow> \<exists>q \<in> set qs. \<exists>v. (''timeout'', v) \<in> set q \<and> tryParseUnsigned v = Some 0
    | Some (Inl e) \<Rightarrow> False
    | Some (Inr ((pieces, pos', gone), se')) \<Rightarrow> extends (se_hist se) (se_hist se') \<and>
        in_order (se_capacity se) (se_hist se') pos pieces pos' \<and>
        (gone \<longrightarrow> se_closed se' \<and> pos' = length (se_hist se'))"
  using assms(1,3,5)
proof (induction qs arbitrary: pos se)
  case (Cons q qs)
  have q: "polls_ok tryParseUnsigned [q]" and qs: "polls_ok tryParseUnsigned qs"
    using Cons.prems(3) by (simp_all add: polls_ok_def)
  show ?case
  proof (cases rule: one_poll [OF Cons.prems(1) assms(2) Cons.prems(2) assms(4) q, where good = "good (length qs)",
      case_names waits gone idle piece])
    case waits
    then show ?thesis by auto
  next
    case gone
    then show ?thesis by simp
  next
    case (idle resp se1)
    have le: "pos \<le> length (se_hist se1)" using Cons.prems(2) extends_length [OF idle(4)] by simp
    from Cons.IH [OF idle(3) le qs] show ?thesis
      using idle extends_trans [OF idle(4)] by (auto split: option.splits sum.splits prod.splits)
  next
    case (piece resp se1 k out)
    have le: "k + length out \<le> length (se_hist se1)" using piece(10) by (simp add: sent_ok_def)
    from Cons.IH [OF piece(3) le qs] show ?thesis
      using piece extends_trans [OF piece(4)] sent_extends [OF piece(10)] extends_length
      by (fastforce split: option.splits sum.splits prod.splits)
  qed
qed simp

end

section \<open>Following the output\<close>

text \<open>Numbers written in unary, for an instance of the parameters.\<close>

definition unary :: "nat \<Rightarrow> string" where
  "unary n = replicate n CHR ''1''"

definition unary_line :: "nat \<Rightarrow> string" where
  "unary_line n = unary n @ endl"

definition unary_split :: "cell list \<Rightarrow> (nat \<times> cell list) option" where
  "unary_split body = Some (length (takeWhile (\<lambda>c. c = Some 49) body), tl (dropWhile (\<lambda>c. c = Some 49) body))"

definition unary_count :: "string \<Rightarrow> nat option" where
  "unary_count s = (if length s < 2 ^ 32 then Some (length s) else None)"

lemma unary_split_line: "unary_split (htext (unary_line k) @ out) = Some (k, out)"
proof -
  have line: "htext (unary_line k) = replicate k (Some 49) @ [Some 10]"
    by (simp add: htext_def unary_line_def unary_def endl_def)
  have "takeWhile (\<lambda>c. c = Some 49) (replicate k (Some 49) @ [Some 10] @ out) = replicate k (Some (49 :: byte))"
    "dropWhile (\<lambda>c. c = Some 49) (replicate k (Some 49) @ [Some 10] @ out) = Some (10 :: byte) # out"
    by (induction k) simp_all
  then show ?thesis by (simp add: unary_split_def line)
qed

lemma unary_client_ok: "client_ok unary_line unary (\<lambda>s. Some (int (length s))) unary_count unary_split"
  by (simp add: client_ok_def unary_split_line) (auto simp: unary_def unary_count_def split: if_splits)

text \<open>C4: A client that polls again and again, each time from the byte after the last one it has got, gets
  non-empty pieces of the output, in their order, none of them twice; bytes are skipped only when they have
  dropped out of the buffer, so that what a client gets of an output that fits into the buffer is exactly the
  output from its first position to its last. It is told that the output is gone only after the program has
  ended and the client has got the last byte. Only a poll that asks for no timeout may go unanswered.\<close>

theorem poll_session_complete:
  assumes "min_heap H invar" "se_ok H invar se" "0 < requestBufferSize" "pos \<le> length (se_hist se)"
    and "client_ok fmtx dec tryParse64 tryParseUnsigned split" "polls_ok tryParseUnsigned qs"
  shows "case poll_session (\<lambda>i. OutputPollHandler (ses_read H) (ses_tryRead H) fmtx tryParse64 tryParseUnsigned
      (good i) requestBufferSize) dec split qs pos se of
      None \<Rightarrow> \<exists>q \<in> set qs. \<exists>v. (''timeout'', v) \<in> set q \<and> tryParseUnsigned v = Some 0
    | Some (Inl e) \<Rightarrow> False
    | Some (Inr ((pieces, pos', gone), se')) \<Rightarrow> extends (se_hist se) (se_hist se') \<and>
        in_order (se_capacity se) (se_hist se') pos pieces pos' \<and>
        (gone \<longrightarrow> se_closed se' \<and> pos' = length (se_hist se')) \<and>
        (length (se_hist se') \<le> se_capacity se \<longrightarrow>
           concat (map snd pieces) = take (pos' - pos) (drop pos (se_hist se')))"
  using min_heap.poll_session_ok [OF assms(1-3) assms(4-6), of good] in_order_all extends_length assms(4)
  by (fastforce split: option.splits sum.splits prod.splits)

lemma poll_session_complete_witness:
  "case poll_session (\<lambda>i. OutputPollHandler (ses_read pairing_heap) (ses_tryRead pairing_heap) unary_line
       (\<lambda>s. Some (int (length s))) unary_count (\<lambda>_. True) 65536) unary unary_split
       [[], [(''count'', ''11'')], []] 0 (sample_session [[EnvWrite (map Some [1, 2, 3]), EnvWrite (map Some [4, 5])], [EnvClose]]) of
     None \<Rightarrow> False
   | Some (Inl e) \<Rightarrow> False
   | Some (Inr ((pieces, pos', gone), se')) \<Rightarrow>
       in_order 8 (se_hist se') 0 pieces pos' \<and> (gone \<longrightarrow> pos' = length (se_hist se')) \<and>
       (length (se_hist se') \<le> 8 \<longrightarrow> concat (map snd pieces) = take pos' (se_hist se'))"
  using poll_session_complete [OF ph.min_heap_axioms sample_session_ok _ _ unary_client_ok,
      of "[[EnvWrite (map Some [1, 2, 3]), EnvWrite (map Some [4, 5])], [EnvClose]]" 65536 0
        "[[], [(''count'', ''11'')], []]" "\<lambda>_ _. True"]
  by (simp add: sample_session_capacity polls_ok_def unary_count_def split: option.splits sum.splits prod.splits)

end
