(* ===== verification/RunAfter.thy ===== *)
theory RunAfter
  imports ExecutorSystem MainApp
begin

text \<open>
  The command that runs after the program (src/src/main.cpp, the last part of \<open>MainApp::runApp\<close>): a
  \<open>ProgramExecutor\<close> of its own, which one thread starts, waits for, kills if it takes too long and then destroys,
  while the child process and the background thread act in between (theory \<open>ExecutorSystem\<close>).
\<close>

section \<open>The owner of the executor\<close>

text \<open>
  Where the owner stands: before \<open>start\<close>, before and inside \<open>wait\<close>, before \<open>kill\<close>, waiting for \<open>_killMutex\<close>
  and inside \<open>kill\<close>; the flag says that \<open>kill\<close> is called by the destructor. At the end the
  destructor joins the background thread, with the result of \<open>tryJoin\<close>, and frees the mutexes.
\<close>

datatype owner_pc = AtStart | AtWait | Blocked | AtKill bool | Queued bool | Killing bool | AtJoin | Gone bool

record owned =
  ow_pc :: owner_pc
  ow_px :: psys

text \<open>The steps of the owner (those inside \<open>kill\<close> are \<open>OwKiller\<close>), and those of the child and its background thread.\<close>

datatype owner_step =
    OwStart string int
  | OwWait
  | OwWoken
  | OwTimeout
  | OwKill
  | OwTurn
  | OwKiller pevent
  | OwReturn
  | OwJoin bool
  | OwOther pevent

fun bg_event :: "pevent \<Rightarrow> bool" where
  "bg_event (PChildExit status) = True"
| "bg_event PReap = True"
| "bg_event (PWaitFails r status) = True"
| "bg_event PPublish = True"
| "bg_event e = False"

text \<open>The executor does not capture the output, so that \<open>start\<close> makes no pipe.\<close>

definition RUN_AFTER_WAIT :: int where
  "RUN_AFTER_WAIT = RUN_AFTER_TIMEOUT_SECONDS * 1000"

lemma RUN_AFTER_WAIT_eq: "RUN_AFTER_WAIT = 30000"
  by (simp add: RUN_AFTER_WAIT_def RUN_AFTER_TIMEOUT_SECONDS_def)

definition ow_go :: "owned \<Rightarrow> owner_pc \<Rightarrow> psys option \<Rightarrow> owned option" where
  "ow_go s pc = map_option (\<lambda>p. s\<lparr>ow_pc := pc, ow_px := p\<rparr>)"

definition is_gone :: "owner_pc \<Rightarrow> bool" where
  "is_gone pc \<longleftrightarrow> (case pc of Gone _ \<Rightarrow> True | _ \<Rightarrow> False)"

definition after_kill :: "bool \<Rightarrow> owner_pc" where
  "after_kill destructor = (if destructor then AtJoin else AtKill True)"

text \<open>
  When the owner is gone the background thread may still return from \<open>waitpid\<close>, but it takes no step that
  uses the freed mutex.
\<close>

fun ow_event :: "(nat \<Rightarrow> int) \<Rightarrow> owner_step \<Rightarrow> owned \<Rightarrow> owned option" where
  "ow_event W (OwStart err pid) s =
     (if ow_pc s = AtStart then ow_go s AtWait (px_event W (PStart None err pid) (ow_px s)) else None)"
| "ow_event W OwWait s =
     (if ow_pc s = AtWait then
        (case wait_enter RUN_AFTER_WAIT (px_exec (ow_px s)) of
           Inl _ \<Rightarrow> None
         | Inr (WaitReturns _) \<Rightarrow> Some (s\<lparr>ow_pc := AtKill True\<rparr>)
         | Inr (WaitBlocks _) \<Rightarrow> ow_go s Blocked (px_event W (PWait 0 RUN_AFTER_WAIT) (ow_px s)))
      else None)"
| "ow_event W OwWoken s =
     (if ow_pc s = Blocked then ow_go s (AtKill True) (px_event W (PWoken 0) (ow_px s)) else None)"
| "ow_event W OwTimeout s =
     (if ow_pc s = Blocked then ow_go s (AtKill False) (px_event W (PTimeout 0) (ow_px s)) else None)"
| "ow_event W OwKill s =
     (case ow_pc s of
        AtKill d \<Rightarrow>
          (if pe_status (px_exec (ow_px s)) = RUNNING
           then ow_go s (Queued d) (px_event W PKillCall (ow_px s)) else Some (s\<lparr>ow_pc := after_kill d\<rparr>))
      | _ \<Rightarrow> None)"
| "ow_event W OwTurn s =
     (case ow_pc s of Queued d \<Rightarrow> ow_go s (Killing d) (px_event W PKillLock (ow_px s)) | _ \<Rightarrow> None)"
| "ow_event W (OwKiller e) s =
     (case ow_pc s of
        Killing d \<Rightarrow> (if killer_step e then ow_go s (Killing d) (px_event W e (ow_px s)) else None)
      | _ \<Rightarrow> None)"
| "ow_event W OwReturn s =
     (case ow_pc s of
        Killing d \<Rightarrow> (if px_kill (ow_px s) = K_idle then Some (s\<lparr>ow_pc := after_kill d\<rparr>) else None)
      | _ \<Rightarrow> None)"
| "ow_event W (OwJoin joined) s =
     (if ow_pc s = AtJoin \<and> (joined \<longrightarrow> px_bg (ow_px s) = BgDone) then Some (s\<lparr>ow_pc := Gone joined\<rparr>) else None)"
| "ow_event W (OwOther e) s =
     (if bg_event e \<and> \<not> (is_gone (ow_pc s) \<and> e = PPublish) then ow_go s (ow_pc s) (px_event W e (ow_px s)) else None)"

abbreviation ow_run :: "(nat \<Rightarrow> int) \<Rightarrow> owner_step list \<Rightarrow> owned \<Rightarrow> owned option" where
  "ow_run W \<equiv> run_events (ow_event W)"

inductive ow_reachable :: "(nat \<Rightarrow> int) \<Rightarrow> owned \<Rightarrow> bool" for W where
  init: "ProgramExecutor_new [shell, ''-c'', ac_runAfter (c :: app_config)] environ [] False ''Run-after command'' = Inr ex \<Longrightarrow>
    ow_reachable W \<lparr>ow_pc = AtStart, ow_px = psys_init ex\<rparr>"
| step: "ow_reachable W s \<Longrightarrow> ow_event W e s = Some s' \<Longrightarrow> ow_reachable W s'"

lemma ow_run_reachable: "ow_reachable W s \<Longrightarrow> ow_run W es s = Some s' \<Longrightarrow> ow_reachable W s'"
  by (induction es arbitrary: s) (auto split: option.splits intro: ow_reachable.step)

lemma ow_go_eq: "ow_go s pc x = Some s' \<longleftrightarrow> (\<exists>p. x = Some p \<and> s' = s\<lparr>ow_pc := pc, ow_px := p\<rparr>)"
  by (auto simp: ow_go_def)

section \<open>The invariant\<close>

text \<open>Only the owner waits on the executor.\<close>

definition ow_waits :: "owner_pc \<Rightarrow> bool \<Rightarrow> nat \<Rightarrow> (int option \<times> bool) option" where
  "ow_waits pc run = (if pc = Blocked then [0 \<mapsto> (Some RUN_AFTER_WAIT, \<not> run)] else Map.empty)"

text \<open>What each place of the owner says of the executor; the destructor never has to kill.\<close>

fun ow_place :: "owner_pc \<Rightarrow> psys \<Rightarrow> bool" where
  "ow_place AtStart p = (px_status p = NOT_STARTED)"
| "ow_place (Queued d) p = (\<not> d \<and> px_status p \<noteq> NOT_STARTED \<and> px_kill p = K_idle \<and> px_queue p = 1)"
| "ow_place (Killing d) p = (\<not> d \<and> stopping p \<and> px_queue p = 0)"
| "ow_place (AtKill True) p = (stopping p \<and> px_kill p = K_idle \<and> px_queue p = 0)"
| "ow_place AtJoin p = (stopping p \<and> px_kill p = K_idle \<and> px_queue p = 0)"
| "ow_place (Gone joined) p = (stopping p \<and> px_kill p = K_idle \<and> px_queue p = 0 \<and> (joined \<longrightarrow> px_bg p = BgDone))"
| "ow_place pc p = (px_status p \<noteq> NOT_STARTED \<and> px_kill p = K_idle \<and> px_queue p = 0)"

text \<open>A published end is the last thing that the background thread does.\<close>

definition bg_published :: "psys \<Rightarrow> bool" where
  "bg_published p \<longleftrightarrow> px_status p \<in> {EXITED, SIGNALLED} \<longrightarrow> px_bg p = BgDone"

definition ow_inv :: "owned \<Rightarrow> bool" where
  "ow_inv s \<longleftrightarrow> px_inv (ow_px s) \<and> ow_place (ow_pc s) (ow_px s) \<and> bg_published (ow_px s) \<and>
     px_waits (ow_px s) = ow_waits (ow_pc s) (px_status (ow_px s) = RUNNING) \<and>
     \<not> pe_captureOutput (px_exec (ow_px s)) \<and> pe_pipeFd (px_exec (ow_px s)) = 0"

text \<open>The parts of the executor that no step of \<open>kill\<close> and of the other threads changes.\<close>

definition px_frame :: "psys \<Rightarrow> psys \<Rightarrow> bool" where
  "px_frame p p' \<longleftrightarrow> px_queue p' = px_queue p \<and> pe_captureOutput (px_exec p') = pe_captureOutput (px_exec p) \<and>
     pe_pipeFd (px_exec p') = pe_pipeFd (px_exec p)"

lemma ow_waits_broadcast:
  "px_waits p = ow_waits pc run \<Longrightarrow> px_waits (broadcast p) = ow_waits pc False"
  by (rule ext) (simp add: broadcast_waits ow_waits_def)

lemma bg_step:
  assumes inv: "px_inv p" and e: "bg_event e" "px_event W e p = Some p'"
    and w: "px_waits p = ow_waits pc (px_status p = RUNNING)" and b: "bg_published p"
  shows "px_frame p p' \<and> kill_rank (px_kill p') = kill_rank (px_kill p) \<and> (px_kill p' = K_idle \<longleftrightarrow> px_kill p = K_idle) \<and>
    px_waits p' = ow_waits pc (px_status p' = RUNNING) \<and> bg_published p' \<and>
    (px_bg p = BgDone \<longrightarrow> px_bg p' = BgDone) \<and> (px_status p = NOT_STARTED \<longrightarrow> px_status p' = NOT_STARTED)"
proof (cases e)
  case PPublish
  then obtain r st where bg: "px_bg p = BgHas r st" using e(2) by (auto split: bg_thread.splits)
  have started: "px_status p \<noteq> NOT_STARTED" using inv bg by (auto simp: px_inv_def px_fresh_def)
  obtain ex bc where pub: "wait_publish r st (px_exec p) = (ex, bc)" by fastforce
  have p': "p' = (if bc then broadcast else id) (p\<lparr>px_exec := ex, px_bg := BgDone\<rparr>)"
    using e(2) PPublish bg pub by (auto simp: Let_def)
  have ex: "pe_captureOutput ex = pe_captureOutput (px_exec p)" "pe_pipeFd ex = pe_pipeFd (px_exec p)"
    "bc \<longrightarrow> pe_status ex \<noteq> RUNNING" "\<not> bc \<longrightarrow> ex = px_exec p"
    using pub by (auto simp: wait_publish_def split: if_splits)
  show ?thesis using p' ex started w ow_waits_broadcast [of "p\<lparr>px_exec := ex, px_bg := BgDone\<rparr>" pc]
    by (cases bc; cases "px_kill p") (auto simp: px_frame_def bg_published_def)
qed (use e w b inv in \<open>auto simp: px_frame_def bg_published_def px_inv_def px_fresh_def
      split: if_splits bg_thread.splits child.splits\<close>)

lemma killer_step_frame:
  assumes e: "killer_step e" "px_event W e p = Some p'" and b: "bg_published p" and n: "pc \<noteq> Blocked"
    and w: "px_waits p = ow_waits pc (px_status p = RUNNING)"
  shows "px_frame p p' \<and> px_waits p' = ow_waits pc (px_status p' = RUNNING) \<and> bg_published p'"
proof -
  have w0: "px_waits p = Map.empty" using w n by (simp add: ow_waits_def)
  have "px_waits p' = Map.empty" "px_frame p p'" "bg_published p'"
    using e b w0 unfolding killer_step_def
    by (auto simp: px_frame_def bg_published_def broadcast_def killIfRunning_def give_up_def sys_def
        split: if_splits kill_pc.splits sum.splits bool.splits wait_step.splits)
  then show ?thesis using n by (simp add: ow_waits_def)
qed

lemma ow_invD:
  assumes "ow_inv s"
  shows "px_inv (ow_px s)" "ow_place (ow_pc s) (ow_px s)" "bg_published (ow_px s)"
    "px_waits (ow_px s) = ow_waits (ow_pc s) (px_status (ow_px s) = RUNNING)"
    "\<not> pe_captureOutput (px_exec (ow_px s))" "pe_pipeFd (px_exec (ow_px s)) = 0"
  using assms by (simp_all add: ow_inv_def)

text \<open>Starting and waiting, then the steps of \<open>kill\<close>.\<close>

lemma ow_wait_inv:
  assumes inv: "ow_inv s" and ev: "ow_event W e s = Some s'"
    and e: "e = OwWait \<or> e = OwWoken \<or> e = OwTimeout \<or> (\<exists>err pid. e = OwStart err pid)"
  shows "ow_inv s'"
proof -
  let ?p = "ow_px s"
  note I = ow_invD [OF inv]
  show ?thesis
  proof (cases e)
    case (OwStart err pid)
    then obtain p where p: "ow_pc s = AtStart" "px_event W (PStart None err pid) ?p = Some p"
        "s' = s\<lparr>ow_pc := AtWait, ow_px := p\<rparr>"
      using ev by (auto simp: ow_go_eq split: if_splits)
    then have "px_fresh ?p" using I by (simp add: px_inv_def)
    then show ?thesis using I p px_event_inv [OF I(1) p(2)]
      by (auto simp: ow_inv_def px_fresh_def ow_waits_def bg_published_def start_parent_def Let_def split: if_splits)
  next
    case OwWait
    have started: "px_status ?p \<noteq> NOT_STARTED" using I(2) OwWait ev by (auto split: if_splits)
    show ?thesis
    proof (cases "px_status ?p = RUNNING")
      case True
      then obtain p where p: "ow_pc s = AtWait" "px_event W (PWait 0 RUN_AFTER_WAIT) ?p = Some p"
          "s' = s\<lparr>ow_pc := Blocked, ow_px := p\<rparr>"
        using ev OwWait by (auto simp: ow_go_eq wait_enter_cases split: if_splits)
      then show ?thesis using I px_event_inv [OF I(1) p(2)] True
        by (auto simp: ow_inv_def ow_waits_def bg_published_def wait_enter_cases RUN_AFTER_WAIT_eq split: if_splits)
    next
      case False
      then have "ow_pc s = AtWait" "s' = s\<lparr>ow_pc := AtKill True\<rparr>"
        using ev OwWait started by (auto simp: wait_enter_cases split: if_splits ProgramStatus.splits)
      then show ?thesis using I False by (simp add: ow_inv_def stopping_def ow_waits_def)
    qed
  next
    case OwWoken
    then obtain p where p: "ow_pc s = Blocked" "px_event W (PWoken 0) ?p = Some p" "s' = s\<lparr>ow_pc := AtKill True, ow_px := p\<rparr>"
      using ev by (auto simp: ow_go_eq split: if_splits)
    then show ?thesis using I px_event_inv [OF I(1) p(2)]
      by (auto simp: ow_inv_def ow_waits_def bg_published_def stopping_def split: if_splits bool.splits)
  next
    case OwTimeout
    then obtain p where p: "ow_pc s = Blocked" "px_event W (PTimeout 0) ?p = Some p" "s' = s\<lparr>ow_pc := AtKill False, ow_px := p\<rparr>"
      using ev by (auto simp: ow_go_eq split: if_splits)
    then show ?thesis using I px_event_inv [OF I(1) p(2)]
      by (auto simp: ow_inv_def ow_waits_def bg_published_def split: if_splits)
  qed (use e in simp_all)
qed

lemma ow_kill_inv:
  assumes inv: "ow_inv s" and ev: "ow_event W e s = Some s'"
    and e: "e = OwKill \<or> e = OwTurn \<or> e = OwReturn \<or> (\<exists>k. e = OwKiller k)"
  shows "ow_inv s'"
proof -
  let ?p = "ow_px s"
  note I = ow_invD [OF inv]
  show ?thesis
  proof (cases e)
    case OwKill
    then obtain d where d: "ow_pc s = AtKill d" using ev by (auto split: owner_pc.splits)
    show ?thesis
    proof (cases "px_status ?p = RUNNING")
      case True
      then have "\<not> d" using I(2) d by (cases d) (auto simp: stopping_def)
      moreover obtain p where p: "px_event W PKillCall ?p = Some p" "s' = s\<lparr>ow_pc := Queued d, ow_px := p\<rparr>"
        using ev OwKill d True by (auto simp: ow_go_eq)
      ultimately show ?thesis using I d px_event_inv [OF I(1) p(1)] True
        by (auto simp: ow_inv_def ow_waits_def bg_published_def)
    next
      case False
      then have "s' = s\<lparr>ow_pc := after_kill d\<rparr>" using ev OwKill d by simp
      then show ?thesis using I d False by (cases d) (auto simp: ow_inv_def after_kill_def stopping_def ow_waits_def)
    qed
  next
    case OwTurn
    then obtain d p where p: "ow_pc s = Queued d" "px_event W PKillLock ?p = Some p" "s' = s\<lparr>ow_pc := Killing d, ow_px := p\<rparr>"
      using ev by (auto simp: ow_go_eq split: owner_pc.splits)
    then show ?thesis using I px_event_inv [OF I(1) p(2)]
      by (auto simp: ow_inv_def ow_waits_def bg_published_def stopping_def)
  next
    case (OwKiller k)
    then obtain d p where p: "ow_pc s = Killing d" "killer_step k" "px_event W k ?p = Some p" "s' = s\<lparr>ow_px := p\<rparr>"
      using ev by (auto simp: ow_go_eq split: owner_pc.splits if_splits)
    have "stopping p" using I(2) p stop.step_inv by auto
    then show ?thesis using I p px_event_inv [OF I(1) p(3)] killer_step_frame [OF p(2,3) I(3) _ I(4)]
      by (auto simp: ow_inv_def px_frame_def)
  next
    case OwReturn
    then obtain d where d: "ow_pc s = Killing d" "px_kill ?p = K_idle" "s' = s\<lparr>ow_pc := after_kill d\<rparr>"
      using ev by (auto split: owner_pc.splits if_splits)
    then show ?thesis using I by (auto simp: ow_inv_def after_kill_def ow_waits_def)
  qed (use e in simp_all)
qed

lemma ow_event_inv:
  assumes inv: "ow_inv s" and ev: "ow_event W e s = Some s'"
  shows "ow_inv s'"
proof -
  let ?p = "ow_px s"
  note I = ow_invD [OF inv]
  show ?thesis
  proof (cases e)
    case (OwJoin j)
    then show ?thesis using I ev by (auto simp: ow_inv_def ow_waits_def split: if_splits)
  next
    case (OwOther k)
    then obtain p where p: "bg_event k" "px_event W k ?p = Some p" "s' = s\<lparr>ow_px := p\<rparr>"
      using ev by (auto simp: ow_go_eq split: if_splits)
    note F = bg_step [OF I(1) p(1,2) I(4,3)]
    have "ow_place (ow_pc s) p"
      using I(2) F px_event_stays [OF I(1) p(2)] stop.step_inv [OF _ p(2)]
      by (cases "(ow_pc s, p)" rule: ow_place.cases) (auto simp: px_frame_def)
    then show ?thesis using I p F px_event_inv [OF I(1) p(2)] by (auto simp: ow_inv_def px_frame_def)
  qed (use ow_wait_inv [OF inv ev] ow_kill_inv [OF inv ev] in simp_all)
qed

lemma ow_reachable_inv: "ow_reachable W s \<Longrightarrow> ow_inv s"
proof (induction rule: ow_reachable.induct)
  case (init shell c environ ex)
  then have "px_reachable W (psys_init ex)" by (rule px_reachable.init)
  then have "px_inv (psys_init ex)" by (rule px_reachable_inv)
  then show ?case using init
    by (auto simp: ow_inv_def psys_init_def ow_waits_def bg_published_def ProgramExecutor_new_def split: if_splits)
next
  case (step s e s')
  then show ?case using ow_event_inv by blast
qed

interpretation ow: event_system "ow_event W" ow_inv for W
  by unfold_locales (rule ow_event_inv)

section \<open>The end of the owner\<close>

definition owner_steps :: "owner_step \<Rightarrow> bool" where
  "owner_steps e \<longleftrightarrow> (case e of OwOther _ \<Rightarrow> False | _ \<Rightarrow> True)"

text \<open>How many steps the owner may still take.\<close>

fun place_rank :: "owner_pc \<Rightarrow> nat \<Rightarrow> nat" where
  "place_rank AtStart k = 18"
| "place_rank AtWait k = 17"
| "place_rank Blocked k = 16"
| "place_rank (AtKill d) k = (if d then 2 else 15)"
| "place_rank (Queued d) k = 14"
| "place_rank (Killing d) k = 3 + k"
| "place_rank AtJoin k = 1"
| "place_rank (Gone j) k = 0"

definition ow_rank :: "owned \<Rightarrow> nat" where
  "ow_rank s = place_rank (ow_pc s) (kill_rank (px_kill (ow_px s)))"

text \<open>
  The time a step takes, in milliseconds, when it is the end of a wait by its timeout (a wait that ends
  earlier takes less), and the time the owner may still spend.
\<close>

definition JOIN_WAIT :: int where
  "JOIN_WAIT = 3000"

definition ow_cost :: "(nat \<Rightarrow> int) \<Rightarrow> owner_step \<Rightarrow> owned \<Rightarrow> int" where
  "ow_cost W e s =
     (case e of
        OwTimeout \<Rightarrow> RUN_AFTER_WAIT
      | OwKiller PKillTimeout \<Rightarrow> (case px_kill (ow_px s) of K_block n _ \<Rightarrow> W n | _ \<Rightarrow> 0)
      | OwJoin joined \<Rightarrow> (if joined then 0 else JOIN_WAIT)
      | _ \<Rightarrow> 0)"

fun run_ms :: "(nat \<Rightarrow> int) \<Rightarrow> owner_step list \<Rightarrow> owned \<Rightarrow> int" where
  "run_ms W [] s = 0"
| "run_ms W (e # es) s = ow_cost W e s + (case ow_event W e s of None \<Rightarrow> 0 | Some s' \<Rightarrow> run_ms W es s')"

fun kill_budget :: "(nat \<Rightarrow> int) \<Rightarrow> kill_pc \<Rightarrow> int" where
  "kill_budget W (K_send n) = (\<Sum>i = n..3. W i)"
| "kill_budget W (K_wait n) = (\<Sum>i = n..3. W i)"
| "kill_budget W (K_block n _) = (\<Sum>i = n..3. W i)"
| "kill_budget W _ = 0"

fun place_budget :: "(nat \<Rightarrow> int) \<Rightarrow> owner_pc \<Rightarrow> kill_pc \<Rightarrow> int" where
  "place_budget W (AtKill d) k = (if d then 0 else \<Sum>i = 1..3. W i) + JOIN_WAIT"
| "place_budget W (Queued d) k = (\<Sum>i = 1..3. W i) + JOIN_WAIT"
| "place_budget W (Killing d) k = kill_budget W k + JOIN_WAIT"
| "place_budget W AtJoin k = JOIN_WAIT"
| "place_budget W (Gone j) k = 0"
| "place_budget W pc k = RUN_AFTER_WAIT + (\<Sum>i = 1..3. W i) + JOIN_WAIT"

definition ow_budget :: "(nat \<Rightarrow> int) \<Rightarrow> owned \<Rightarrow> int" where
  "ow_budget W s = place_budget W (ow_pc s) (px_kill (ow_px s))"

lemma kill_budget_nonneg: "\<forall>n. W n > 0 \<Longrightarrow> 0 \<le> kill_budget W k"
  by (cases k) (auto intro!: sum_nonneg simp: less_imp_le)

lemma kill_budget_broadcast: "kill_budget W (case k of K_block n _ \<Rightarrow> K_block n True | k \<Rightarrow> k) = kill_budget W k"
  by (cases k) simp_all

lemma killer_spends:
  assumes inv: "px_inv p" and W: "\<forall>n. W n > 0" and e: "killer_step e" "px_event W e p = Some p'"
  shows "(case e of PKillTimeout \<Rightarrow> (case px_kill p of K_block n _ \<Rightarrow> W n | _ \<Rightarrow> 0) | _ \<Rightarrow> 0) + kill_budget W (px_kill p') \<le>
    kill_budget W (px_kill p)"
proof (cases "e = PKillTimeout")
  case True
  then obtain n b where n: "px_kill p = K_block n b" using e(2) by (auto split: kill_pc.splits)
  have "n \<le> 3" using inv n by (simp add: px_inv_def)
  then have "(\<Sum>i = n..3. W i) = W n + (\<Sum>i = Suc n..3. W i)" by (rule sum.atLeast_Suc_atMost)
  moreover have "px_kill p' = (if n < 3 then K_send (n + 1) else K_giveup)" using e(2) True n W by (auto split: if_splits)
  ultimately show ?thesis using n True \<open>n \<le> 3\<close> by auto
next
  case False
  then have "kill_budget W (px_kill p') \<le> kill_budget W (px_kill p)"
    using e kill_budget_nonneg [OF W, of "px_kill p"] unfolding killer_step_def
    by (auto split: kill_pc.splits sum.splits bool.splits wait_step.splits)
  then show ?thesis using False by (auto split: pevent.split)
qed

lemma ow_step_spends:
  assumes inv: "ow_inv s" and W: "\<forall>n. W n > 0" and ev: "ow_event W e s = Some s'"
  shows "(if owner_steps e then ow_rank s' < ow_rank s else ow_rank s' = ow_rank s) \<and>
    ow_cost W e s + ow_budget W s' \<le> ow_budget W s"
proof -
  let ?p = "ow_px s"
  have I: "px_inv ?p" "ow_place (ow_pc s) ?p" "bg_published ?p"
    "px_waits ?p = ow_waits (ow_pc s) (px_status ?p = RUNNING)" using inv by (simp_all add: ow_inv_def)
  have S: "0 \<le> (\<Sum>i = 1..3. W i)" "0 \<le> JOIN_WAIT" "0 \<le> RUN_AFTER_WAIT" "0 \<le> kill_budget W (px_kill ?p)"
    using W kill_budget_nonneg [OF W] by (auto intro!: sum_nonneg simp: less_imp_le JOIN_WAIT_def RUN_AFTER_WAIT_eq)
  show ?thesis
  proof (cases e)
    case (OwOther k)
    then obtain p where p: "bg_event k" "px_event W k ?p = Some p" "s' = s\<lparr>ow_px := p\<rparr>"
      using ev by (auto simp: ow_go_eq split: if_splits)
    note F = bg_step [OF I(1) p(1,2) I(4,3)]
    have "kill_budget W (px_kill p) = kill_budget W (px_kill ?p)"
      using p(1,2) kill_budget_broadcast
      by (cases k) (auto simp: Let_def split: if_splits bg_thread.splits child.splits prod.splits)
    then show ?thesis using F p OwOther
      by (cases "ow_pc s") (simp_all add: owner_steps_def ow_rank_def ow_budget_def ow_cost_def)
  next
    case (OwKiller k)
    then obtain d p where p: "ow_pc s = Killing d" "killer_step k" "px_event W k ?p = Some p" "s' = s\<lparr>ow_px := p\<rparr>"
      using ev by (auto simp: ow_go_eq split: owner_pc.splits if_splits)
    then show ?thesis using killer_spends [OF I(1) W p(2,3)] killer_rank [OF I(1) p(2,3)] OwKiller
      by (auto simp: owner_steps_def ow_rank_def ow_budget_def ow_cost_def)
  next
    case OwReturn
    then show ?thesis using ev I(2) S
      by (auto simp: owner_steps_def ow_rank_def ow_budget_def ow_cost_def after_kill_def split: owner_pc.splits if_splits)
  next
    case OwWait
    then show ?thesis using ev S
      by (auto simp: owner_steps_def ow_rank_def ow_budget_def ow_cost_def ow_go_eq split: if_splits sum.splits wait_step.splits)
  qed (use ev S I(2) in \<open>auto simp: owner_steps_def ow_rank_def ow_budget_def ow_cost_def ow_go_eq after_kill_def stopping_def
        split: if_splits owner_pc.splits bool.splits\<close>)
qed

lemma ow_run_spends:
  assumes "ow_inv s" "\<forall>n. W n > 0" "ow_run W es s = Some s'"
  shows "length (filter owner_steps es) + ow_rank s' \<le> ow_rank s \<and> run_ms W es s + ow_budget W s' \<le> ow_budget W s"
  using assms(1,3)
proof (induction es arbitrary: s)
  case (Cons e es)
  then obtain s1 where s1: "ow_event W e s = Some s1" "ow_run W es s1 = Some s'" by (auto split: option.splits)
  show ?case
    using ow_step_spends [OF Cons.prems(1) assms(2) s1(1)] Cons.IH [OF ow_event_inv [OF Cons.prems(1) s1(1)] s1(2)] s1(1)
    by (auto split: if_splits)
qed simp

lemma ow_budget_bounds:
  assumes "ow_inv s" "\<forall>n. W n > 0"
  shows "ow_rank s \<le> 18" "0 \<le> ow_budget W s" "ow_budget W s \<le> RUN_AFTER_WAIT + (\<Sum>i = 1..3. W i) + JOIN_WAIT"
proof -
  have inv: "px_inv (ow_px s)" using assms(1) by (simp add: ow_inv_def)
  then have k: "kill_rank (px_kill (ow_px s)) \<le> 10" "kill_pc_ok (px_kill (ow_px s)) (px_status (ow_px s) = RUNNING) (px_sends (ow_px s))"
    using kill_rank_bound [OF inv] by (simp_all add: px_inv_def)
  have S: "0 \<le> (\<Sum>i = 1..3. W i)" "0 \<le> JOIN_WAIT" "0 \<le> RUN_AFTER_WAIT" "0 \<le> kill_budget W (px_kill (ow_px s))"
    using assms(2) kill_budget_nonneg [OF assms(2)]
    by (auto intro!: sum_nonneg simp: less_imp_le JOIN_WAIT_def RUN_AFTER_WAIT_eq)
  have le: "1 \<le> n \<Longrightarrow> (\<Sum>i = n..3. W i) \<le> (\<Sum>i = 1..3. W i)" for n
    using assms(2) by (intro sum_mono2) (auto simp: less_imp_le)
  have B: "kill_budget W (px_kill (ow_px s)) \<le> (\<Sum>i = 1..3. W i)" using k(2) le S(1) by (cases "px_kill (ow_px s)") auto
  show "ow_rank s \<le> 18" using k(1) by (cases "ow_pc s") (simp_all add: ow_rank_def)
  show "0 \<le> ow_budget W s" using S by (cases "ow_pc s") (simp_all add: ow_budget_def)
  show "ow_budget W s \<le> RUN_AFTER_WAIT + (\<Sum>i = 1..3. W i) + JOIN_WAIT"
    using S B by (cases "ow_pc s") (simp_all add: ow_budget_def)
qed

lemma ow_progress:
  assumes inv: "ow_inv s" and W: "\<forall>n. W n > 0" and busy: "\<not> is_gone (ow_pc s)"
  shows "\<exists>e s'. owner_steps e \<and> ow_event W e s = Some s'"
proof -
  let ?p = "ow_px s"
  have I: "px_inv ?p" "ow_place (ow_pc s) ?p" "px_waits ?p = ow_waits (ow_pc s) (px_status ?p = RUNNING)"
      "\<not> pe_captureOutput (px_exec ?p)"
    using inv by (simp_all add: ow_inv_def)
  have some: "\<exists>s'. ow_event W e s = Some s' \<Longrightarrow> owner_steps e \<Longrightarrow> ?thesis" for e by blast
  show ?thesis
  proof (cases "ow_pc s")
    case AtStart
    then show ?thesis using I by (intro some [of "OwStart [] 100"]) (simp_all add: ow_go_def start_parent_def owner_steps_def)
  next
    case AtWait
    then show ?thesis using I
      by (intro some [of OwWait]) (auto simp: ow_go_def wait_enter_cases ow_waits_def owner_steps_def split: ProgramStatus.split)
  next
    case Blocked
    then show ?thesis using I by (intro some [of OwTimeout]) (simp_all add: ow_go_def ow_waits_def owner_steps_def)
  next
    case (AtKill d)
    then show ?thesis by (intro some [of OwKill]) (simp_all add: ow_go_def owner_steps_def)
  next
    case (Queued d)
    then show ?thesis using I by (intro some [of OwTurn]) (simp_all add: ow_go_def owner_steps_def)
  next
    case (Killing d)
    show ?thesis
    proof (cases "px_kill ?p = K_idle")
      case True
      then show ?thesis using Killing by (intro some [of OwReturn]) (simp_all add: owner_steps_def)
    next
      case False
      then obtain e p where "killer_step e" "px_event W e ?p = Some p" using killer_progress [OF I(1)] W by blast
      then show ?thesis using Killing by (intro some [of "OwKiller e"]) (simp_all add: ow_go_def owner_steps_def)
    qed
  next
    case AtJoin
    then show ?thesis by (intro some [of "OwJoin False"]) (simp_all add: owner_steps_def)
  qed (use busy in \<open>simp add: is_gone_def\<close>)
qed

interpretation owner: ending_system "ow_event W" ow_inv owner_steps "\<lambda>s. (\<forall>n. W n > 0) \<and> \<not> is_gone (ow_pc s)" ow_rank for W
proof
  fix s assume inv: "ow_inv s" and b: "(\<forall>n. W n > 0) \<and> \<not> is_gone (ow_pc s)"
  then obtain e s' where e: "owner_steps e" "ow_event W e s = Some s'" using ow_progress [OF inv, of W] by blast
  then have "ow_rank s' < ow_rank s" using ow_step_spends [OF inv _ e(2)] b by simp
  then show "\<exists>e s'. owner_steps e \<and> ow_event W e s = Some s' \<and> ow_rank s' < ow_rank s" using e by blast
qed

section \<open>Properties\<close>

definition sample_owned :: owned where
  "sample_owned = \<lparr>ow_pc = AtStart, ow_px = psys_init (sample_executor
     \<lparr>pe_captureOutput := False, pe_loggingTag := ''Run-after command'', pe_workDir := []\<rparr>)\<rparr>"

lemma sample_owned_reachable: "ow_reachable W sample_owned"
proof -
  have "ProgramExecutor_new [''sh'', ''-c'', ac_runAfter (BaseApp_new\<lparr>ac_runAfter := ''ls''\<rparr>)] [(''A'', ''1'')] [] False
      ''Run-after command'' = Inr (sample_executor\<lparr>pe_captureOutput := False, pe_loggingTag := ''Run-after command'', pe_workDir := []\<rparr>)"
    by (simp add: ProgramExecutor_new_def sample_executor_def)
  then show ?thesis unfolding sample_owned_def by (rule ow_reachable.init)
qed

text \<open>A command that never ends: it is started, times out, survives both \<open>SIGINT\<close> and \<open>SIGKILL\<close>, and is given up.\<close>

definition stuck_steps :: "owner_step list" where
  "stuck_steps = [OwStart [] 100, OwWait, OwTimeout, OwKill, OwTurn, OwKiller PKillSend, OwKiller PKillEnter,
     OwKiller PKillTimeout, OwKiller PKillSend, OwKiller PKillEnter, OwKiller PKillTimeout, OwKiller PKillSend,
     OwKiller PKillEnter, OwKiller PKillTimeout, OwKiller PKillGiveUp, OwReturn, OwKill, OwJoin False]"

lemma stuck_run:
  "\<exists>s. ow_run (kill_ms (10, 20, 60)) stuck_steps sample_owned = Some s \<and>
     run_ms (kill_ms (10, 20, 60)) stuck_steps sample_owned = 123000 \<and>
     ow_pc s = Gone False \<and> px_status (ow_px s) = CANNOT_KILL \<and> px_child (ow_px s) = Alive \<and>
     px_bg (ow_px s) = BgWaits \<and> SysClose 0 \<in> set (pe_calls (px_exec (ow_px s)))"
  by (simp add: stuck_steps_def sample_owned_def psys_init_def ow_go_def start_parent_def RUN_AFTER_WAIT_eq Let_def
      wait_enter_cases kill_ms_def killer_step_def killIfRunning_def after_kill_def give_up_def sys_def
      broadcast_def ow_cost_def JOIN_WAIT_def sample_executor_def)

text \<open>C26: The command that runs after the program cannot hold up the end for long: when the three waits of \<open>kill\<close> are
  positive, the owner of its executor makes at most 18 steps of its own in any interleaving with the child
  and the background thread, it is never stuck before it has destroyed the executor, and the waits that run
  into their timeouts take at most 30 seconds, those of \<open>kill\<close> and 3 seconds in all.\<close>

theorem run_after_bounded:
  assumes "ow_reachable W s" "\<forall>n. W n > 0" "ow_run W es s = Some s'"
  shows "length (filter owner_steps es) \<le> 18 \<and> run_ms W es s \<le> 30000 + (W 1 + W 2 + W 3) + 3000 \<and>
    (is_gone (ow_pc s') \<or> (\<exists>e s''. owner_steps e \<and> ow_event W e s' = Some s''))"
proof -
  have inv: "ow_inv s" using ow_reachable_inv [OF assms(1)] .
  have inv': "ow_inv s'" using ow.run_inv [OF inv assms(3)] .
  have "(\<Sum>i = 1..3. W i) = W 1 + W 2 + W 3" by (simp add: numeral_2_eq_2 numeral_3_eq_3)
  then show ?thesis
    using ow_run_spends [OF inv assms(2,3)] ow_budget_bounds [OF inv assms(2)] ow_budget_bounds(2) [OF inv' assms(2)]
      ow_progress [OF inv' assms(2)]
    by (auto simp: RUN_AFTER_WAIT_eq JOIN_WAIT_def)
qed

lemma run_after_bounded_witness:
  "\<exists>s'. ow_run (\<lambda>_. 1000) [OwStart [] 100, OwOther (PChildExit 0), OwWait, OwTimeout] sample_owned = Some s' \<and>
     run_ms (\<lambda>_. 1000) [OwStart [] 100, OwOther (PChildExit 0), OwWait, OwTimeout] sample_owned \<le> 36000 \<and>
     (is_gone (ow_pc s') \<or> (\<exists>e s''. owner_steps e \<and> ow_event (\<lambda>_. 1000) e s' = Some s''))"
proof -
  obtain s' where "ow_run (\<lambda>_. 1000) [OwStart [] 100, OwOther (PChildExit 0), OwWait, OwTimeout] sample_owned = Some s'"
    by (auto simp: sample_owned_def psys_init_def ow_go_def start_parent_def RUN_AFTER_WAIT_eq Let_def wait_enter_cases
        terminated_def WIFEXITED_def WTERMSIG_def is_gone_def)
  then show ?thesis
    using run_after_bounded [OF sample_owned_reachable, of "\<lambda>_. 1000"
        "[OwStart [] 100, OwOther (PChildExit 0), OwWait, OwTimeout]" s'] by auto
qed

text \<open>C27: What the executor of the command that runs after the program leaves behind: the destructor never finds it \<open>RUNNING\<close>,
  so that it never kills; when it is gone the command has ended and its process is reaped, and its background
  thread is done, or it was given up with \<open>CANNOT_KILL\<close>; and a join that succeeded means that the thread is done.\<close>

theorem run_after_cleaned_up:
  assumes "ow_reachable W s"
  shows "ow_pc s \<noteq> Queued True \<and> ow_pc s \<noteq> Killing True \<and>
    (\<forall>joined. ow_pc s = Gone joined \<longrightarrow>
       (px_status (ow_px s) = CANNOT_KILL \<or>
        px_status (ow_px s) \<in> {EXITED, SIGNALLED} \<and> px_bg (ow_px s) = BgDone \<and> (\<exists>st. px_child (ow_px s) = Reaped st)) \<and>
       (joined \<longrightarrow> px_bg (ow_px s) = BgDone) \<and> px_kill (ow_px s) = K_idle \<and> px_queue (ow_px s) = 0)"
proof -
  note I = ow_invD [OF ow_reachable_inv [OF assms]]
  have "exit_ok (px_status (ow_px s)) (px_child (ow_px s)) (pe_waitStatus (px_exec (ow_px s)))"
    using I(1) by (simp add: px_inv_def)
  then show ?thesis using I(2,3)
    by (cases "px_status (ow_px s)") (auto simp: stopping_def bg_published_def)
qed

lemma run_after_cleaned_up_witness:
  "\<exists>s. ow_run (\<lambda>_. 1000) [OwStart [] 100, OwWait, OwOther (PChildExit 0), OwOther PReap, OwOther PPublish, OwWoken, OwKill,
       OwJoin True] sample_owned = Some s \<and> ow_pc s = Gone True \<and> px_status (ow_px s) = EXITED \<and>
     px_bg (ow_px s) = BgDone \<and> (\<exists>st. px_child (ow_px s) = Reaped st)"
proof -
  obtain s where s: "ow_run (\<lambda>_. 1000) [OwStart [] 100, OwWait, OwOther (PChildExit 0), OwOther PReap, OwOther PPublish, OwWoken,
      OwKill, OwJoin True] sample_owned = Some s" "ow_pc s = Gone True" "px_status (ow_px s) = EXITED"
    by (auto simp: sample_owned_def psys_init_def ow_go_def start_parent_def RUN_AFTER_WAIT_eq Let_def wait_enter_cases
        terminated_def WIFEXITED_def WTERMSIG_def is_gone_def wait_publish_def after_kill_def broadcast_def)
  then show ?thesis using run_after_cleaned_up [OF ow_run_reachable [OF sample_owned_reachable s(1)]] by auto
qed

text \<open>
  A command that does not end after \<open>SIGKILL\<close> in time leaves its background thread behind: the join fails, the
  destructor frees the mutex and the condition all the same, and when the process ends at last the thread is
  about to lock what has been freed. The file descriptor that \<open>kill\<close> closes when it gives up is 0, the standard input,
  since this executor has no pipe.
\<close>

theorem freed_while_running:
  "\<exists>s. ow_run (kill_ms (10, 20, 60)) (stuck_steps @ [OwOther (PChildExit 9), OwOther PReap]) sample_owned = Some s \<and>
     ow_pc s = Gone False \<and> (\<exists>p. px_event (kill_ms (10, 20, 60)) PPublish (ow_px s) = Some p) \<and>
     SysClose 0 \<in> set (pe_calls (px_exec (ow_px s)))"
proof -
  obtain s where s: "ow_run (kill_ms (10, 20, 60)) stuck_steps sample_owned = Some s" "ow_pc s = Gone False"
      "px_child (ow_px s) = Alive" "px_bg (ow_px s) = BgWaits" "SysClose 0 \<in> set (pe_calls (px_exec (ow_px s)))"
    using stuck_run by blast
  have "terminated 9" by code_simp
  then show ?thesis using s by (simp add: run_events_append ow_go_def Let_def split: prod.split)
qed

end
