(* ===== verification/Spec2Isabelle.thy ===== *)
theory Spec2Isabelle
  imports SavedOutput FilesWatcher Logger KillRequest AutoPtr RunProgress PollSession RunAfter
begin

text \<open>
  ML GridEngine executor: a program that runs a user program, keeps the last part of its output
  in memory, serves that output and a kill request over HTTP, saves output and status to files, and
  reports events to a callback API.

  Parts of the program and how they interact. \<open>MainApp::runApp\<close> (src/src/main.cpp) owns the others.
  \<open>ProgramExecutor\<close> forks the program; \<open>IOController\<close> copies what it prints from the pipe into
  \<open>OutputBuffer\<close>; the handlers of \<open>WebServerFactory\<close> read the buffer and kill the program;
  \<open>GeneratedFilesWatcher\<close> hands the JSON files the program writes to \<open>PersistAndCallbackManager\<close>, which also
  saves and posts the status; \<open>SignalHandler\<close> turns termination signals into calls of scoped
  callbacks; \<open>BaseApp\<close> reads the command line; \<open>Utils\<close> and \<open>Logger\<close> serve all of them.

  Theories, bottom up, each with the files it models:
    \<^item> HTTPError (HTTPError.h, .cpp): the exception for a response that is not 200.
    \<^item> Prelude: results with exceptions and faults as values, size_t and ssize_t arithmetic with its
      wrap-around, memory cells and memcpy with bounds, and the contracts \<open>event_system\<close> and \<open>ending_system\<close>
      of step functions that keep an invariant, or come to rest.
    \<^item> AutoPtr (AutoFreePtr.h, \<open>AutoDelete\<close> of OutputBuffer.cpp): pointers that release at the end of a scope,
      and the ring buffer together with the block of memory that holds its array: it owns exactly one.
    \<^item> ReaderHeap: the contract \<open>min_heap\<close> of boost's heap and a pairing heap that satisfies it.
    \<^item> OutputRing, ReaderList, OutputBuffer, BufferSystem (OutputBuffer.h, OutputBuffer.cpp): the circular
      buffer (fields \<open>_buffer\<close>, \<open>_head\<close>, \<open>_tail\<close>, \<open>_size\<close>, \<open>_capacity\<close> as the record \<open>ring\<close>), the list of waiting
      readers with its lazy cancellation, the public methods, and the interleaving of their critical
      sections as the step relation \<open>os_step\<close>. A history variable, the list of all bytes written, gives the
      specification: the buffer holds the last \<open>maxCapacity\<close> bytes of the history (\<open>ring_rel\<close>), and a read
      gives what \<open>spec_read\<close> says.
    \<^item> BufferClient: the contract \<open>output_source\<close> that clients of the buffer rely on, and sessions, in which
      other threads write and close between and during the client's calls; sessions satisfy it.
    \<^item> ProgramExecutor, ExecutorSystem (ProgramExecutor.h, ProgramExecutor.cpp): both sides of the fork, the
      wait status, and the interleaving of child, background wait, waiters and kill (\<open>px_event\<close>).
    \<^item> IOController (IOController.h, .cpp) and SavedOutput (main.cpp): the copying thread, and the end of
      runApp that closes the buffer and writes the output file.
    \<^item> WebServer (WebServerFactory.cpp): routing, polling and killing; the loops run in the locale
      \<open>output_source\<close>. PollSession: a client that follows the output over many polls, and what it gets
      compared with all that was written. KillRequest: a kill request from the handler through \<open>kill\<close> to
      its answer.
    \<^item> Utils (Utils.cpp), SignalHandler (SignalHandler.cpp: \<open>push\<close>, \<open>pop\<close> and \<open>wait\<close> as several steps each, between which
      a signal can be handled by the same thread, as the mutex is recursive), Logger (Logger.h, .cpp, and \<open>ErrorHandler\<close> of
      main.cpp).
    \<^item> PersistCallback (PersistAndCallbackManager.h, .cpp) and FilesWatcher (GeneratedFilesWatcher.h, .cpp).
    \<^item> BaseApp (BaseApp.h, .cpp; main of main.cpp) and MainApp (main.cpp): options, exit codes, and runApp as
      the trace of the calls it makes under every pattern of exceptions and signals.
    \<^item> RunTrace: which reports on the program occur in a trace, and in which order. RunSystem: a trace of
      runApp carried out on the states of executor, manager and signal handlers, interleaved with the
      other threads, signals and the operating system; the end of the program is read in two steps, as
      in the code, and the calls that wait (for the program, \<open>kill\<close>, the thread that reads the output, a
      signal) return when what they wait for has happened. RunInvariant: its invariants, and that each of its runs is
      a run of the executor's own system. RunReport: what
      follows for the program as a whole. RunProgress: under stated hypotheses its run can be
      brought to the end.
    \<^item> RunAfter (the last part of runApp in main.cpp, the destructor of ProgramExecutor.cpp): the executor of
      the command that runs after the program, with its owner (\<open>ow_event\<close>).

  What the lemmas show. Ring lemmas (\<open>circularWrite_ok\<close>, \<open>overwrite_ok\<close>, \<open>circularRead_ok\<close>): no access
  outside the array and the refinement of the history. List lemmas: the counters and the heap
  stay consistent, garbage is bounded. The invariants \<open>os_inv\<close> and \<open>px_inv\<close> hold in every reachable state;
  from them follow that writes are safe, that readers get exactly the bytes specified, that no
  wakeup is lost, that the status is truthful and that kill escalates and ends. The end-to-end
  property joins controller, buffer and main program: the output file is the tail of what was
  printed. The other end of the output is a client that polls: the contract \<open>output_source\<close> says that bytes are
  skipped only when they have dropped out of the buffer and that the end is told only after the last
  byte, so that the pieces of all polls together are the output. The manager's lemmas fix the sequence of saves, posts and pauses; the watcher's reduce a
  session to a sequence of reports. The monitor of MainApp shows that the program never outlives its
  scope. The invariants of the composed system carry this to the concrete states: past its scope the
  program has ended, the status file and the environment of the run-after command tell the truth about
  the reaped child, a termination signal leads out of the wait, and, without a command to run afterwards, failing calls or unlimited
  retries, no reachable state is a dead end: a rank on the steps of each call shows that the rest of the run can be finished.
  This needs that a read of the output comes back when the pipe is closed under it, which is not promised by POSIX
  (\<open>ae_readEnds\<close> is the parameter that says what the system does). The command afterwards cannot
  hold up the end: a rank and a budget of time on the steps of its owner bound both. Some properties and lemmas show
  faults of the code; they are also listed as findings.

  Bounds. The history is shorter than 2^63 bytes (an exabyte of output), so that its length is a
  \<open>ssize_t\<close>. Loops are structural or well-founded where they end; those that may not are
  \<open>partial_function (option)\<close>, where \<open>None\<close> is a run that never ends, and the theorems state that the result
  is \<open>Some\<close> (the poll loops, the save loop, the retry loop below the largest counter) or, for the faults,
  \<open>None\<close>. There is no fuel.

  Parameters. What is not in the repository is an argument: the operations of the heap (with the
  contract \<open>min_heap\<close>), number formatting and parsing, regular expressions, URI, JSON and Base64 of Poco,
  the file system as a tree of call results, what the server answers, what system calls return.
  Of the faults on the command line (a failed assertion, an undefined conversion) \<open>main_program\<close> says that they are
  no exit code.

  Coarser than the code: a call of the manager is one step of the composed system, although a report of
  the watching thread could fall into it; a signal handler queues its call of \<open>kill\<close> instead of running it on the
  interrupted thread; pushing, popping and waiting for a signal are single steps there, so that the lost signal of theory
  SignalHandler does not occur in it; the server and the watcher stop as the trace says. A signal in the
  middle of an operation on the vector of handlers is nowhere modelled. The executor of the command that runs after the program is a system of its
  own (RunAfter), of which the composed system keeps only the calls.

  Not modelled: log lines, except for Logger itself, the background \<open>ErrorHandler\<close> and the warning of the
  executor's destructor; \<open>className\<close> of HTTPError (a name the compiler chooses); the release of memory
  except in AutoPtr; the accessors that only return a field; the HTTP server, thread, directory watcher
  and option processing of Poco, whose sources are not in the repository.
\<close>

end
